(* ===== verification/Xy_Prelude.thy ===== *)
theory Xy_Prelude
  imports Main "HOL-Library.Word"
begin

text \<open>
  Shared vocabulary of the development: names for the machine types the C++ code uses, the
  collections of rewrite rules the component theories fill, the C++ exceptions the code can
  raise, and the generic facts on lists, words and step systems that more than one component
  needs.

  Machine types. The code is built for x86-64 Linux: \<open>size_t\<close> and pointers are 64 bits wide,
  \<open>int\<close> is 32 bits, bytes are 8 bits and integers are stored in little-endian order.
\<close>

unbundle bit_operations_syntax

type_synonym u8 = "8 word"
type_synonym u16 = "16 word"
type_synonym u32 = "32 word"
type_synonym size_t = "64 word"
type_synonym addr = "64 word"
type_synonym c_int = "32 word"

named_theorems wf_intros
named_theorems abs_simps

section \<open>C++ exceptions\<close>

text \<open>
  Every \<open>throw\<close> of the library is a value of the left summand of a result. An error code is a
  category and a number, as \<open>std::error_code\<close> is; number 0 means success, whatever the category.
\<close>

datatype error_category = System_category | Xynet_category

record error_code =
  ec_value :: int
  ec_category :: error_category

datatype cpp_exn =
    System_error error_code
  | Broken_promise
  | Length_error
  | User_exn nat

text \<open>A partial operation that leaves defined behaviour: reads past the end of an array.\<close>

datatype 'a checked = Val 'a | Undefined

fun bind_checked :: "'a checked \<Rightarrow> ('a \<Rightarrow> 'b checked) \<Rightarrow> 'b checked" where
  "bind_checked (Val a) f = f a"
| "bind_checked Undefined f = Undefined"

section \<open>Lists\<close>

text \<open>Overwriting a stretch of an array, as \<open>std::copy\<close> and \<open>memmove\<close> do.\<close>

definition write_at :: "nat \<Rightarrow> 'a list \<Rightarrow> 'a list \<Rightarrow> 'a list" where
  "write_at i src dst = take i dst @ src @ drop (i + length src) dst"

lemma length_write_at [simp]:
  "i + length src \<le> length dst \<Longrightarrow> length (write_at i src dst) = length dst"
  by (simp add: write_at_def)

lemma write_at_Nil [simp]: "write_at i [] dst = dst"
  by (simp add: write_at_def)

lemma take_write_at:
  "i + length src \<le> length dst \<Longrightarrow> take i (write_at i src dst) = take i dst"
  by (simp add: write_at_def)

lemma drop_write_at:
  "i + length src \<le> length dst \<Longrightarrow> drop (i + length src) (write_at i src dst) = drop (i + length src) dst"
  by (simp add: write_at_def)

lemma slice_write_at:
  "i + length src \<le> length dst \<Longrightarrow> take (length src) (drop i (write_at i src dst)) = src"
  by (simp add: write_at_def)

lemma nth_write_at:
  assumes "i + length src \<le> length dst" and "k < length dst"
  shows "write_at i src dst ! k =
    (if i \<le> k \<and> k < i + length src then src ! (k - i) else dst ! k)"
  using assms by (auto simp: write_at_def nth_append min_def)

lemma drop_nth_Cons: "i < length xs \<Longrightarrow> drop i xs = xs ! i # drop (Suc i) xs"
  by (simp add: Cons_nth_drop_Suc)

lemma drop_update_Cons: "i < length xs \<Longrightarrow> drop i (xs[i := v]) = v # drop (Suc i) xs"
  by (simp add: Cons_nth_drop_Suc [symmetric])

section \<open>Words\<close>

lemma unat_minus_le: "b \<le> a \<Longrightarrow> unat (a - b) = unat a - unat b"
  for a b :: "'a::len word"
  by (rule unat_sub)

lemma word_gt_0_unat: "0 < a \<longleftrightarrow> 0 < unat a"
  for a :: "'a::len word"
  by (simp add: word_less_nat_alt)

lemma uint_lt_of_unat: "unat w < n \<Longrightarrow> uint w < int n"
  for w :: "'a::len word"
  using uint_nat [of w] by linarith

lemma sint_small:
  fixes w :: c_int
  assumes "unat w < 2 ^ 31"
  shows "sint w = int (unat w)"
proof -
  from assms have "uint w < 2 ^ 31"
    using uint_lt_of_unat [of w "2 ^ 31"] by simp
  moreover have "0 \<le> uint w" by simp
  ultimately have "signed_take_bit 31 (uint w) = uint w"
    by (intro signed_take_bit_int_eq_self) linarith+
  then show ?thesis by (simp add: sint_uint)
qed

lemma sint_ucast_small:
  fixes n :: size_t
  assumes "unat n < 2 ^ 31"
  shows "sint (ucast n :: c_int) = int (unat n)"
proof -
  from assms have "unat (ucast n :: c_int) = unat n"
    by (simp add: unsigned_ucast_eq take_bit_nat_eq_self)
  with assms show ?thesis
    using sint_small [of "ucast n"] by simp
qed

lemma unat_of_int_size:
  "0 \<le> k \<Longrightarrow> k < 2 ^ 64 \<Longrightarrow> unat (word_of_int k :: size_t) = nat k"
  by (simp add: unat_eq_nat_uint uint_word_of_int)

lemma unat_of_nat_size: "n < 2 ^ 64 \<Longrightarrow> unat (of_nat n :: size_t) = n"
  by (simp add: unsigned_of_nat take_bit_nat_eq_self)

lemma length4: "length xs = 4 \<longleftrightarrow> (\<exists>a b c d. xs = [a, b, c, d])"
  by (auto simp: numeral_eq_Suc length_Suc_conv)

lemma u8_eqI:
  fixes x y :: u8
  assumes "\<And>n. n \<in> {0, 1, 2, 3, 4, 5, 6, 7} \<Longrightarrow> bit x n = bit y n"
  shows "x = y"
proof (rule bit_word_eqI)
  fix n assume "n < LENGTH(8)"
  then have "n \<in> {0, 1, 2, 3, 4, 5, 6, 7}" by auto
  then show "bit x n = bit y n" by (rule assms)
qed

lemma and_pow2_u8:
  "(x :: u8) AND 0x10 \<noteq> 0 \<longleftrightarrow> bit x 4" "x AND 0x20 \<noteq> 0 \<longleftrightarrow> bit x 5" "x AND 0x80 \<noteq> 0 \<longleftrightarrow> bit x 7"
  using and_exp_eq_0_iff_not_bit [of x 4] and_exp_eq_0_iff_not_bit [of x 5]
    and_exp_eq_0_iff_not_bit [of x 7] by simp_all

section \<open>Step systems\<close>

text \<open>
  A component that runs concurrently with others is a step relation; the states it can be in
  are those reached from its initial states. An invariant that holds initially and survives
  every step holds in every reachable state.
\<close>

inductive reaches :: "('s \<Rightarrow> bool) \<Rightarrow> ('s \<Rightarrow> 's \<Rightarrow> bool) \<Rightarrow> 's \<Rightarrow> bool"
  for init :: "'s \<Rightarrow> bool" and step :: "'s \<Rightarrow> 's \<Rightarrow> bool"
where
  reaches_init: "init s \<Longrightarrow> reaches init step s"
| reaches_step: "reaches init step s \<Longrightarrow> step s t \<Longrightarrow> reaches init step t"

locale step_system =
  fixes init :: "'s \<Rightarrow> bool"
    and step :: "'s \<Rightarrow> 's \<Rightarrow> bool"
    and inv :: "'s \<Rightarrow> bool"
  assumes inv_init: "init s \<Longrightarrow> inv s"
    and inv_step: "inv s \<Longrightarrow> step s t \<Longrightarrow> inv t"
begin

lemma inv_reaches: "reaches init step s \<Longrightarrow> inv s"
  by (induction rule: reaches.induct) (auto intro: inv_init inv_step)

lemma inv_rtranclp: "inv s \<Longrightarrow> step\<^sup>*\<^sup>* s t \<Longrightarrow> inv t"
  by (rotate_tac, induction rule: rtranclp_induct) (auto intro: inv_step)

end

end
