(* ===== verification/Stream_Buffer.thy ===== *)
theory Stream_Buffer
  imports Xy_Prelude
begin

text \<open>
  \<open>include/xynet/stream_buffer.h\<close>: a growable byte queue on top of \<open>std::streambuf\<close>. The state
  is the vector and the six pointers of the stream buffer, kept as offsets from the start of the
  vector (the code recomputes every pointer after the vector moved). The pointer bumps of
  \<open>std::streambuf\<close> take an \<open>int\<close>, so a bump by a \<open>size_t\<close> is truncated to 32 bits; the model
  keeps that truncation and the invariant \<open>sb_ok\<close> says when it does no harm.
\<close>

section \<open>State\<close>

record stream_buffer =
  m_buffer :: "u8 list"
  eback :: int
  gptr :: int
  egptr :: int
  pbase :: int
  pptr :: int
  epptr :: int

definition setg :: "int \<Rightarrow> int \<Rightarrow> int \<Rightarrow> stream_buffer \<Rightarrow> stream_buffer" where
  "setg b g e sb = sb\<lparr>eback := b, gptr := g, egptr := e\<rparr>"

definition setp :: "int \<Rightarrow> int \<Rightarrow> stream_buffer \<Rightarrow> stream_buffer" where
  "setp b e sb = sb\<lparr>pbase := b, pptr := b, epptr := e\<rparr>"

text \<open>\<open>pbump\<close> and \<open>gbump\<close> take an \<open>int\<close>.\<close>

definition to_int :: "size_t \<Rightarrow> int" where
  "to_int n = sint (ucast n :: c_int)"

definition pbump :: "int \<Rightarrow> stream_buffer \<Rightarrow> stream_buffer" where
  "pbump k sb = sb\<lparr>pptr := pptr sb + k\<rparr>"

definition gbump :: "int \<Rightarrow> stream_buffer \<Rightarrow> stream_buffer" where
  "gbump k sb = sb\<lparr>gptr := gptr sb + k\<rparr>"

definition vector_resize :: "nat \<Rightarrow> u8 list \<Rightarrow> u8 list" where
  "vector_resize k buf = take k buf @ replicate (k - length buf) 0"

definition memmove :: "nat \<Rightarrow> nat \<Rightarrow> nat \<Rightarrow> u8 list \<Rightarrow> u8 list" where
  "memmove dst src n buf = write_at dst (take n (drop src buf)) buf"

section \<open>Operations\<close>

definition DELTA :: size_t where
  "DELTA = 128"

definition stream_buffer_new :: stream_buffer where
  "stream_buffer_new =
     \<lparr>m_buffer = replicate (unat DELTA) 0, eback = 0, gptr = 0, egptr = 0,
      pbase = 0, pptr = 0, epptr = int (unat DELTA)\<rparr>"

definition sb_size :: "stream_buffer \<Rightarrow> size_t" where
  "sb_size sb = word_of_int (pptr sb - gptr sb)"

definition data :: "stream_buffer \<Rightarrow> u8 list" where
  "data sb = take (nat (pptr sb - gptr sb)) (drop (nat (gptr sb)) (m_buffer sb))"

text \<open>
  \<open>reserve\<close>: nothing to do when the free space suffices; else the unread bytes move to the
  front and the vector grows when that is still not enough. \<open>vector::resize\<close> throws beyond
  \<open>max_size()\<close>, which is \<open>PTRDIFF_MAX\<close>.
\<close>

definition shift_back :: "stream_buffer \<Rightarrow> int \<times> u8 list" where
  "shift_back sb =
     (if gptr sb > 0
      then (pptr sb - gptr sb,
            memmove 0 (nat (gptr sb)) (nat (pptr sb - gptr sb)) (m_buffer sb))
      else (pptr sb, m_buffer sb))"

definition reserve :: "size_t \<Rightarrow> stream_buffer \<Rightarrow> cpp_exn + stream_buffer" where
  "reserve n sb =
     (if n = 0 \<or> n \<le> word_of_int (epptr sb - pptr sb) then Inr sb
      else
        let epptr_pos = epptr sb; (pptr_pos, buf) = shift_back sb
        in if word_of_int (epptr_pos - pptr_pos) < n then
             let new_size = word_of_int pptr_pos + n in
             if 2 ^ 63 - 1 < new_size then Inl Length_error
             else Inr (setp pptr_pos (int (unat new_size))
                    (setg 0 0 pptr_pos (sb\<lparr>m_buffer := vector_resize (unat new_size) buf\<rparr>)))
           else Inr (setp pptr_pos epptr_pos (setg 0 0 pptr_pos (sb\<lparr>m_buffer := buf\<rparr>))))"

text \<open>\<open>prepare\<close> returns the writable region as its offset and its length.\<close>

definition prepare :: "size_t \<Rightarrow> stream_buffer \<Rightarrow> cpp_exn + (int \<times> size_t) \<times> stream_buffer" where
  "prepare n sb =
     (case reserve n sb of Inl e \<Rightarrow> Inl e | Inr sb' \<Rightarrow> Inr ((pptr sb', n), sb'))"

definition sb_commit :: "size_t \<Rightarrow> stream_buffer \<Rightarrow> stream_buffer" where
  "sb_commit n sb =
     (let n = min n (word_of_int (epptr sb - pptr sb));
          sb = pbump (to_int n) sb
      in setg (eback sb) (gptr sb) (pptr sb) sb)"

definition consume :: "size_t \<Rightarrow> stream_buffer \<Rightarrow> stream_buffer" where
  "consume n sb =
     (let sb = (if egptr sb < pptr sb then setg 0 (gptr sb) (pptr sb) sb else sb);
          n = (if pptr sb < gptr sb + uint n then word_of_int (pptr sb - gptr sb) else n)
      in gbump (to_int n) sb)"

definition traits_eof :: int where
  "traits_eof = - 1"

definition overflow :: "int \<Rightarrow> stream_buffer \<Rightarrow> cpp_exn + int \<times> stream_buffer" where
  "overflow c sb =
     (if c = traits_eof then Inr (0, sb)
      else case (if pptr sb = epptr sb then reserve DELTA sb else Inr sb) of
        Inl e \<Rightarrow> Inl e
      | Inr sb \<Rightarrow>
          Inr (c, pbump 1 (sb\<lparr>m_buffer := (m_buffer sb)[nat (pptr sb) := word_of_int c]\<rparr>)))"

definition underflow :: "stream_buffer \<Rightarrow> int \<times> stream_buffer" where
  "underflow sb =
     (if gptr sb < pptr sb
      then (uint (m_buffer sb ! nat (gptr sb)), setg 0 (gptr sb) (pptr sb) sb)
      else (traits_eof, sb))"

text \<open>
  How every client uses the buffer: \<open>prepare(n)\<close>, let a transfer write some bytes at the start
  of the region, \<open>commit\<close> as many as were written.
\<close>

definition fill :: "size_t \<Rightarrow> u8 list \<Rightarrow> stream_buffer \<Rightarrow> cpp_exn + stream_buffer" where
  "fill n bytes sb =
     (case prepare n sb of
        Inl e \<Rightarrow> Inl e
      | Inr ((off, _), sb) \<Rightarrow>
          Inr (sb_commit (of_nat (length bytes))
            (sb\<lparr>m_buffer := write_at (nat off) bytes (m_buffer sb)\<rparr>)))"

section \<open>Invariant\<close>

definition sb_wf :: "stream_buffer \<Rightarrow> bool" where
  "sb_wf sb \<longleftrightarrow> eback sb = 0 \<and> 0 \<le> gptr sb \<and> gptr sb \<le> egptr sb \<and> egptr sb \<le> pptr sb \<and>
     pptr sb \<le> epptr sb \<and> epptr sb = int (length (m_buffer sb))"

definition sb_ok :: "stream_buffer \<Rightarrow> bool" where
  "sb_ok sb \<longleftrightarrow> sb_wf sb \<and> length (m_buffer sb) < 2 ^ 31"

section \<open>Lemmas\<close>

lemmas sb_defs = setg_def setp_def pbump_def gbump_def

lemma to_int_small: "unat n < 2 ^ 31 \<Longrightarrow> to_int n = int (unat n)"
  by (simp add: to_int_def sint_ucast_small)

lemma length_vector_resize [simp]: "length (vector_resize k buf) = k"
  by (simp add: vector_resize_def)

lemma take_vector_resize: "i \<le> k \<Longrightarrow> i \<le> length buf \<Longrightarrow> take i (vector_resize k buf) = take i buf"
  by (simp add: vector_resize_def min_def)

lemma length_data: "sb_wf sb \<Longrightarrow> length (data sb) = nat (pptr sb - gptr sb)"
  by (simp add: data_def sb_wf_def nat_diff_distrib) arith

lemma avail_unat:
  "sb_ok sb \<Longrightarrow> unat (word_of_int (epptr sb - pptr sb) :: size_t) = nat (epptr sb - pptr sb)"
  by (rule unat_of_int_size) (auto simp: sb_ok_def sb_wf_def)

lemma shift_back_correct:
  assumes "sb_wf sb" and "shift_back sb = (p, buf)"
  shows "p = pptr sb - gptr sb" and "take (nat p) buf = data sb" and "length buf = length (m_buffer sb)"
proof -
  have len: "length (data sb) = nat (pptr sb - gptr sb)"
    using assms(1) by (rule length_data)
  have le: "length (data sb) \<le> length (m_buffer sb)"
    using assms(1) by (auto simp: len sb_wf_def)
  show "p = pptr sb - gptr sb"
    using assms by (auto simp: shift_back_def sb_wf_def split: if_splits)
  show "length buf = length (m_buffer sb)"
    using assms(2) le
    by (auto simp: shift_back_def memmove_def data_def split: if_splits)
  show "take (nat p) buf = data sb"
    using assms len le slice_write_at [of 0 "data sb" "m_buffer sb"]
    by (auto simp: shift_back_def memmove_def data_def sb_wf_def split: if_splits)
qed

lemma reserve_correct:
  assumes ok: "sb_ok sb" and room: "length (data sb) + unat n < 2 ^ 31"
  obtains sb' where "reserve n sb = Inr sb'" and "sb_ok sb'" and "data sb' = data sb"
    and "int (unat n) \<le> epptr sb' - pptr sb'"
proof (cases "n = 0 \<or> n \<le> word_of_int (epptr sb - pptr sb)")
  case True
  then have "reserve n sb = Inr sb" by (simp add: reserve_def)
  moreover have "unat n \<le> nat (epptr sb - pptr sb)"
    using True avail_unat [OF ok] by (auto simp: word_le_nat_alt)
  then have "int (unat n) \<le> epptr sb - pptr sb"
    using ok unfolding sb_ok_def sb_wf_def by linarith
  ultimately show ?thesis using that ok by blast
next
  case False
  obtain p buf where sh: "shift_back sb = (p, buf)" by fastforce
  have wf: "sb_wf sb" using ok by (simp add: sb_ok_def)
  note sc = shift_back_correct [OF wf sh]
  have p: "0 \<le> p" "p \<le> epptr sb" "nat p = length (data sb)" "p < 2 ^ 31"
    using wf ok sc(1) length_data [OF wf] by (auto simp: sb_wf_def sb_ok_def)
  have av: "unat (word_of_int (epptr sb - p) :: size_t) = nat (epptr sb - p)"
    using p ok by (intro unat_of_int_size) (auto simp: sb_ok_def sb_wf_def)
  show ?thesis
  proof (cases "word_of_int (epptr sb - p) < n")
    case grow: True
    have "unat (word_of_int p + n) = nat p + unat n"
      using p room unat_of_int_size [of p] by (simp add: unat_word_ariths)
    then have sz: "unat (word_of_int p + n) = length (data sb) + unat n" using p by simp
    then have small: "\<not> 2 ^ 63 - 1 < word_of_int p + n"
      using room by (simp add: word_less_nat_alt)
    let ?k = "length (data sb) + unat n"
    let ?sb = "setp p (int ?k) (setg 0 0 p (sb\<lparr>m_buffer := vector_resize ?k buf\<rparr>))"
    have "reserve n sb = Inr ?sb"
      using False sh grow small sz by (simp add: reserve_def Let_def)
    moreover have "p \<le> int ?k"
      using p by linarith
    then have "sb_ok ?sb"
      using p room by (simp add: sb_ok_def sb_wf_def sb_defs)
    moreover have "data ?sb = data sb"
      using p sc by (simp add: data_def sb_defs take_vector_resize)
    moreover have "int (unat n) \<le> epptr ?sb - pptr ?sb"
      using p by (simp add: sb_defs)
    ultimately show ?thesis using that by blast
  next
    case fits: False
    let ?sb = "setp p (epptr sb) (setg 0 0 p (sb\<lparr>m_buffer := buf\<rparr>))"
    have "reserve n sb = Inr ?sb"
      using False sh fits by (simp add: reserve_def Let_def)
    moreover have "sb_ok ?sb"
      using p ok sc by (auto simp: sb_ok_def sb_wf_def sb_defs)
    moreover have "data ?sb = data sb"
      using p sc by (simp add: data_def sb_defs)
    moreover have "\<not> nat (epptr sb - p) < unat n"
      using fits av by (simp add: word_less_nat_alt)
    then have "int (unat n) \<le> epptr sb - p" using p by linarith
    then have "int (unat n) \<le> epptr ?sb - pptr ?sb"
      by (simp add: sb_defs)
    ultimately show ?thesis using that by blast
  qed
qed

lemma commit_correct:
  assumes ok: "sb_ok sb" and fits: "int k \<le> epptr sb - pptr sb"
  shows "sb_ok (sb_commit (of_nat k) sb)"
    and "data (sb_commit (of_nat k) sb) = data sb @ take k (drop (nat (pptr sb)) (m_buffer sb))"
proof -
  have b: "k < 2 ^ 31" and wf: "sb_wf sb"
    using ok fits by (auto simp: sb_ok_def sb_wf_def)
  have u: "unat (of_nat k :: size_t) = k"
    using b by (simp add: unsigned_of_nat take_bit_nat_eq_self)
  have "min (of_nat k) (word_of_int (epptr sb - pptr sb)) = (of_nat k :: size_t)"
    using fits u avail_unat [OF ok] by (intro min_absorb1) (simp add: word_le_nat_alt)
  then have c: "sb_commit (of_nat k) sb = sb\<lparr>pptr := pptr sb + int k, egptr := pptr sb + int k\<rparr>"
    using u b to_int_small [of "of_nat k"] by (simp add: sb_commit_def Let_def sb_defs)
  show "sb_ok (sb_commit (of_nat k) sb)"
    using ok fits by (auto simp: c sb_ok_def sb_wf_def)
  have "nat (pptr sb + int k - gptr sb) = nat (pptr sb - gptr sb) + k"
    using wf by (auto simp: sb_wf_def)
  moreover have "nat (pptr sb - gptr sb) + nat (gptr sb) = nat (pptr sb)"
    using wf by (auto simp: sb_wf_def)
  ultimately show "data (sb_commit (of_nat k) sb) = data sb @ take k (drop (nat (pptr sb)) (m_buffer sb))"
    by (simp add: c data_def take_add)
qed

lemma consume_correct:
  assumes ok: "sb_ok sb" and n: "unat n < 2 ^ 31"
  shows "sb_ok (consume n sb)" and "data (consume n sb) = drop (unat n) (data sb)"
proof -
  have wf: "sb_wf sb" using ok by (simp add: sb_ok_def)
  let ?e = "if egptr sb < pptr sb then pptr sb else egptr sb"
  let ?m = "min (int (unat n)) (pptr sb - gptr sb)"
  have sz: "unat (word_of_int (pptr sb - gptr sb) :: size_t) = nat (pptr sb - gptr sb)"
    using ok by (intro unat_of_int_size) (auto simp: sb_ok_def sb_wf_def)
  have "to_int (if pptr sb < gptr sb + uint n then word_of_int (pptr sb - gptr sb) else n) = ?m"
    using n sz ok to_int_small [of n] to_int_small [of "word_of_int (pptr sb - gptr sb)"]
    by (auto simp: min_def sb_ok_def sb_wf_def)
  then have c: "consume n sb = sb\<lparr>egptr := pptr sb, gptr := gptr sb + ?m\<rparr>"
    using wf by (auto simp: consume_def Let_def sb_defs sb_wf_def)
  show "sb_ok (consume n sb)"
    using ok by (auto simp: c sb_ok_def sb_wf_def)
  have "data (consume n sb) = drop (nat ?m) (data sb)"
    using wf unfolding c data_def sb_wf_def
    by (auto simp: drop_take nat_add_distrib nat_diff_distrib add.commute)
  also have "\<dots> = drop (unat n) (data sb)"
  proof (cases "int (unat n) \<le> pptr sb - gptr sb")
    case False
    then have "nat (pptr sb - gptr sb) \<le> unat n" by linarith
    with False length_data [OF wf] show ?thesis by (simp add: min_def)
  qed (simp add: min_def)
  finally show "data (consume n sb) = drop (unat n) (data sb)" .
qed

lemma fill_correct:
  assumes ok: "sb_ok sb" and bs: "length bytes \<le> unat n"
    and room: "length (data sb) + unat n < 2 ^ 31"
  shows "\<exists>sb'. fill n bytes sb = Inr sb' \<and> sb_ok sb' \<and> data sb' = data sb @ bytes"
proof -
  obtain s1 where s1: "reserve n sb = Inr s1" "sb_ok s1" "data s1 = data sb"
      "int (unat n) \<le> epptr s1 - pptr s1"
    using reserve_correct [OF ok room] .
  have wf: "sb_wf s1" using s1(2) by (simp add: sb_ok_def)
  have fits: "int (length bytes) \<le> epptr s1 - pptr s1" using bs s1(4) by linarith
  let ?s2 = "s1\<lparr>m_buffer := write_at (nat (pptr s1)) bytes (m_buffer s1)\<rparr>"
  have le: "nat (pptr s1) + length bytes \<le> length (m_buffer s1)"
    using fits wf by (auto simp: sb_wf_def)
  then have ok2: "sb_ok ?s2" using s1(2) by (simp add: sb_ok_def sb_wf_def)
  have "fill n bytes sb = Inr (sb_commit (of_nat (length bytes)) ?s2)"
    using s1(1) by (simp add: fill_def prepare_def)
  moreover have "data ?s2 = data s1"
  proof -
    have "nat (pptr s1 - gptr s1) + nat (gptr s1) = nat (pptr s1)"
      using wf by (auto simp: sb_wf_def)
    then have "take (nat (pptr s1 - gptr s1)) (drop (nat (gptr s1)) xs)
        = drop (nat (gptr s1)) (take (nat (pptr s1)) xs)" for xs :: "u8 list"
      by (simp add: take_drop add.commute)
    then show ?thesis by (simp add: data_def take_write_at [OF le])
  qed
  ultimately show ?thesis
    using commit_correct [OF ok2, of "length bytes"] fits s1(3) slice_write_at [OF le] by simp
qed

lemma overflow_correct:
  assumes ok: "sb_ok sb" and c: "0 \<le> c" and room: "length (data sb) + 128 < 2 ^ 31"
  shows "\<exists>sb'. overflow c sb = Inr (c, sb') \<and> sb_ok sb' \<and> data sb' = data sb @ [word_of_int c]"
proof -
  obtain s1 where s1: "(if pptr sb = epptr sb then reserve DELTA sb else Inr sb) = Inr s1"
      "sb_ok s1" "data s1 = data sb" "1 \<le> epptr s1 - pptr s1"
  proof (cases "pptr sb = epptr sb")
    case True
    obtain s1 where "reserve DELTA sb = Inr s1" "sb_ok s1" "data s1 = data sb"
        "int (unat DELTA) \<le> epptr s1 - pptr s1"
      using reserve_correct [OF ok, of DELTA] room by (auto simp: DELTA_def)
    with True that show ?thesis by (simp add: DELTA_def)
  next
    case False
    with ok that [of sb] show ?thesis by (auto simp: sb_ok_def sb_wf_def)
  qed
  let ?s2 = "pbump 1 (s1\<lparr>m_buffer := (m_buffer s1)[nat (pptr s1) := word_of_int c]\<rparr>)"
  have wf: "sb_wf s1" using s1(2) by (simp add: sb_ok_def)
  have "overflow c sb = Inr (c, ?s2)"
    using c s1(1) by (simp add: overflow_def traits_eof_def)
  moreover have "sb_ok ?s2"
    using s1(2,4) by (auto simp: sb_ok_def sb_wf_def sb_defs)
  moreover have "data ?s2 = data s1 @ [word_of_int c]"
  proof -
    have "nat (pptr s1 + 1 - gptr s1) = Suc (nat (pptr s1 - gptr s1))"
      and "nat (pptr s1) - nat (gptr s1) = nat (pptr s1 - gptr s1)"
      and "nat (pptr s1 - gptr s1) < length (m_buffer s1) - nat (gptr s1)"
      and "nat (pptr s1) < length (m_buffer s1)" and "nat (gptr s1) \<le> nat (pptr s1)"
      using wf s1(4) by (auto simp: sb_wf_def)
    then show ?thesis
      by (simp add: data_def sb_defs take_Suc_conv_app_nth drop_update_swap)
  qed
  ultimately show ?thesis using s1(3) by auto
qed

lemma underflow_correct:
  assumes "sb_ok sb"
  shows "fst (underflow sb) = (case data sb of [] \<Rightarrow> traits_eof | x # _ \<Rightarrow> uint x)"
    and "sb_ok (snd (underflow sb))" and "data (snd (underflow sb)) = data sb"
proof -
  show "sb_ok (snd (underflow sb))" and "data (snd (underflow sb)) = data sb"
    using assms by (auto simp: underflow_def sb_ok_def sb_wf_def sb_defs data_def)
  show "fst (underflow sb) = (case data sb of [] \<Rightarrow> traits_eof | x # _ \<Rightarrow> uint x)"
  proof (cases "gptr sb < pptr sb")
    case True
    with assms have "nat (gptr sb) < length (m_buffer sb)"
      by (auto simp: sb_ok_def sb_wf_def)
    then have "data sb = m_buffer sb ! nat (gptr sb) #
        take (nat (pptr sb - gptr sb) - 1) (drop (Suc (nat (gptr sb))) (m_buffer sb))"
      using True by (simp add: data_def drop_nth_Cons take_Cons')
    with True show ?thesis by (simp add: underflow_def)
  next
    case False
    then show ?thesis by (simp add: underflow_def data_def)
  qed
qed

section \<open>The byte queue interface\<close>

datatype fifo_op = Fill size_t "u8 list" | Consume size_t

fun fifo_spec :: "fifo_op \<Rightarrow> u8 list \<Rightarrow> u8 list" where
  "fifo_spec (Fill n bs) xs = xs @ bs"
| "fifo_spec (Consume n) xs = drop (unat n) xs"

text \<open>The size limits under which no 32-bit bump truncates.\<close>

fun fifo_fits :: "fifo_op list \<Rightarrow> u8 list \<Rightarrow> bool" where
  "fifo_fits [] xs \<longleftrightarrow> True"
| "fifo_fits (Fill n bs # ops) xs \<longleftrightarrow>
     length bs \<le> unat n \<and> length xs + unat n < 2 ^ 31 \<and> fifo_fits ops (xs @ bs)"
| "fifo_fits (Consume n # ops) xs \<longleftrightarrow> unat n < 2 ^ 31 \<and> fifo_fits ops (drop (unat n) xs)"

fun run_ops :: "(size_t \<Rightarrow> u8 list \<Rightarrow> 'q \<Rightarrow> cpp_exn + 'q) \<Rightarrow> (size_t \<Rightarrow> 'q \<Rightarrow> 'q)
    \<Rightarrow> fifo_op list \<Rightarrow> 'q \<Rightarrow> cpp_exn + 'q" where
  "run_ops push pop [] q = Inr q"
| "run_ops push pop (Fill n bs # ops) q =
     (case push n bs q of Inl e \<Rightarrow> Inl e | Inr q' \<Rightarrow> run_ops push pop ops q')"
| "run_ops push pop (Consume n # ops) q = run_ops push pop ops (pop n q)"

locale byte_fifo =
  fixes push :: "size_t \<Rightarrow> u8 list \<Rightarrow> 'q \<Rightarrow> cpp_exn + 'q"
    and pop :: "size_t \<Rightarrow> 'q \<Rightarrow> 'q"
    and contents :: "'q \<Rightarrow> u8 list"
    and ok :: "'q \<Rightarrow> bool"
  assumes push_law: "ok q \<Longrightarrow> length bs \<le> unat n \<Longrightarrow> length (contents q) + unat n < 2 ^ 31 \<Longrightarrow>
      \<exists>q'. push n bs q = Inr q' \<and> ok q' \<and> contents q' = contents q @ bs"
    and pop_ok: "ok q \<Longrightarrow> unat n < 2 ^ 31 \<Longrightarrow> ok (pop n q)"
    and pop_contents: "ok q \<Longrightarrow> unat n < 2 ^ 31 \<Longrightarrow> contents (pop n q) = drop (unat n) (contents q)"
begin

lemma run_ops_refines:
  "ok q \<Longrightarrow> fifo_fits ops (contents q) \<Longrightarrow>
   \<exists>q'. run_ops push pop ops q = Inr q' \<and> ok q' \<and> contents q' = fold fifo_spec ops (contents q)"
proof (induction ops arbitrary: q)
  case (Cons op ops)
  show ?case
  proof (cases op)
    case (Fill n bs)
    with Cons.prems push_law [of q bs n] obtain q1
      where "push n bs q = Inr q1" "ok q1" "contents q1 = contents q @ bs" by auto
    with Fill Cons.IH [of q1] Cons.prems show ?thesis by simp
  next
    case (Consume n)
    with Cons.prems have "ok (pop n q)" "contents (pop n q) = drop (unat n) (contents q)"
      by (simp_all add: pop_ok pop_contents)
    with Consume Cons.IH [of "pop n q"] Cons.prems show ?thesis by simp
  qed
qed simp

end

interpretation sbq: byte_fifo fill consume data sb_ok
  by unfold_locales (simp_all add: fill_correct consume_correct)

lemma stream_buffer_new_ok: "sb_ok stream_buffer_new" and data_new: "data stream_buffer_new = []"
  by (simp_all add: sb_ok_def sb_wf_def stream_buffer_new_def DELTA_def data_def)

section \<open>Properties\<close>

text \<open>
  C10: a stream buffer is a byte queue. Starting from a fresh buffer, any sequence of fills
  (\<open>prepare(n)\<close>, at most \<open>n\<close> bytes written, \<open>commit\<close>) and \<open>consume\<close>s within the 2 GiB limit
  succeeds, keeps the pointer invariant, and leaves \<open>data()\<close> equal to what appending and
  dropping the same bytes on a list leaves, through every shift and growth of the vector.
\<close>

theorem stream_buffer_is_fifo:
  assumes "fifo_fits ops []"
  shows "\<exists>sb. run_ops fill consume ops stream_buffer_new = Inr sb \<and> sb_ok sb \<and>
    data sb = fold fifo_spec ops []"
  using sbq.run_ops_refines [OF stream_buffer_new_ok, of ops] assms by (simp add: data_new)

theorem stream_buffer_is_fifo_witness:
  "\<exists>sb. run_ops fill consume [Fill 200 [1, 2, 3], Consume 2, Fill 1024 [4, 5]] stream_buffer_new
     = Inr sb \<and> data sb = [3, 4, 5]"
  using stream_buffer_is_fifo [of "[Fill 200 [1, 2, 3], Consume 2, Fill 1024 [4, 5]]"] by auto

text \<open>
  the \<open>std::streambuf\<close> overrides agree with that queue: \<open>overflow(c)\<close> appends the byte
  \<open>c\<close> and returns it, and \<open>underflow()\<close> returns the first unread byte, or end of file when there
  is none, and changes nothing else.
\<close>

theorem overflow_underflow_queue:
  assumes "sb_ok sb" and "0 \<le> c" and "length (data sb) + 128 < 2 ^ 31"
  shows "(\<exists>sb'. overflow c sb = Inr (c, sb') \<and> sb_ok sb' \<and> data sb' = data sb @ [word_of_int c]) \<and>
    fst (underflow sb) = (case data sb of [] \<Rightarrow> traits_eof | x # _ \<Rightarrow> uint x) \<and>
    data (snd (underflow sb)) = data sb"
  using overflow_correct [OF assms] underflow_correct [OF assms(1)] by blast

theorem overflow_underflow_queue_witness:
  "(\<exists>sb'. overflow 65 stream_buffer_new = Inr (65, sb') \<and> data sb' = [65]) \<and>
   fst (underflow stream_buffer_new) = - 1"
  using overflow_underflow_queue [of stream_buffer_new 65]
  by (auto simp: stream_buffer_new_ok data_new traits_eof_def)

end
