(* ===== verification/Incremental_Parser.thy ===== *)
theory Incremental_Parser
  imports Xy_Prelude
begin

text \<open>
  The contract of a parser that is fed a stream in pieces: it keeps its own state, reports
  \<open>None\<close> while the input is incomplete and \<open>Some k\<close> once it stopped after the first \<open>k\<close> bytes of
  the piece it was given. The law \<open>feed_append\<close> says that the cut between two pieces cannot be
  observed; feeding any cutting of a stream then gives what feeding the whole stream gives.
\<close>

type_synonym ('s, 'a) feeder = "'s \<Rightarrow> 'a list \<Rightarrow> 's \<times> nat option"

fun feed_chunks :: "('s, 'a) feeder \<Rightarrow> 's \<Rightarrow> 'a list list \<Rightarrow> nat \<Rightarrow> 's \<times> nat option" where
  "feed_chunks feed s [] off = (s, None)"
| "feed_chunks feed s (c # cs) off =
     (case feed s c of
        (s', Some k) \<Rightarrow> (s', Some (off + k))
      | (s', None) \<Rightarrow> feed_chunks feed s' cs (off + length c))"

locale incremental_parser =
  fixes feed :: "('s, 'a) feeder"
  assumes feed_Nil: "feed s [] = (s, None)"
    and feed_append: "feed s (a @ b) =
      (case feed s a of
         (s', Some k) \<Rightarrow> (s', Some k)
       | (s', None) \<Rightarrow> map_prod id (map_option ((+) (length a))) (feed s' b))"
begin

lemma feed_chunks_concat:
  "feed_chunks feed s cs off = map_prod id (map_option ((+) off)) (feed s (concat cs))"
proof (induction cs arbitrary: s off)
  case Nil
  show ?case by (simp add: feed_Nil)
next
  case (Cons c cs)
  show ?case
    by (auto simp: Cons.IH feed_append prod.map_comp option.map_comp comp_def add.assoc
        split: prod.splits option.splits)
qed

lemma feed_chunks_whole: "feed_chunks feed s cs 0 = feed s (concat cs)"
  by (cases "feed s (concat cs)"; cases "snd (feed s (concat cs))")
    (auto simp: feed_chunks_concat)

lemma feed_prefix_incomplete:
  assumes "feed s (a @ b) = (t, Some k)" and "length a < k"
    and stop: "\<And>u j. feed s a = (u, Some j) \<Longrightarrow> j \<le> length a"
  shows "snd (feed s a) = None"
  using assms by (cases "feed s a"; cases "snd (feed s a)") (fastforce simp: feed_append)+

end

end
