(* ===== verification/WS_Frame.thy ===== *)
theory WS_Frame
  imports Incremental_Parser
begin

text \<open>
  \<open>include/xynet/http/websocket_frame_header.h\<close>: the flags, the size computation, the builder
  and the incremental parser of WebSocket frame headers, and
  \<open>include/xynet/http/websocket_frame_mask.h\<close>: masking of the payload.
\<close>

section \<open>Flags\<close>

text \<open>\<open>enum class websocket_flags : unsigned char\<close>, closed under the bitwise operators.\<close>

type_synonym websocket_flags = u8

definition WS_NONE :: websocket_flags where "WS_NONE = 0x0"
definition WS_OP_CONTINUE :: websocket_flags where "WS_OP_CONTINUE = 0x0"
definition WS_OP_TEXT :: websocket_flags where "WS_OP_TEXT = 0x1"
definition WS_OP_BINARY :: websocket_flags where "WS_OP_BINARY = 0x2"
definition WS_OP_CLOSE :: websocket_flags where "WS_OP_CLOSE = 0x8"
definition WS_OP_PING :: websocket_flags where "WS_OP_PING = 0x9"
definition WS_OP_PONG :: websocket_flags where "WS_OP_PONG = 0xA"
definition WS_OP_MASK :: websocket_flags where "WS_OP_MASK = 0xF"
definition WS_FIN :: websocket_flags where "WS_FIN = 0x10"
definition WS_FINAL_FRAME :: websocket_flags where "WS_FINAL_FRAME = 0x10"
definition WS_HAS_MASK :: websocket_flags where "WS_HAS_MASK = 0x20"

lemmas ws_flag_defs = WS_NONE_def WS_OP_CONTINUE_def WS_OP_TEXT_def WS_OP_BINARY_def
  WS_OP_CLOSE_def WS_OP_PING_def WS_OP_PONG_def WS_OP_MASK_def WS_FIN_def WS_FINAL_FRAME_def
  WS_HAS_MASK_def

definition websocket_flags_not_none :: "websocket_flags \<Rightarrow> bool" where
  "websocket_flags_not_none flag \<longleftrightarrow> flag \<noteq> 0"

definition flags_and :: "websocket_flags \<Rightarrow> websocket_flags \<Rightarrow> websocket_flags" where
  "flags_and lhs rhs = lhs AND rhs"

definition flags_or :: "websocket_flags \<Rightarrow> websocket_flags \<Rightarrow> websocket_flags" where
  "flags_or lhs rhs = lhs OR rhs"

definition flags_xor :: "websocket_flags \<Rightarrow> websocket_flags \<Rightarrow> websocket_flags" where
  "flags_xor lhs rhs = lhs XOR rhs"

definition flags_not :: "websocket_flags \<Rightarrow> websocket_flags" where
  "flags_not lhs = NOT lhs"

text \<open>The assignment operators, by the new value of \<open>lhs\<close>.\<close>

definition flags_and_assign :: "websocket_flags \<Rightarrow> websocket_flags \<Rightarrow> websocket_flags" where
  "flags_and_assign lhs rhs = flags_and lhs rhs"

definition flags_or_assign :: "websocket_flags \<Rightarrow> websocket_flags \<Rightarrow> websocket_flags" where
  "flags_or_assign lhs rhs = flags_or lhs rhs"

definition flags_xor_assign :: "websocket_flags \<Rightarrow> websocket_flags \<Rightarrow> websocket_flags" where
  "flags_xor_assign lhs rhs = flags_xor lhs rhs"

lemmas flags_op_defs = websocket_flags_not_none_def flags_and_def flags_or_def flags_xor_def
  flags_not_def

lemma flags_cleared_and_set:
  "\<not> websocket_flags_not_none (flags_and (flags_and_assign flags (flags_not f)) f)"
  "f \<noteq> 0 \<Longrightarrow> websocket_flags_not_none (flags_and (flags_or_assign flags f) f)"
  "flags_xor_assign (flags_xor_assign flags f) f = flags"
  by (simp_all add: flags_op_defs flags_and_assign_def flags_or_assign_def flags_xor_assign_def and.assoc xor.assoc)

abbreviation has_mask :: "websocket_flags \<Rightarrow> bool" where
  "has_mask flags \<equiv> websocket_flags_not_none (flags_and flags WS_HAS_MASK)"

section \<open>Sizes\<close>

definition calc_frame_header_size :: "websocket_flags \<Rightarrow> size_t \<Rightarrow> size_t" where
  "calc_frame_header_size flags data_len =
     (let size = 2;
          size = (if 126 \<le> data_len then (if 0xFFFF < data_len then size + 8 else size + 2)
                  else size);
          size = (if has_mask flags then size + 4 else size)
      in size)"

definition calc_frame_size :: "websocket_flags \<Rightarrow> size_t \<Rightarrow> size_t" where
  "calc_frame_size flags data_len = data_len + calc_frame_header_size flags data_len"

definition WS_MAX_FRAME_HEADER_SIZE :: size_t where
  "WS_MAX_FRAME_HEADER_SIZE = calc_frame_header_size WS_HAS_MASK 0xFFFFFFFF"

section \<open>Builder\<close>

text \<open>
  \<open>frame\<close> is the memory from the pointer on, which may be longer than the array the caller means to be
  filled: a write behind the array changes the bytes that lie there. \<open>msk\<close> is the parameter \<open>mask\<close>,
  \<open>None\<close> for the null pointer.
\<close>

definition byte_of :: "size_t \<Rightarrow> u8" where
  "byte_of w = ucast w"

definition websocket_frame_header_builder ::
  "u8 list \<Rightarrow> websocket_flags \<Rightarrow> u8 list option \<Rightarrow> size_t \<Rightarrow> u8 list \<times> size_t" where
  "websocket_frame_header_builder frame flags msk data_len =
     (let frame = frame[0 := 0];
          frame = frame[1 := 0];
          frame = (if websocket_flags_not_none (flags_and flags WS_FIN)
                   then frame[0 := 0x80] else frame);
          frame = frame[0 := frame ! 0 OR flags_and flags WS_OP_MASK];
          frame = (if has_mask flags then frame[1 := 0x80] else frame);
          (frame, body_offset) =
            (if data_len < 126 then (frame[1 := frame ! 1 OR byte_of data_len], 2)
             else if data_len \<le> 0xFFFF then
               (let frame = frame[1 := frame ! 1 OR 126];
                    frame = frame[2 := byte_of (drop_bit 8 data_len)];
                    frame = frame[3 := byte_of (data_len AND 0xFF)]
                in (frame, 4))
             else
               (let frame = frame[1 := frame ! 1 OR 127];
                    frame = frame[2 := byte_of (drop_bit 56 data_len AND 0xFF)];
                    frame = frame[3 := byte_of (drop_bit 48 data_len AND 0xFF)];
                    frame = frame[4 := byte_of (drop_bit 40 data_len AND 0xFF)];
                    frame = frame[5 := byte_of (drop_bit 32 data_len AND 0xFF)];
                    frame = frame[6 := byte_of (drop_bit 24 data_len AND 0xFF)];
                    frame = frame[7 := byte_of (drop_bit 16 data_len AND 0xFF)];
                    frame = frame[8 := byte_of (drop_bit 8 data_len AND 0xFF)];
                    frame = frame[9 := byte_of (data_len AND 0xFF)]
                in (frame, 10)));
          (frame, body_offset) =
            (if has_mask flags
             then (case msk of
                     None \<Rightarrow> (frame, body_offset + 4)
                   | Some m \<Rightarrow> (write_at (unat body_offset) (take 4 m) frame, body_offset + 4))
             else (frame, body_offset))
      in (frame, body_offset))"

section \<open>The header class\<close>

record websocket_frame_header =
  m_header :: "u8 list"
  hdr_mask :: "u8 list"
  m_header_length :: size_t

definition websocket_frame_header_new :: "websocket_flags \<Rightarrow> size_t \<Rightarrow> websocket_frame_header" where
  "websocket_frame_header_new flags data_len =
     (let (frame, n) = websocket_frame_header_builder
            (replicate (unat WS_MAX_FRAME_HEADER_SIZE) 0) flags None data_len
      in \<lparr>m_header = frame, hdr_mask = replicate 4 0, m_header_length = n\<rparr>)"

definition websocket_frame_header_span ::
  "websocket_flags \<Rightarrow> u8 list \<Rightarrow> size_t \<Rightarrow> websocket_frame_header" where
  "websocket_frame_header_span flags msk data_len =
     (websocket_frame_header_new flags data_len)\<lparr>hdr_mask := take 4 msk\<rparr>"

text \<open>The bytes of a 32-bit integer in memory: little endian.\<close>

definition le_bytes :: "u32 \<Rightarrow> u8 list" where
  "le_bytes w = map (\<lambda>k. ucast (drop_bit (8 * k) w)) [0..<4]"

definition websocket_frame_header_u32 ::
  "websocket_flags \<Rightarrow> u32 \<Rightarrow> size_t \<Rightarrow> websocket_frame_header" where
  "websocket_frame_header_u32 flags msk data_len =
     (websocket_frame_header_new flags data_len)\<lparr>hdr_mask := le_bytes msk\<rparr>"

definition header_view :: "websocket_frame_header \<Rightarrow> u8 list" where
  "header_view h = take (unat (m_header_length h)) (m_header h)"

section \<open>Parser\<close>

datatype parser_state = S_start | S_head | S_length | S_mask | S_finished

record websocket_frame_header_parser =
  m_state :: parser_state
  m_flags :: websocket_flags
  m_mask :: "u8 list"
  m_length :: size_t
  m_require :: size_t

abbreviation (input) npos :: size_t where "npos \<equiv> - 1"

definition parser_new :: websocket_frame_header_parser where
  "parser_new = \<lparr>m_state = S_start, m_flags = WS_NONE, m_mask = replicate 4 0,
     m_length = 0, m_require = 0\<rparr>"

definition parser_reset :: "websocket_frame_header_parser \<Rightarrow> websocket_frame_header_parser" where
  "parser_reset p = p\<lparr>m_state := S_start, m_flags := WS_NONE, m_mask := replicate 4 0,
     m_length := 0, m_require := 0\<rparr>"

definition mask_uint32_t :: "websocket_frame_header_parser \<Rightarrow> u32" where
  "mask_uint32_t p =
     foldr (\<lambda>b w. push_bit 8 w OR ucast b) (m_mask p) 0"

definition parser_result :: "websocket_frame_header_parser \<Rightarrow> websocket_flags \<times> u32 \<times> size_t" where
  "parser_result p = (m_flags p, mask_uint32_t p, m_length p)"

text \<open>
  The two inner \<open>while\<close> loops: they consume bytes while \<open>m_require\<close> is not 0 and return the
  bytes left.
\<close>

fun length_loop :: "websocket_frame_header_parser \<Rightarrow> u8 list
    \<Rightarrow> websocket_frame_header_parser \<times> u8 list" where
  "length_loop p [] = (p, [])"
| "length_loop p (x # xs) =
     (if m_require p \<noteq> 0
      then length_loop (p\<lparr>m_length := push_bit 8 (m_length p) OR ucast x,
                          m_require := m_require p - 1\<rparr>) xs
      else (p, x # xs))"

fun mask_loop :: "websocket_frame_header_parser \<Rightarrow> u8 list
    \<Rightarrow> websocket_frame_header_parser \<times> u8 list" where
  "mask_loop p [] = (p, [])"
| "mask_loop p (x # xs) =
     (if m_require p \<noteq> 0
      then mask_loop (p\<lparr>m_mask := (m_mask p)[unat (4 - m_require p) := x],
                        m_require := m_require p - 1\<rparr>) xs
      else (p, x # xs))"

text \<open>The cases \<open>s_start\<close> and \<open>s_head\<close> of the \<open>switch\<close>.\<close>

definition on_start :: "u8 \<Rightarrow> websocket_frame_header_parser \<Rightarrow> websocket_frame_header_parser" where
  "on_start x p =
     (let p = p\<lparr>m_length := 0\<rparr>;
          p = p\<lparr>m_flags := flags_and x WS_OP_MASK\<rparr>;
          p = (if x AND 0x80 \<noteq> 0 then p\<lparr>m_flags := flags_or (m_flags p) WS_FIN\<rparr> else p)
      in p\<lparr>m_state := S_head\<rparr>)"

definition on_head :: "u8 \<Rightarrow> websocket_frame_header_parser \<Rightarrow> websocket_frame_header_parser" where
  "on_head x p =
     (let p = p\<lparr>m_length := ucast x AND 0x7F\<rparr>;
          p = (if x AND 0x80 \<noteq> 0 then p\<lparr>m_flags := flags_or (m_flags p) WS_HAS_MASK\<rparr> else p)
      in if 126 \<le> m_length p
         then p\<lparr>m_require := (if m_length p = 127 then 8 else 2), m_length := 0, m_state := S_length\<rparr>
         else if has_mask (m_flags p) then p\<lparr>m_state := S_mask, m_require := 4\<rparr>
         else p\<lparr>m_state := S_finished\<rparr>)"

lemma length_loop_rest_le: "length (snd (length_loop p xs)) \<le> length xs"
  by (induction p xs rule: length_loop.induct) auto

lemma mask_loop_rest_le: "length (snd (mask_loop p xs)) \<le> length xs"
  by (induction p xs rule: mask_loop.induct) auto

text \<open>
  \<open>parse\<close>: the list is what is left from \<open>p\<close> to \<open>end\<close>, the number is \<open>p - data\<close>. The result is
  \<open>Some (p - data + 1)\<close> where the code returns, \<open>None\<close> where it falls out of the loop and
  returns \<open>npos\<close>. In the two loop states the code steps \<open>p\<close> back once after the inner loop, so
  the next iteration starts at the first byte that loop left.
\<close>

function (sequential) parse_loop :: "websocket_frame_header_parser \<Rightarrow> u8 list \<Rightarrow> nat
    \<Rightarrow> websocket_frame_header_parser \<times> nat option" where
  "parse_loop p [] pos = (p, None)"
| "parse_loop p (x # xs) pos =
     (case m_state p of
        S_start \<Rightarrow> parse_loop (on_start x p) xs (pos + 1)
      | S_head \<Rightarrow>
          (let p' = on_head x p in
           if m_state p' = S_finished then (p', Some (pos + 1))
           else parse_loop p' xs (pos + 1))
      | S_length \<Rightarrow>
          (let (p', rest) = length_loop p (x # xs);
               pos' = pos + (length (x # xs) - length rest)
           in if m_require p' = 0
              then if has_mask (m_flags p')
                   then parse_loop (p'\<lparr>m_state := S_mask, m_require := 4\<rparr>) rest pos'
                   else (p'\<lparr>m_state := S_finished\<rparr>, Some pos')
              else (p', None))
      | S_mask \<Rightarrow>
          (let (p', rest) = mask_loop p (x # xs);
               pos' = pos + (length (x # xs) - length rest)
           in if m_require p' = 0 then (p'\<lparr>m_state := S_finished\<rparr>, Some pos')
              else (p', None))
      | S_finished \<Rightarrow> parse_loop p xs (pos + 1))"
  by pat_completeness auto
termination
proof (relation "measures [\<lambda>(p, xs, pos). length xs,
      \<lambda>(p, xs, pos). case m_state p of S_length \<Rightarrow> 1 | _ \<Rightarrow> 0]", goal_cases)
  case (4 p x xs pos y p' rest pos')
  then have "length rest \<le> length (x # xs)"
    using length_loop_rest_le [of p "x # xs"] by (metis snd_conv)
  with 4 show ?case by (auto simp: le_less)
qed auto

definition parse :: "websocket_frame_header_parser \<Rightarrow> u8 list
    \<Rightarrow> websocket_frame_header_parser \<times> size_t" where
  "parse p data =
     (case parse_loop p data 0 of
        (p', Some n) \<Rightarrow> (p', of_nat n)
      | (p', None) \<Rightarrow> (p', npos))"

section \<open>Masking\<close>

text \<open>
  \<open>websocket_mask\<close> transforms the data in place, byte \<open>i\<close> with byte \<open>i % 4\<close> of the mask in
  memory, and returns the advanced index.
\<close>

fun websocket_mask :: "u8 list \<Rightarrow> u32 \<Rightarrow> size_t \<Rightarrow> u8 list \<times> size_t" where
  "websocket_mask [] msk i = ([], i)"
| "websocket_mask (c # cs) msk i =
     (let (ds, j) = websocket_mask cs msk (i + 1)
      in ((c XOR le_bytes msk ! unat (i mod 4)) # ds, j))"

section \<open>Cutting the input of the parser\<close>

lemma loops_frame:
  "m_state (fst (length_loop p xs)) = m_state p" "m_flags (fst (length_loop p xs)) = m_flags p"
  "m_mask (fst (length_loop p xs)) = m_mask p"
  "m_state (fst (mask_loop p xs)) = m_state p" "m_flags (fst (mask_loop p xs)) = m_flags p"
  "m_length (fst (mask_loop p xs)) = m_length p"
proof -
  show "m_state (fst (length_loop p xs)) = m_state p" "m_flags (fst (length_loop p xs)) = m_flags p"
    "m_mask (fst (length_loop p xs)) = m_mask p"
    by (induction p xs rule: length_loop.induct) auto
  show "m_state (fst (mask_loop p xs)) = m_state p" "m_flags (fst (mask_loop p xs)) = m_flags p"
    "m_length (fst (mask_loop p xs)) = m_length p"
    by (induction p xs rule: mask_loop.induct) auto
qed

lemma loops_idle:
  "m_require p = 0 \<Longrightarrow> length_loop p xs = (p, xs)"
  "m_require p = 0 \<Longrightarrow> mask_loop p xs = (p, xs)"
  by (cases xs; simp)+

lemma loops_rest:
  "snd (length_loop p xs) \<noteq> [] \<Longrightarrow> m_require (fst (length_loop p xs)) = 0"
  "snd (mask_loop p xs) \<noteq> [] \<Longrightarrow> m_require (fst (mask_loop p xs)) = 0"
proof -
  show "snd (length_loop p xs) \<noteq> [] \<Longrightarrow> m_require (fst (length_loop p xs)) = 0"
    by (induction p xs rule: length_loop.induct) (auto split: if_splits)
  show "snd (mask_loop p xs) \<noteq> [] \<Longrightarrow> m_require (fst (mask_loop p xs)) = 0"
    by (induction p xs rule: mask_loop.induct) (auto split: if_splits)
qed

lemma length_loop_append:
  "length_loop p (a @ b) =
     (if snd (length_loop p a) = [] then length_loop (fst (length_loop p a)) b
      else (fst (length_loop p a), snd (length_loop p a) @ b))"
  by (induction p a rule: length_loop.induct) simp_all

lemma mask_loop_append:
  "mask_loop p (a @ b) =
     (if snd (mask_loop p a) = [] then mask_loop (fst (mask_loop p a)) b
      else (fst (mask_loop p a), snd (mask_loop p a) @ b))"
  by (induction p a rule: mask_loop.induct) simp_all

text \<open>The outer loop resumes where it stopped.\<close>

lemma parse_loop_append:
  "parse_loop p (a @ b) pos =
     (case parse_loop p a pos of
        (p', Some k) \<Rightarrow> (p', Some k)
      | (p', None) \<Rightarrow> parse_loop p' b (pos + length a))"
proof (induction p a pos rule: parse_loop.induct)
  case (1 p pos)
  then show ?case by simp
next
  case (2 p x xs pos)
  show ?case
  proof (cases "m_state p")
    case S_start
    with "2.IH"(1) show ?thesis by (simp split: prod.splits option.splits)
  next
    case S_head
    with "2.IH"(2) show ?thesis by (simp add: Let_def split: prod.splits option.splits)
  next
    case S_finished
    with "2.IH"(4) show ?thesis by (simp split: prod.splits option.splits)
  next
    case S_length
    obtain p' rest where l: "length_loop p (x # xs) = (p', rest)" by fastforce
    then have st: "m_state p' = S_length" and ne: "rest \<noteq> [] \<Longrightarrow> m_require p' = 0"
      using loops_frame(1) [of p "x # xs"] loops_rest(1) [of p "x # xs"] S_length by auto
    have le: "length rest \<le> Suc (length xs)" using length_loop_rest_le [of p "x # xs"] l by simp
    have app: "length_loop p (x # xs @ b) = (if rest = [] then length_loop p' b else (p', rest @ b))"
      using length_loop_append [of p "x # xs" b] l by simp
    note IH = "2.IH"(3) [OF S_length, unfolded l, OF refl refl refl]
    show ?thesis
    proof (cases "m_require p' = 0")
      case True
      then have "length_loop p (x # xs @ b) = (p', rest @ b)"
        using app by (simp add: loops_idle)
      with True IH S_length l le show ?thesis
        by (auto simp: Let_def Suc_diff_le split: prod.splits option.splits)
    next
      case False
      then have "rest = []" using ne by blast
      moreover obtain q r where lb: "length_loop p' b = (q, r)" by fastforce
      moreover have "length r \<le> length b" using length_loop_rest_le [of p' b] lb by simp
      ultimately show ?thesis
        using False S_length l app st
        by (cases b) (auto simp: Let_def Suc_diff_le add.assoc simp del: length_loop.simps(2))
    qed
  next
    case S_mask
    obtain p' rest where l: "mask_loop p (x # xs) = (p', rest)" by fastforce
    then have st: "m_state p' = S_mask" and ne: "rest \<noteq> [] \<Longrightarrow> m_require p' = 0"
      using loops_frame(4) [of p "x # xs"] loops_rest(2) [of p "x # xs"] S_mask by auto
    have le: "length rest \<le> Suc (length xs)" using mask_loop_rest_le [of p "x # xs"] l by simp
    have app: "mask_loop p (x # xs @ b) = (if rest = [] then mask_loop p' b else (p', rest @ b))"
      using mask_loop_append [of p "x # xs" b] l by simp
    show ?thesis
    proof (cases "m_require p' = 0")
      case True
      then have "mask_loop p (x # xs @ b) = (p', rest @ b)"
        using app by (simp add: loops_idle)
      with True S_mask l le show ?thesis by (simp add: Let_def)
    next
      case False
      then have "rest = []" using ne by blast
      moreover obtain q r where lb: "mask_loop p' b = (q, r)" by fastforce
      moreover have "length r \<le> length b" using mask_loop_rest_le [of p' b] lb by simp
      ultimately show ?thesis
        using False S_mask l app st
        by (cases b) (auto simp: Let_def Suc_diff_le add.assoc simp del: mask_loop.simps(2))
    qed
  qed
qed

lemma parse_loop_shift:
  "parse_loop p xs (i + pos) = map_prod id (map_option ((+) i)) (parse_loop p xs pos)"
  by (induction p xs pos rule: parse_loop.induct)
    (auto simp: Let_def add.assoc split: parser_state.splits prod.splits)

text \<open>So the parser meets the contract of an incremental parser.\<close>

interpretation wsp: incremental_parser "\<lambda>p xs. parse_loop p xs 0"
proof unfold_locales
  show "parse_loop s [] 0 = (s, None)" for s by simp
  show "parse_loop s (a @ b) 0 = (case parse_loop s a 0 of
      (s', None) \<Rightarrow> map_prod id (map_option ((+) (length a))) (parse_loop s' b 0)
    | (s', Some k) \<Rightarrow> (s', Some k))" for s a b
    using parse_loop_shift [of _ b "length a" 0]
    by (auto simp: parse_loop_append split: prod.splits option.splits)
qed

section \<open>The wire format\<close>

text \<open>
  The bytes a frame header has on the wire, written down directly: the two fixed bytes, the
  length in network byte order and the mask. Builder and parser are both related to it.
\<close>

primrec be_bytes :: "nat \<Rightarrow> size_t \<Rightarrow> u8 list" where
  "be_bytes 0 w = []"
| "be_bytes (Suc n) w = be_bytes n (drop_bit 8 w) @ [ucast w]"

definition be_fold :: "size_t \<Rightarrow> u8 list \<Rightarrow> size_t" where
  "be_fold = foldl (\<lambda>acc b. push_bit 8 acc OR ucast b)"

lemma be_fold_bytes: "be_fold acc (be_bytes n w) = push_bit (8 * n) acc OR take_bit (8 * n) w"
proof (induction n arbitrary: w)
  case (Suc n)
  have "be_fold acc (be_bytes (Suc n) w) = push_bit 8 (be_fold acc (be_bytes n (drop_bit 8 w))) OR ucast (ucast w :: u8)"
    by (simp add: be_fold_def)
  also have "\<dots> = push_bit 8 (push_bit (8 * n) acc OR take_bit (8 * n) (drop_bit 8 w)) OR ucast (ucast w :: u8)"
    by (simp only: Suc)
  also have "\<dots> = push_bit (8 * Suc n) acc OR take_bit (8 * Suc n) w"
    by (rule bit_word_eqI) (auto simp: bit_simps)
  finally show ?case .
qed (simp add: be_fold_def)

lemma length_be_bytes [simp]: "length (be_bytes n w) = n"
  by (induction n arbitrary: w) auto

lemma length_loop_exact:
  "unat (m_require p) = length bs \<Longrightarrow>
   length_loop p (bs @ rest) = (p\<lparr>m_length := be_fold (m_length p) bs, m_require := 0\<rparr>, rest)"
proof (induction bs arbitrary: p)
  case Nil
  then show ?case by (simp add: loops_idle be_fold_def unat_eq_0)
next
  case (Cons b bs)
  then have "m_require p \<noteq> 0" and "unat (m_require p - 1) = length bs"
    by (auto simp: unat_minus_one unat_eq_0 [symmetric])
  with Cons.IH show ?case by (simp add: be_fold_def)
qed

lemma mask_loop_exact:
  assumes "m_require p = 4" "length (m_mask p) = 4" "length bs = 4"
  shows "mask_loop p (bs @ rest) = (p\<lparr>m_mask := bs, m_require := 0\<rparr>, rest)"
proof -
  from assms obtain a b c d a' b' c' d' where "m_mask p = [a, b, c, d]" "bs = [a', b', c', d']"
    by (auto simp: length4)
  with assms(1) show ?thesis by (simp add: loops_idle)
qed

lemma wire_op: "((if bit (flags::u8) 4 then 0x80 else 0) OR (flags AND 0xF)) AND 0xF = flags AND 0xF"
  by (rule u8_eqI) (auto simp: bit_simps)

lemma wire_fin: "bit ((if bit (flags::u8) 4 then 0x80 else 0) OR (flags AND 0xF) :: u8) 7 = bit flags 4"
  by (auto simp: bit_simps)

lemma wire_flags: "flags AND 0xF OR (if bit flags 4 then 0x10 else 0) OR (if bit flags 5 then 0x20 else 0) = (flags::u8) AND 0x3F"
  by (rule u8_eqI) (auto simp: bit_simps)

lemma wire_code:
  assumes "(len::size_t) < 128"
  shows "ucast ((if q then 0x80 else 0) OR ucast len :: u8) AND 0x7F = len" (is ?a)
    and "bit ((if q then 0x80 else 0) OR ucast len :: u8) 7 = q" (is ?b)
proof -
  have "len < 2 ^ 7" using assms by (simp add: word_less_nat_alt)
  then have "take_bit 7 len = len" by (simp add: take_bit_eq_mod mod_word_less)
  then have small: "bit len n \<Longrightarrow> n < 7" for n by (metis bit_take_bit_iff)
  have m: "(0x7F :: size_t) = mask 7" by (simp add: mask_eq_exp_minus_1)
  have b: "bit (0x80 :: u8) n \<longleftrightarrow> n = 7" for n
    using bit_exp_iff [where ?'a = u8, of 7 n] by auto
  have b': "bit (0x80 :: size_t) n \<longleftrightarrow> n = 7" for n
    using bit_exp_iff [where ?'a = size_t, of 7 n] by auto
  have b'': "bit (0x80 :: int) n \<longleftrightarrow> n = 7" for n
    using bit_exp_iff [where ?'a = int, of 7 n] by auto
  show ?a unfolding m
    by (rule bit_word_eqI) (auto simp: bit_simps b b' b'' dest: small)
  show ?b unfolding m
    by (auto simp: bit_simps b b' b'' dest: small)
qed


definition wire_len_code :: "size_t \<Rightarrow> size_t" where
  "wire_len_code len = (if len < 126 then len else if len \<le> 0xFFFF then 126 else 127)"

definition header_bytes :: "websocket_flags \<Rightarrow> u8 list \<Rightarrow> size_t \<Rightarrow> u8 list" where
  "header_bytes flags m len =
     [(if bit flags 4 then 0x80 else 0) OR (flags AND 0xF),
      (if bit flags 5 then 0x80 else 0) OR ucast (wire_len_code len)] @
     (if len < 126 then [] else if len \<le> 0xFFFF then be_bytes 2 len else be_bytes 8 len) @
     (if bit flags 5 then m else [])"

lemma wire_len_code_less: "wire_len_code len < 128"
proof -
  have "len < 126 \<Longrightarrow> len < 128" by (simp add: word_less_nat_alt)
  then show ?thesis by (simp add: wire_len_code_def)
qed

lemma mask_iff: "has_mask flags \<longleftrightarrow> bit flags 5"
  by (simp add: flags_op_defs ws_flag_defs and_pow2_u8)

lemma code_byte:
  "ucast ((if q then 0x80 else 0) OR ucast (wire_len_code len) :: u8) AND 0x7F = wire_len_code len"
  "bit ((if q then 0x80 else 0) OR ucast (wire_len_code len) :: u8) 7 = q"
  using wire_code [of "wire_len_code len" q] wire_len_code_less by simp_all

lemma on_start_wire:
  "on_start ((if bit flags 4 then 0x80 else 0) OR (flags AND 0xF)) p =
   p\<lparr>m_state := S_head, m_flags := flags AND 0xF OR (if bit flags 4 then 0x10 else 0), m_length := 0\<rparr>"
  using wire_op [of flags] wire_fin [of flags]
  by (simp add: on_start_def Let_def flags_op_defs ws_flag_defs and_pow2_u8)

lemma on_head_wire:
  assumes "m_flags p = flags AND 0xF OR (if bit flags 4 then 0x10 else 0)"
  shows "on_head ((if bit flags 5 then 0x80 else 0) OR ucast (wire_len_code len)) p =
    (let p = p\<lparr>m_flags := flags AND 0x3F\<rparr> in
     if len < 126 then
       (if bit flags 5 then p\<lparr>m_length := len, m_state := S_mask, m_require := 4\<rparr>
        else p\<lparr>m_length := len, m_state := S_finished\<rparr>)
     else p\<lparr>m_length := 0, m_state := S_length, m_require := (if len \<le> 0xFFFF then 2 else 8)\<rparr>)"
proof -
  have f: "(if bit flags 5 then flags_or (m_flags p) WS_HAS_MASK else m_flags p) = flags AND 0x3F"
    using wire_flags [of flags] assms by (auto simp: flags_op_defs ws_flag_defs or.assoc)
  have m: "has_mask (flags AND 0x3F) \<longleftrightarrow> bit flags 5"
    by (auto simp: mask_iff bit_simps)
  show ?thesis
    using f m code_byte [of "bit flags 5" len]
    by (cases "bit flags 5") (auto simp: on_head_def Let_def and_pow2_u8 wire_len_code_def not_less)
qed


lemma parse_mask_exact:
  assumes "m_state q = S_mask" "m_require q = 4" "length (m_mask q) = 4" "length m = 4"
  shows "parse_loop q (m @ rest) k =
    (q\<lparr>m_mask := m, m_require := 0, m_state := S_finished\<rparr>, Some (k + 4))"
proof -
  obtain a l where c: "m @ rest = a # l" using assms(4) by (cases m) auto
  then have "Suc (length l) = 4 + length rest" using assms(4) by (metis length_Cons length_append)
  then show ?thesis
    using mask_loop_exact [of q m rest] assms by (simp add: c Let_def del: mask_loop.simps)
qed

lemma parse_length_exact:
  assumes "m_state q = S_length" "m_require q = of_nat n" "m_length q = 0"
    and n: "n = 2 \<and> len \<le> 0xFFFF \<or> n = 8"
  shows "parse_loop q (be_bytes n len @ rest) k =
    (let q = q\<lparr>m_length := len, m_require := 0\<rparr> in
     if has_mask (m_flags q) then parse_loop (q\<lparr>m_state := S_mask, m_require := 4\<rparr>) rest (k + n)
     else (q\<lparr>m_state := S_finished\<rparr>, Some (k + n)))"
proof -
  have "take_bit (8 * n) len = len"
  proof (cases "n = 8")
    case False
    with n have "len < 2 ^ (8 * n)" by (simp add: word_le_nat_alt word_less_nat_alt)
    then show ?thesis by (simp only: take_bit_eq_mod mod_word_less)
  qed (simp add: take_bit_word_eq_self)
  then have l: "length_loop q (be_bytes n len @ rest) = (q\<lparr>m_length := len, m_require := 0\<rparr>, rest)"
    using length_loop_exact [of q "be_bytes n len" rest] assms by (auto simp: be_fold_bytes)
  obtain a l where c: "be_bytes n len @ rest = a # l"
    using n by (cases "be_bytes n len") (auto dest: arg_cong [of _ _ length])
  then have "Suc (length l) = n + length rest" by (metis length_Cons length_append length_be_bytes)
  then show ?thesis
    using l assms(1) by (simp add: c Let_def del: length_loop.simps)
qed

lemma parse_header_bytes:
  assumes p: "m_state p = S_start" "length (m_mask p) = 4" and m: "length m = 4"
  shows "parse_loop p (header_bytes flags m len @ rest) 0 =
    (p\<lparr>m_state := S_finished, m_flags := flags AND 0x3F,
       m_mask := (if bit flags 5 then m else m_mask p), m_length := len,
       m_require := (if len < 126 \<and> \<not> bit flags 5 then m_require p else 0)\<rparr>,
     Some (length (header_bytes flags m len)))"
proof -
  have hm: "has_mask (flags AND 0x3F) \<longleftrightarrow> bit flags 5"
    by (auto simp: mask_iff bit_simps)
  show ?thesis
  proof (cases "len < 126")
    case True
    then show ?thesis
      using p m by (auto simp: header_bytes_def on_start_wire on_head_wire Let_def parse_mask_exact)
  next
    case False
    define n :: nat where "n = (if len \<le> 0xFFFF then 2 else 8)"
    then have "header_bytes flags m len = [(if bit flags 4 then 0x80 else 0) OR (flags AND 0xF),
      (if bit flags 5 then 0x80 else 0) OR ucast (wire_len_code len)] @ be_bytes n len @
      (if bit flags 5 then m else [])"
      using False by (simp add: header_bytes_def)
    moreover have "of_nat n = (if len \<le> 0xFFFF then 2 else 8 :: size_t)"
      and "n = 2 \<and> len \<le> 0xFFFF \<or> n = 8"
      by (auto simp: n_def)
    ultimately show ?thesis
      using False p m hm parse_length_exact [where n = n and len = len]
      by (auto simp: on_start_wire on_head_wire Let_def parse_mask_exact simp del: be_bytes.simps)
  qed
qed

lemma max_header [simp]: "unat WS_MAX_FRAME_HEADER_SIZE = 14"
  by (simp add: WS_MAX_FRAME_HEADER_SIZE_def calc_frame_header_size_def flags_op_defs ws_flag_defs)

lemma byte_of_and_255 [simp]: "byte_of (w AND 0xFF) = byte_of w"
proof -
  have m: "(0xFF :: size_t) = mask 8" by (simp add: mask_eq_exp_minus_1)
  show ?thesis
    unfolding byte_of_def m by (rule bit_word_eqI) (auto simp: bit_simps)
qed

lemma be_bytes_2: "be_bytes 2 w = [byte_of (drop_bit 8 w), byte_of w]"
  by (simp add: eval_nat_numeral byte_of_def)

lemma be_bytes_8: "be_bytes 8 w = map (\<lambda>k. byte_of (drop_bit k w)) [56, 48, 40, 32, 24, 16, 8] @ [byte_of w]"
proof -
  have "(8 :: nat) = Suc (Suc (Suc (Suc (Suc (Suc (Suc (Suc 0)))))))" by simp
  then have "be_bytes 8 w = be_bytes (Suc (Suc (Suc (Suc (Suc (Suc (Suc (Suc 0)))))))) w"
    by (simp only:)
  also have "\<dots> = map (\<lambda>k. byte_of (drop_bit k w)) [56, 48, 40, 32, 24, 16, 8] @ [byte_of w]"
    by (simp add: byte_of_def)
  finally show ?thesis .
qed

lemma replicate_14:
  "replicate 14 x = [x, x, x, x, x, x, x, x, x, x, x, x, x, x]" "replicate 12 x = [x, x, x, x, x, x, x, x, x, x, x, x]"
  "replicate 10 x = [x, x, x, x, x, x, x, x, x, x]" "replicate 8 x = [x, x, x, x, x, x, x, x]"
  "replicate 6 x = [x, x, x, x, x, x]" "replicate 4 x = [x, x, x, x]"
  by (simp_all add: eval_nat_numeral)

lemma byte_of_codes: "byte_of 126 = 126" "byte_of 127 = 127"
  by (simp_all add: byte_of_def)

lemma length_header_bytes:
  "length m = 4 \<Longrightarrow> length (header_bytes flags m len) = unat (calc_frame_header_size flags len)"
proof -
  have "126 \<le> len \<longleftrightarrow> \<not> len < 126" "0xFFFF < len \<longleftrightarrow> \<not> len \<le> 0xFFFF" by auto
  then show "length m = 4 \<Longrightarrow> ?thesis"
    by (simp add: header_bytes_def calc_frame_header_size_def mask_iff Let_def)
qed

lemma header_size_le: "unat (calc_frame_header_size flags len) \<le> 14"
  by (simp add: calc_frame_header_size_def Let_def)

text \<open>The builder on a memory that begins with a zeroed array of 14 bytes.\<close>

lemma builder_memory:
  assumes "case msk of None \<Rightarrow> True | Some m \<Rightarrow> length m = 4"
  shows "websocket_frame_header_builder (replicate 14 0 @ behind) flags msk len =
    (header_bytes flags (case msk of None \<Rightarrow> [0, 0, 0, 0] | Some m \<Rightarrow> m) len @
       replicate (14 - unat (calc_frame_header_size flags len)) 0 @ behind, calc_frame_header_size flags len)"
proof -
  have "websocket_flags_not_none (flags_and flags WS_FIN) = bit flags 4" "flags_and flags WS_OP_MASK = flags AND 0xF"
    by (simp_all add: flags_op_defs ws_flag_defs and_pow2_u8)
  note fl = this mask_iff
  have c: "len < 126 \<Longrightarrow> len \<le> 0xFFFF" "0xFFFF < len \<longleftrightarrow> \<not> len \<le> 0xFFFF" "126 \<le> len \<longleftrightarrow> \<not> len < 126"
    by (auto simp: word_le_nat_alt word_less_nat_alt)
  show ?thesis
    using assms
    by (cases msk; cases "bit flags 5"; cases "len < 126"; cases "len \<le> 0xFFFF")
      (auto simp: websocket_frame_header_builder_def calc_frame_header_size_def c fl header_bytes_def wire_len_code_def
        byte_of_def [symmetric] Let_def be_bytes_2 be_bytes_8 write_at_def replicate_14 byte_of_codes length4
        split: option.splits)
qed

lemma builder_bytes:
  assumes "case msk of None \<Rightarrow> True | Some m \<Rightarrow> length m = 4"
    and b: "websocket_frame_header_builder (replicate 14 0) flags msk len = (frame, n)"
  shows "take (unat n) frame = header_bytes flags (case msk of None \<Rightarrow> [0, 0, 0, 0] | Some m \<Rightarrow> m) len"
    and "n = calc_frame_header_size flags len"
proof -
  let ?m = "case msk of None \<Rightarrow> [0, 0, 0, 0] | Some m \<Rightarrow> m"
  have "length ?m = 4" using assms(1) by (auto split: option.splits)
  then have "length (header_bytes flags ?m len) = unat (calc_frame_header_size flags len)" by (rule length_header_bytes)
  then show "take (unat n) frame = header_bytes flags ?m len" "n = calc_frame_header_size flags len"
    using b builder_memory [OF assms(1), of "[]" flags len] by auto
qed



lemma parse_pos_le: "parse_loop p xs pos = (q, Some k) \<Longrightarrow> k \<le> pos + length xs"
proof (induction p xs pos arbitrary: q k rule: parse_loop.induct)
  case (2 p x xs pos)
  show ?case
  proof (cases "m_state p")
    case S_length
    obtain p' rest where l: "length_loop p (x # xs) = (p', rest)" by fastforce
    then have "length rest \<le> Suc (length xs)" using length_loop_rest_le [of p "x # xs"] by simp
    with 2 S_length l show ?thesis
      by (fastforce simp: Let_def split: if_splits simp del: length_loop.simps)
  next
    case S_mask
    obtain p' rest where l: "mask_loop p (x # xs) = (p', rest)" by fastforce
    then have "length rest \<le> Suc (length xs)" using mask_loop_rest_le [of p "x # xs"] by simp
    with 2 S_mask l show ?thesis
      by (fastforce simp: Let_def split: if_splits simp del: mask_loop.simps)
  qed (use 2 in \<open>fastforce simp: Let_def split: if_splits\<close>)+
qed simp

section \<open>Masks\<close>

lemma le_bytes_mask_uint32:
  assumes "length (m_mask p) = 4"
  shows "le_bytes (mask_uint32_t p) = m_mask p"
proof -
  obtain a b c d where "m_mask p = [a, b, c, d]" using assms by (auto simp: length4)
  moreover have "ucast (drop_bit 0 (foldr (\<lambda>b w. push_bit 8 w OR ucast b) [a, b, c, d] (0 :: u32))) = a"
    "ucast (drop_bit 8 (foldr (\<lambda>b w. push_bit 8 w OR ucast b) [a, b, c, d] (0 :: u32))) = b"
    "ucast (drop_bit 16 (foldr (\<lambda>b w. push_bit 8 w OR ucast b) [a, b, c, d] (0 :: u32))) = c"
    "ucast (drop_bit 24 (foldr (\<lambda>b w. push_bit 8 w OR ucast b) [a, b, c, d] (0 :: u32))) = d"
    by (rule u8_eqI; auto simp: bit_simps dest: bit_imp_le_length)+
  ultimately show ?thesis by (simp add: le_bytes_def mask_uint32_t_def upt_rec)
qed

lemma websocket_mask_length [simp]: "length (fst (websocket_mask cs m i)) = length cs"
  by (induction cs m i rule: websocket_mask.induct) (auto simp: split_beta Let_def)

lemma websocket_mask_index: "snd (websocket_mask cs m i) = i + of_nat (length cs)"
  by (induction cs m i rule: websocket_mask.induct) (auto simp: split_beta Let_def)

lemma unat_mod_4: "unat ((i + of_nat k) mod 4 :: size_t) = (unat i + k) mod 4"
proof -
  have "unat ((i + of_nat k) mod 4 :: size_t) = (unat i + k) mod 2 ^ 64 mod 4"
    by (simp add: unat_mod unat_word_ariths unsigned_of_nat take_bit_eq_mod mod_simps)
  also have "\<dots> = (unat i + k) mod 4" by (simp add: mod_mod_cancel)
  finally show ?thesis .
qed

lemma websocket_mask_nth:
  "k < length cs \<Longrightarrow> fst (websocket_mask cs m i) ! k = cs ! k XOR le_bytes m ! ((unat i + k) mod 4)"
proof (induction cs m i arbitrary: k rule: websocket_mask.induct)
  case (2 c cs m i)
  have "unat (i mod 4) = unat i mod 4" using unat_mod_4 [of i 0] by simp
  moreover have "(unat (i + 1) + j) mod 4 = (unat i + Suc j) mod 4" for j
    using unat_mod_4 [of "i + 1" j] unat_mod_4 [of i "Suc j"] by (simp add: add.assoc)
  ultimately show ?case
    using 2 by (cases k) (auto simp: split_beta Let_def)
qed simp

lemma websocket_mask_involution: "fst (websocket_mask (fst (websocket_mask cs m i)) m i) = cs"
  by (rule nth_equalityI) (simp_all add: websocket_mask_nth xor.assoc)

lemma websocket_mask_append:
  "websocket_mask (a @ b) m i =
     (fst (websocket_mask a m i) @ fst (websocket_mask b m (snd (websocket_mask a m i))),
      snd (websocket_mask b m (snd (websocket_mask a m i))))"
  by (induction a m i rule: websocket_mask.induct) (auto simp: split_beta Let_def)


section \<open>Properties\<close>

lemma header_view_new:
  "header_view (websocket_frame_header_new flags len) = header_bytes flags [0, 0, 0, 0] len"
  "m_header_length (websocket_frame_header_new flags len) = calc_frame_header_size flags len"
  using builder_bytes [of None flags len]
  by (cases "websocket_frame_header_builder (replicate 14 0) flags None len",
      simp add: websocket_frame_header_new_def header_view_def)+

lemma parse_of_loop:
  "parse_loop p xs 0 = (q, Some k) \<Longrightarrow> parse p xs = (q, of_nat k)"
  "parse_loop p xs 0 = (q, None) \<Longrightarrow> parse p xs = (q, npos)"
  by (simp_all add: parse_def)

lemma parse_new_header:
  assumes "length m = 4"
  shows "\<exists>p. parse_loop parser_new (header_bytes flags m len @ rest) 0 =
      (p, Some (unat (calc_frame_header_size flags len))) \<and>
    m_state p = S_finished \<and> m_flags p = flags AND 0x3F \<and> m_length p = len \<and>
    m_mask p = (if bit flags 5 then m else replicate 4 0)"
  using parse_header_bytes [of parser_new m flags len rest] assms
  by (auto simp: parser_new_def length_header_bytes)

text \<open>
  C11: header round trip. For every flag set and every 64-bit payload length, parsing the bytes
  of a built header, whatever payload follows them, stops exactly after the header and yields
  the six defined flag bits and the length it was built from.
\<close>

theorem ws_header_roundtrip:
  "\<exists>p. parse parser_new (header_view (websocket_frame_header_new flags len) @ payload)
      = (p, calc_frame_header_size flags len) \<and>
     m_state p = S_finished \<and> m_flags p = flags AND 0x3F \<and> m_length p = len"
proof -
  obtain p where "parse_loop parser_new (header_bytes flags [0, 0, 0, 0] len @ payload) 0 =
      (p, Some (unat (calc_frame_header_size flags len)))"
    and "m_state p = S_finished" "m_flags p = flags AND 0x3F" "m_length p = len"
    using parse_new_header [of "[0, 0, 0, 0]" flags len payload] by auto
  then show ?thesis
    using parse_of_loop(1) by (auto simp: header_view_new(1))
qed

text \<open>
  C35: the cut of the stream cannot be observed. Feeding the parser any list of pieces, one after
  the other, ends in the same state and stops at the same byte as feeding it their
  concatenation at once, from every parser state.
\<close>

theorem ws_parser_chunk_independent:
  "feed_chunks (\<lambda>p xs. parse_loop p xs 0) p chunks 0 = parse_loop p (concat chunks) 0"
  by (rule wsp.feed_chunks_whole)

text \<open>
  a header cut at any inner point: the first piece is reported incomplete (\<open>npos\<close>), and
  feeding the second piece to the same parser completes with the flags and the length of the
  header.
\<close>

theorem ws_header_split:
  assumes "k < length (header_view (websocket_frame_header_new flags len))"
  shows "snd (parse parser_new (take k (header_view (websocket_frame_header_new flags len)))) = npos \<and>
    (let p1 = fst (parse parser_new (take k (header_view (websocket_frame_header_new flags len))));
         p2 = fst (parse p1 (drop k (header_view (websocket_frame_header_new flags len))))
     in m_state p2 = S_finished \<and> m_flags p2 = flags AND 0x3F \<and> m_length p2 = len)"
proof -
  let ?h = "header_view (websocket_frame_header_new flags len)"
  obtain p where p: "parse_loop parser_new ?h 0 = (p, Some (length ?h))"
    "m_state p = S_finished" "m_flags p = flags AND 0x3F" "m_length p = len"
    using parse_new_header [of "[0, 0, 0, 0]" flags len "[]"]
    by (auto simp: header_view_new length_header_bytes)
  have cut: "parse_loop parser_new (take k ?h @ drop k ?h) 0 = (p, Some (length ?h))"
    using p(1) by simp
  have "snd (parse_loop parser_new (take k ?h) 0) = None"
    using wsp.feed_prefix_incomplete [OF cut] assms parse_pos_le by force
  then obtain q where q: "parse_loop parser_new (take k ?h) 0 = (q, None)"
    by (cases "parse_loop parser_new (take k ?h) 0") auto
  then have "\<exists>j. parse_loop q (drop k ?h) 0 = (p, Some j)"
    using cut wsp.feed_append [of parser_new "take k ?h" "drop k ?h"]
    by (cases "parse_loop q (drop k ?h) 0"; cases "snd (parse_loop q (drop k ?h) 0)") auto
  then show ?thesis
    using q p parse_of_loop by (fastforce simp: Let_def)
qed

theorem ws_header_split_witness:
  "snd (parse parser_new (take 1 (header_view (websocket_frame_header_new 0x11 300)))) = npos"
  using ws_header_split [of 1 "0x11" 300]
  by (simp add: header_view_new length_header_bytes calc_frame_header_size_def mask_iff)

text \<open>
  the constructors that take a mask never put it on the wire. The header they build carries
  the mask bytes 0, so a peer that parses it unmasks with 0, whatever mask was given.
\<close>

theorem masked_header_sends_zero_mask:
  assumes "has_mask flags"
  shows "\<exists>p. parse parser_new (header_view (websocket_frame_header_u32 flags msk len))
      = (p, calc_frame_header_size flags len) \<and> m_state p = S_finished \<and>
    hdr_mask (websocket_frame_header_u32 flags msk len) = le_bytes msk \<and> mask_uint32_t p = 0"
proof -
  have v: "header_view (websocket_frame_header_u32 flags msk len) = header_bytes flags [0, 0, 0, 0] len"
    using header_view_new(1) [of flags len]
    by (simp add: websocket_frame_header_u32_def header_view_def)
  have w: "hdr_mask (websocket_frame_header_u32 flags msk len) = le_bytes msk"
    by (simp add: websocket_frame_header_u32_def)
  obtain p where "parse_loop parser_new (header_bytes flags [0, 0, 0, 0] len) 0 =
      (p, Some (unat (calc_frame_header_size flags len)))"
    and "m_state p = S_finished" "m_mask p = [0, 0, 0, 0]"
    using parse_new_header [of "[0, 0, 0, 0]" flags len "[]"] assms by (auto simp: mask_iff)
  then show ?thesis
    using parse_of_loop(1) w by (auto simp: v mask_uint32_t_def)
qed

theorem masked_header_sends_zero_mask_witness:
  "\<exists>p. parse parser_new (header_view (websocket_frame_header_u32 0x31 0xDEADBEEF 5)) = (p, 6) \<and>
     mask_uint32_t p = 0"
  using masked_header_sends_zero_mask [of "0x31" "0xDEADBEEF" 5]
  by (auto simp: calc_frame_header_size_def flags_op_defs ws_flag_defs)

text \<open>
  C37: masking with the mask of a parsed header does what RFC 6455 section 5.3 prescribes: byte
  \<open>k\<close> of the data, counted from the index \<open>i\<close> the caller passes, is combined with mask byte
  \<open>(i + k) mod 4\<close> as it came from the wire; applying it twice restores the data; and masking in
  two pieces, passing the returned index on, equals masking at once.
\<close>

theorem websocket_mask_rfc6455:
  assumes "length (m_mask p) = 4" and "k < length data"
  shows "fst (websocket_mask data (mask_uint32_t p) i) ! k
      = data ! k XOR m_mask p ! ((unat i + k) mod 4) \<and>
    fst (websocket_mask (fst (websocket_mask data (mask_uint32_t p) i)) (mask_uint32_t p) i) = data \<and>
    websocket_mask data (mask_uint32_t p) i =
      (let (a, j) = websocket_mask (take n data) (mask_uint32_t p) i;
           (b, l) = websocket_mask (drop n data) (mask_uint32_t p) j in (a @ b, l))"
proof (intro conjI)
  show "websocket_mask data (mask_uint32_t p) i =
      (let (a, j) = websocket_mask (take n data) (mask_uint32_t p) i;
           (b, l) = websocket_mask (drop n data) (mask_uint32_t p) j in (a @ b, l))"
    using websocket_mask_append [of "take n data" "drop n data" "mask_uint32_t p" i]
    by (simp add: split_beta Let_def)
qed (use assms in \<open>simp_all add: websocket_mask_nth le_bytes_mask_uint32 websocket_mask_involution\<close>)

theorem websocket_mask_rfc6455_witness:
  "fst (websocket_mask [0x10, 0x20, 0x30, 0x40, 0x50]
     (mask_uint32_t (parser_new\<lparr>m_mask := [1, 2, 3, 4]\<rparr>)) 0) ! 4 = 0x51"
  using websocket_mask_rfc6455 [of "parser_new\<lparr>m_mask := [1, 2, 3, 4]\<rparr>" 4
      "[0x10, 0x20, 0x30, 0x40, 0x50]" 0 2] by simp

text \<open>
  C38: No header overflows its array. In a memory that begins with the array \<open>m_header\<close> of
  \<open>WS_MAX_FRAME_HEADER_SIZE\<close>, that is 14, bytes and goes on with anything, the builder changes the array only: it returns
  the size \<open>calc_frame_header_size\<close> announces, fills exactly that many bytes from the start with the wire
  format, with or without a mask to copy, and leaves the rest of the array and every byte behind it as it was.
\<close>

theorem ws_builder_within_array:
  assumes "case msk of None \<Rightarrow> True | Some m \<Rightarrow> length m = 4"
  shows "websocket_frame_header_builder (replicate (unat WS_MAX_FRAME_HEADER_SIZE) 0 @ behind) flags msk len =
    (let n = calc_frame_header_size flags len in
     (header_bytes flags (case msk of None \<Rightarrow> [0, 0, 0, 0] | Some m \<Rightarrow> m) len @
        replicate (unat WS_MAX_FRAME_HEADER_SIZE - unat n) 0 @ behind, n)) \<and>
    unat WS_MAX_FRAME_HEADER_SIZE = 14 \<and> calc_frame_header_size flags len \<le> WS_MAX_FRAME_HEADER_SIZE \<and>
    length (header_bytes flags (case msk of None \<Rightarrow> [0, 0, 0, 0] | Some m \<Rightarrow> m) len) = unat (calc_frame_header_size flags len)"
proof -
  let ?m = "case msk of None \<Rightarrow> [0, 0, 0, 0] | Some m \<Rightarrow> m"
  have "length ?m = 4" using assms by (auto split: option.splits)
  then show ?thesis
    using builder_memory [OF assms, of behind flags len] header_size_le [of flags len]
    by (simp add: length_header_bytes word_le_nat_alt Let_def)
qed

theorem ws_builder_within_array_witness:
  "websocket_frame_header_builder (replicate (unat WS_MAX_FRAME_HEADER_SIZE) 0 @ [0xAA, 0xBB]) 0x31 (Some [1, 2, 3, 4]) 3 =
    ([0x81, 0x83, 1, 2, 3, 4] @ replicate 8 0 @ [0xAA, 0xBB], 6)"
proof -
  have "calc_frame_header_size 0x31 3 = 6" by (simp add: calc_frame_header_size_def flags_op_defs ws_flag_defs)
  moreover have "header_bytes 0x31 [1, 2, 3, 4] 3 = [0x81, 0x83, 1, 2, 3, 4]"
    by (simp add: header_bytes_def wire_len_code_def bit_simps)
  ultimately show ?thesis
    using ws_builder_within_array [of "Some [1, 2, 3, 4]" "[0xAA, 0xBB]" "0x31" 3] by (simp add: Let_def)
qed

end
