(* ===== verification/Pico_Chunked.thy ===== *)
theory Pico_Chunked
  imports Incremental_Parser
begin

text \<open>
  \<open>include/xynet/http/picohttpparser.h\<close>, second half: \<open>phr_decode_chunked\<close>, which removes the
  chunked transfer encoding from a buffer in place and can be called again as more data
  arrives. The model keeps the buffer, the read index \<open>src\<close>, the write index \<open>dst\<close> and the
  \<open>memmove\<close>s. Its specification is an automaton that consumes one byte at a time; the in-place
  routine is shown to refine it, and what holds of the automaton (chunk independence, decoding
  of every well-formed chunked body) then holds of the routine.
\<close>

section \<open>Data\<close>

datatype chunked_state =
    CHUNKED_IN_CHUNK_SIZE
  | CHUNKED_IN_CHUNK_EXT
  | CHUNKED_IN_CHUNK_DATA
  | CHUNKED_IN_CHUNK_CRLF
  | CHUNKED_IN_TRAILERS_LINE_HEAD
  | CHUNKED_IN_TRAILERS_LINE_MIDDLE

record phr_chunked_decoder =
  bytes_left_in_chunk :: size_t
  consume_trailer :: bool
  d_hex_count :: nat
  d_state :: chunked_state

text \<open>How the outer loop is left: the labels \<open>Complete\<close> and \<open>Exit\<close> (with \<open>ret\<close> -2 or -1).\<close>

datatype chunked_exit = Complete | Incomplete | Failed

section \<open>Operations\<close>

definition decode_hex :: "int \<Rightarrow> int" where
  "decode_hex ch =
     (if 48 \<le> ch \<and> ch \<le> 57 then ch - 48
      else if 65 \<le> ch \<and> ch \<le> 70 then ch - 65 + 0xa
      else if 97 \<le> ch \<and> ch \<le> 102 then ch - 97 + 0xa
      else - 1)"

definition c_memmove :: "nat \<Rightarrow> nat \<Rightarrow> nat \<Rightarrow> u8 list \<Rightarrow> u8 list" where
  "c_memmove dst src n buf = write_at dst (take n (drop src buf)) buf"

text \<open>
  The scanning loops \<open>for (;; ++src) { if (src == bufsz) goto Exit; if (P (buf[src])) break; }\<close>:
  the index of the first byte that satisfies \<open>P\<close>, or \<open>bufsz\<close>.
\<close>

function scan :: "(u8 \<Rightarrow> bool) \<Rightarrow> u8 list \<Rightarrow> nat \<Rightarrow> nat" where
  "scan P buf src =
     (if length buf \<le> src then length buf
      else if P (buf ! src) then src
      else scan P buf (src + 1))"
  by pat_completeness auto
termination
  by (relation "measure (\<lambda>(P, buf, src). length buf - src)") auto

declare scan.simps [simp del]

datatype size_exit = Size_eof | Size_error | Size_end

text \<open>The loop over the hexadecimal digits of the chunk size.\<close>

function size_loop :: "phr_chunked_decoder \<Rightarrow> u8 list \<Rightarrow> nat
    \<Rightarrow> phr_chunked_decoder \<times> nat \<times> size_exit" where
  "size_loop d buf src =
     (if length buf \<le> src then (d, src, Size_eof)
      else
        let v = decode_hex (sint (buf ! src)) in
        if v = - 1 then
          (if d_hex_count d = 0 then (d, src, Size_error) else (d, src, Size_end))
        else if d_hex_count d = 16 then (d, src, Size_error)
        else size_loop
               (d\<lparr>bytes_left_in_chunk := bytes_left_in_chunk d * 16 + word_of_int v,
                  d_hex_count := d_hex_count d + 1\<rparr>) buf (src + 1))"
  by pat_completeness auto
termination
  by (relation "measure (\<lambda>(d, buf, src). length buf - src)") auto

declare size_loop.simps [simp del]

lemma scan_ge: "src \<le> length buf \<Longrightarrow> src \<le> scan P buf src \<and> scan P buf src \<le> length buf"
  by (induction P buf src rule: scan.induct) (subst (1 2) scan.simps, auto)

lemma scan_decreases:
  assumes "src \<le> length buf" and "scan P buf src \<noteq> length buf"
  shows "length buf - Suc (scan P buf src) < length buf - src"
  using scan_ge [OF assms(1), of P] assms(2) by linarith

lemma size_loop_ge:
  "src \<le> length buf \<Longrightarrow> size_loop d buf src = (d', src', x) \<Longrightarrow> src \<le> src' \<and> src' \<le> length buf"
  by (induction d buf src rule: size_loop.induct)
    (subst (asm) (2) size_loop.simps, auto simp: Let_def split: if_splits)

lemma length_c_memmove [simp]:
  "dst \<le> src \<Longrightarrow> src + n \<le> length buf \<Longrightarrow> length (c_memmove dst src n buf) = length buf"
  by (simp add: c_memmove_def)

text \<open>
  The outer loop: one iteration per case of the \<open>switch\<close>. Where the code falls through to the
  next case it has just stored that case in \<open>_state\<close>, so falling through is another iteration.
\<close>

fun chunked_rank :: "chunked_state \<Rightarrow> nat" where
  "chunked_rank CHUNKED_IN_CHUNK_SIZE = 1"
| "chunked_rank CHUNKED_IN_CHUNK_DATA = 1"
| "chunked_rank _ = 0"

function decode_loop :: "phr_chunked_decoder \<Rightarrow> u8 list \<Rightarrow> nat \<Rightarrow> nat
    \<Rightarrow> phr_chunked_decoder \<times> u8 list \<times> nat \<times> nat \<times> chunked_exit" where
  "decode_loop d buf dst src =
     (if length buf < src \<or> src < dst then (d, buf, dst, src, Failed)
      else case d_state d of
        CHUNKED_IN_CHUNK_SIZE \<Rightarrow>
          (case size_loop d buf src of
             (d, src, Size_eof) \<Rightarrow> (d, buf, dst, src, Incomplete)
           | (d, src, Size_error) \<Rightarrow> (d, buf, dst, src, Failed)
           | (d, src, Size_end) \<Rightarrow>
               decode_loop (d\<lparr>d_hex_count := 0, d_state := CHUNKED_IN_CHUNK_EXT\<rparr>) buf dst src)
      | CHUNKED_IN_CHUNK_EXT \<Rightarrow>
          (let src = scan (\<lambda>c. c = 10) buf src in
           if src = length buf then (d, buf, dst, src, Incomplete)
           else if bytes_left_in_chunk d = 0
             then if consume_trailer d
                  then decode_loop (d\<lparr>d_state := CHUNKED_IN_TRAILERS_LINE_HEAD\<rparr>) buf dst (src + 1)
                  else (d, buf, dst, src + 1, Complete)
             else decode_loop (d\<lparr>d_state := CHUNKED_IN_CHUNK_DATA\<rparr>) buf dst (src + 1))
      | CHUNKED_IN_CHUNK_DATA \<Rightarrow>
          (let avail = length buf - src; left = unat (bytes_left_in_chunk d) in
           if avail < left
           then (d\<lparr>bytes_left_in_chunk := bytes_left_in_chunk d - of_nat avail\<rparr>,
                 if dst \<noteq> src then c_memmove dst src avail buf else buf,
                 dst + avail, src + avail, Incomplete)
           else decode_loop
                  (d\<lparr>bytes_left_in_chunk := 0, d_state := CHUNKED_IN_CHUNK_CRLF\<rparr>)
                  (if dst \<noteq> src then c_memmove dst src left buf else buf)
                  (dst + left) (src + left))
      | CHUNKED_IN_CHUNK_CRLF \<Rightarrow>
          (let src = scan (\<lambda>c. c \<noteq> 13) buf src in
           if src = length buf then (d, buf, dst, src, Incomplete)
           else if buf ! src \<noteq> 10 then (d, buf, dst, src, Failed)
           else decode_loop (d\<lparr>d_state := CHUNKED_IN_CHUNK_SIZE\<rparr>) buf dst (src + 1))
      | CHUNKED_IN_TRAILERS_LINE_HEAD \<Rightarrow>
          (let src = scan (\<lambda>c. c \<noteq> 13) buf src in
           if src = length buf then (d, buf, dst, src, Incomplete)
           else if buf ! src = 10 then (d, buf, dst, src + 1, Complete)
           else decode_loop (d\<lparr>d_state := CHUNKED_IN_TRAILERS_LINE_MIDDLE\<rparr>) buf dst (src + 1))
      | CHUNKED_IN_TRAILERS_LINE_MIDDLE \<Rightarrow>
          (let src = scan (\<lambda>c. c = 10) buf src in
           if src = length buf then (d, buf, dst, src, Incomplete)
           else decode_loop (d\<lparr>d_state := CHUNKED_IN_TRAILERS_LINE_HEAD\<rparr>) buf dst (src + 1)))"
  by pat_completeness auto
termination
proof (relation "measures [\<lambda>(d, buf, dst, src). length buf - src,
      \<lambda>(d, buf, dst, src). chunked_rank (d_state d)]", goal_cases)
  case 1
  then show ?case by simp
next
  case (2 d buf dst src d' y src' z)
  then have "src \<le> src'"
    using size_loop_ge [of src buf d d' src' Size_end] by auto
  with 2 show ?case by auto
qed (auto simp: not_less scan_decreases)

declare decode_loop.simps [simp del]

text \<open>
  \<open>phr_decode_chunked\<close> returns the decoder, the return value, the rewritten buffer and the new
  \<open>*_bufsz\<close>. The first branch of \<open>decode_loop\<close> is never taken from here: \<open>dst \<le> src \<le> bufsz\<close>
  is an invariant of the loop.
\<close>

definition phr_decode_chunked :: "phr_chunked_decoder \<Rightarrow> u8 list
    \<Rightarrow> phr_chunked_decoder \<times> int \<times> u8 list \<times> nat" where
  "phr_decode_chunked d buf =
     (case decode_loop d buf 0 0 of (d', buf', dst, src, x) \<Rightarrow>
        (d',
         (case x of Complete \<Rightarrow> int (length buf - src) | Incomplete \<Rightarrow> - 2 | Failed \<Rightarrow> - 1),
         if dst \<noteq> src then c_memmove dst src (length buf - src) buf' else buf',
         dst))"

definition phr_decode_chunked_is_in_data :: "phr_chunked_decoder \<Rightarrow> bool" where
  "phr_decode_chunked_is_in_data d \<longleftrightarrow> d_state d = CHUNKED_IN_CHUNK_DATA"

section \<open>Specification: a byte automaton\<close>

datatype byte_result = Go "u8 list" | Done | Bad

definition ext_byte :: "u8 \<Rightarrow> phr_chunked_decoder \<Rightarrow> phr_chunked_decoder \<times> byte_result" where
  "ext_byte b d =
     (if b \<noteq> 10 then (d, Go [])
      else if bytes_left_in_chunk d \<noteq> 0 then (d\<lparr>d_state := CHUNKED_IN_CHUNK_DATA\<rparr>, Go [])
      else if consume_trailer d then (d\<lparr>d_state := CHUNKED_IN_TRAILERS_LINE_HEAD\<rparr>, Go [])
      else (d, Done))"

definition crlf_byte :: "u8 \<Rightarrow> phr_chunked_decoder \<Rightarrow> phr_chunked_decoder \<times> byte_result" where
  "crlf_byte b d =
     (if b = 13 then (d, Go [])
      else if b = 10 then (d\<lparr>d_state := CHUNKED_IN_CHUNK_SIZE\<rparr>, Go [])
      else (d, Bad))"

fun byte_step :: "u8 \<Rightarrow> phr_chunked_decoder \<Rightarrow> phr_chunked_decoder \<times> byte_result" where
  "byte_step b d =
     (case d_state d of
        CHUNKED_IN_CHUNK_SIZE \<Rightarrow>
          (let v = decode_hex (sint b) in
           if v = - 1 then
             (if d_hex_count d = 0 then (d, Bad)
              else ext_byte b (d\<lparr>d_hex_count := 0, d_state := CHUNKED_IN_CHUNK_EXT\<rparr>))
           else if d_hex_count d = 16 then (d, Bad)
           else (d\<lparr>bytes_left_in_chunk := bytes_left_in_chunk d * 16 + word_of_int v,
                   d_hex_count := d_hex_count d + 1\<rparr>, Go []))
      | CHUNKED_IN_CHUNK_EXT \<Rightarrow> ext_byte b d
      | CHUNKED_IN_CHUNK_DATA \<Rightarrow>
          (let left = bytes_left_in_chunk d - 1 in
           (if left = 0 then d\<lparr>bytes_left_in_chunk := left, d_state := CHUNKED_IN_CHUNK_CRLF\<rparr>
            else d\<lparr>bytes_left_in_chunk := left\<rparr>, Go [b]))
      | CHUNKED_IN_CHUNK_CRLF \<Rightarrow> crlf_byte b d
      | CHUNKED_IN_TRAILERS_LINE_HEAD \<Rightarrow>
          (if b = 13 then (d, Go [])
           else if b = 10 then (d, Done)
           else (d\<lparr>d_state := CHUNKED_IN_TRAILERS_LINE_MIDDLE\<rparr>, Go []))
      | CHUNKED_IN_TRAILERS_LINE_MIDDLE \<Rightarrow>
          (if b = 10 then (d\<lparr>d_state := CHUNKED_IN_TRAILERS_LINE_HEAD\<rparr>, Go []) else (d, Go [])))"

declare byte_step.simps [simp del]

text \<open>A run: the final decoder, the decoded bytes, how it ended and the bytes not consumed.\<close>

fun run_bytes :: "phr_chunked_decoder \<Rightarrow> u8 list
    \<Rightarrow> phr_chunked_decoder \<times> u8 list \<times> chunked_exit \<times> u8 list" where
  "run_bytes d [] = (d, [], Incomplete, [])"
| "run_bytes d (b # bs) =
     (case byte_step b d of
        (d', Go out) \<Rightarrow> (case run_bytes d' bs of (d'', out', x, rest) \<Rightarrow> (d'', out @ out', x, rest))
      | (d', Done) \<Rightarrow> (d', [], Complete, bs)
      | (d', Bad) \<Rightarrow> (d', [], Failed, b # bs))"

text \<open>The state in which data are awaited always has some left.\<close>

definition decoder_wf :: "phr_chunked_decoder \<Rightarrow> bool" where
  "decoder_wf d \<longleftrightarrow>
     (d_state d = CHUNKED_IN_CHUNK_DATA \<longrightarrow> bytes_left_in_chunk d \<noteq> 0)"

section \<open>Runs of the automaton\<close>

lemma run_bytes_append:
  "run_bytes d (a @ b) =
     (case run_bytes d a of
        (d', out, Incomplete, rest) \<Rightarrow>
          (case run_bytes d' b of (d'', out', x, rest') \<Rightarrow> (d'', out @ out', x, rest'))
      | (d', out, x, rest) \<Rightarrow> (d', out, x, rest @ b))"
  by (induction d a rule: run_bytes.induct)
    (auto split: prod.splits byte_result.splits chunked_exit.splits)

lemma run_bytes_rest_le: "run_bytes d xs = (d', out, x, rest) \<Longrightarrow> length rest \<le> length xs"
  by (induction d xs arbitrary: d' out x rest rule: run_bytes.induct)
    (fastforce split: prod.splits byte_result.splits)+

lemma run_bytes_Incomplete_rest: "run_bytes d xs = (d', out, Incomplete, rest) \<Longrightarrow> rest = []"
  by (induction d xs arbitrary: d' out rest rule: run_bytes.induct)
    (fastforce split: prod.splits byte_result.splits)+

lemma byte_step_wf: "decoder_wf d \<Longrightarrow> decoder_wf (fst (byte_step b d))"
  by (auto simp: decoder_wf_def byte_step.simps ext_byte_def crlf_byte_def Let_def
      split: chunked_state.splits)

lemma run_bytes_wf: "decoder_wf d \<Longrightarrow> decoder_wf (fst (run_bytes d xs))"
proof (induction d xs rule: run_bytes.induct)
  case (2 d b bs)
  then show ?case
    using byte_step_wf [OF "2.prems", of b]
    by (auto split: prod.splits byte_result.splits)
qed simp

section \<open>The in-place routine refines the automaton\<close>

text \<open>
  The relation kept by the outer loop: what the routine makes of the buffer from \<open>(dst, src)\<close> on
  is what the automaton makes of the bytes from \<open>src\<close> on.
\<close>

definition refines_run :: "phr_chunked_decoder \<Rightarrow> u8 list \<Rightarrow> nat \<Rightarrow> nat \<Rightarrow> bool" where
  "refines_run d buf dst src \<longleftrightarrow>
     (case decode_loop d buf dst src of (d', buf', dst', src', x) \<Rightarrow>
        \<exists>out. run_bytes d (drop src buf) = (d', out, x, drop src' buf) \<and>
          src' \<le> length buf \<and> dst' \<le> src' \<and> dst' = dst + length out \<and> length buf' = length buf \<and>
          take dst' buf' = take dst buf @ out \<and> drop src' buf' = drop src' buf)"

text \<open>Scanning forward is running the automaton over bytes that keep it in its state.\<close>

lemma scan_eqs:
  "length buf \<le> src \<Longrightarrow> scan P buf src = length buf"
  "src < length buf \<Longrightarrow> P (buf ! src) \<Longrightarrow> scan P buf src = src"
  "src < length buf \<Longrightarrow> \<not> P (buf ! src) \<Longrightarrow> scan P buf src = scan P buf (Suc src)"
  by (subst scan.simps; simp)+

lemma scan_hit: "src \<le> length buf \<Longrightarrow> scan P buf src < length buf \<Longrightarrow> P (buf ! scan P buf src)"
  by (induction P buf src rule: scan.induct) (metis Suc_eq_plus1 leI scan_eqs order_less_irrefl Suc_leI)

lemma scan_run:
  assumes "src \<le> length buf"
    and stay: "\<And>b. \<not> P b \<Longrightarrow> byte_step b d = (d, Go [])"
  shows "run_bytes d (drop src buf) = run_bytes d (drop (scan P buf src) buf)"
  using assms
proof (induction P buf src rule: scan.induct)
  case (1 P buf src)
  show ?case
  proof (cases "src < length buf \<and> \<not> P (buf ! src)")
    case True
    then have "run_bytes d (drop src buf) = run_bytes d (drop (Suc src) buf)"
      using "1.prems"(2) [of "buf ! src"] by (simp add: drop_nth_Cons split: prod.splits)
    with "1.IH" "1.prems" True show ?thesis by (simp add: scan_eqs(3) not_le)
  next
    case False
    with "1.prems" show ?thesis by (cases "src < length buf") (auto simp: scan_eqs(1,2))
  qed
qed

lemma size_loop_state: "size_loop d buf src = (d', src', x) \<Longrightarrow> d_state d' = d_state d"
  by (induction d buf src rule: size_loop.induct)
    (subst (asm) (2) size_loop.simps, auto simp: Let_def split: if_splits)

lemma size_run:
  assumes "size_loop d buf src = (d', src', x)" and "d_state d = CHUNKED_IN_CHUNK_SIZE"
  shows "run_bytes d (drop src buf) =
    (case x of
       Size_eof \<Rightarrow> (d', [], Incomplete, [])
     | Size_error \<Rightarrow> (d', [], Failed, drop src' buf)
     | Size_end \<Rightarrow>
         run_bytes (d'\<lparr>d_hex_count := 0, d_state := CHUNKED_IN_CHUNK_EXT\<rparr>) (drop src' buf)) \<and>
    (x = Size_eof \<longrightarrow> length buf \<le> src')"
  using assms
proof (induction d buf src rule: size_loop.induct)
  case (1 d buf src)
  show ?case
  proof (cases "src < length buf")
    case False
    with "1.prems" show ?thesis by (simp add: size_loop.simps [of d])
  next
    case True
    note split = drop_nth_Cons [OF True]
    show ?thesis
    proof (cases "decode_hex (sint (buf ! src)) \<noteq> - 1 \<and> d_hex_count d \<noteq> 16")
      case go: True
      then show ?thesis
        using "1.IH" "1.prems" True
        by (simp add: size_loop.simps [of d] split byte_step.simps Let_def split: prod.splits)
    next
      case stop: False
      then show ?thesis
        using "1.prems" True
        by (auto simp: size_loop.simps [of d] drop_nth_Cons byte_step.simps Let_def
            split: if_splits)
    qed
  qed
qed

lemma data_run:
  assumes "d_state d = CHUNKED_IN_CHUNK_DATA"
  shows "length xs < unat (bytes_left_in_chunk d) \<Longrightarrow>
      run_bytes d xs = (d\<lparr>bytes_left_in_chunk := bytes_left_in_chunk d - of_nat (length xs)\<rparr>, xs, Incomplete, [])"
    and "length xs = unat (bytes_left_in_chunk d) \<Longrightarrow> xs \<noteq> [] \<Longrightarrow>
      run_bytes d (xs @ ys) =
        (case run_bytes (d\<lparr>bytes_left_in_chunk := 0, d_state := CHUNKED_IN_CHUNK_CRLF\<rparr>) ys of
           (d', out, x, rest) \<Rightarrow> (d', xs @ out, x, rest))"
  using assms
proof (induction xs arbitrary: d)
  case Nil
  {
    case 1
    then show ?case by simp
  next
    case 2
    then show ?case by simp
  }
next
  case (Cons b xs)
  have u: "unat (bytes_left_in_chunk d - 1) = unat (bytes_left_in_chunk d) - 1"
    if "0 < unat (bytes_left_in_chunk d)" for d :: phr_chunked_decoder
    using that by (simp add: unat_minus_one unat_gt_0)
  {
    case 1
    then have "0 < unat (bytes_left_in_chunk d)" by simp
    from u [OF this] 1 have "length xs < unat (bytes_left_in_chunk d - 1)"
      by simp
    moreover from this have "bytes_left_in_chunk d - 1 \<noteq> 0"
      by (auto simp: unat_eq_0 [symmetric])
    ultimately show ?case
      using 1 Cons.IH(1) [of "d\<lparr>bytes_left_in_chunk := bytes_left_in_chunk d - 1\<rparr>"]
      by (simp add: byte_step.simps Let_def algebra_simps)
  next
    case 2
    then have l: "length xs = unat (bytes_left_in_chunk d - 1)" using u by simp
    show ?case
    proof (cases "xs = []")
      case True
      with l have "bytes_left_in_chunk d - 1 = 0" by (simp add: unat_eq_0 [symmetric])
      with 2 True show ?thesis
        by (simp add: byte_step.simps Let_def split: prod.splits)
    next
      case False
      with l have "bytes_left_in_chunk d - 1 \<noteq> 0" by (metis length_0_conv unat_0)
      with 2 l False Cons.IH(2) [of "d\<lparr>bytes_left_in_chunk := bytes_left_in_chunk d - 1\<rparr>"]
      show ?thesis
        by (simp add: byte_step.simps Let_def split: prod.splits)
    qed
  }
qed

text \<open>One iteration of the outer loop against the run of the automaton it accounts for.\<close>

lemma refines_iteration:
  assumes eq: "decode_loop d buf dst src = decode_loop d1 buf1 dst1 src1"
    and IH: "refines_run d1 buf1 dst1 src1"
    and run: "run_bytes d (drop src buf) =
      (case run_bytes d1 (drop src1 buf1) of (d2, out2, x, rest) \<Rightarrow> (d2, out @ out2, x, rest))"
    and dst1: "dst1 = dst + length out" "take dst1 buf1 = take dst buf @ out"
    and buf1: "length buf1 = length buf" "drop src1 buf1 = drop src1 buf" "src1 \<le> length buf"
  shows "refines_run d buf dst src"
proof -
  obtain d2 buf2 dst2 src2 x where
    d: "decode_loop d1 buf1 dst1 src1 = (d2, buf2, dst2, src2, x)" by (cases rule: prod_cases5)
  obtain out2 where o: "run_bytes d1 (drop src1 buf1) = (d2, out2, x, drop src2 buf1)"
    "src2 \<le> length buf1" "dst2 \<le> src2" "dst2 = dst1 + length out2" "length buf2 = length buf1"
    "take dst2 buf2 = take dst1 buf1 @ out2" "drop src2 buf2 = drop src2 buf1"
    using IH by (auto simp: refines_run_def d)
  have "src1 \<le> src2"
    using run_bytes_rest_le [OF o(1)] o(2) buf1 by (simp add: le_diff_conv)
  then have "drop src2 buf1 = drop src2 buf"
    using buf1(2) by (metis add_diff_cancel_left' drop_drop le_add_diff_inverse2)
  moreover have "decode_loop d buf dst src = (d2, buf2, dst2, src2, x)"
    using eq d by simp
  ultimately show ?thesis
    using o dst1 buf1 run by (simp add: refines_run_def)
qed

lemma refines_exit:
  assumes "decode_loop d buf dst src = (d', buf, dst, src', x)"
    and "run_bytes d (drop src buf) = (d', [], x, drop src' buf)"
    and "src \<le> src'" "src' \<le> length buf" "dst \<le> src"
  shows "refines_run d buf dst src"
  using assms by (simp add: refines_run_def)

lemma take_c_memmove:
  assumes "dst \<le> src" "src + n \<le> length buf"
  shows "take (dst + n) (if dst \<noteq> src then c_memmove dst src n buf else buf)
      = take dst buf @ take n (drop src buf)"
    and "drop (src + n) (if dst \<noteq> src then c_memmove dst src n buf else buf) = drop (src + n) buf"
    and "length (if dst \<noteq> src then c_memmove dst src n buf else buf) = length buf"
  using assms by (auto simp: c_memmove_def write_at_def take_add min_def)


text \<open>The four states that only scan for a byte share one argument.\<close>

lemma refines_scan:
  assumes pos: "dst \<le> src" "src \<le> length buf"
    and stay: "\<And>b. \<not> P b \<Longrightarrow> byte_step b d = (d, Go [])"
    and silent: "\<And>b d1 out. byte_step b d = (d1, Go out) \<Longrightarrow> out = []"
    and loop: "P (buf ! scan P buf src) \<or> scan P buf src = length buf \<Longrightarrow> decode_loop d buf dst src =
      (if scan P buf src = length buf then (d, buf, dst, scan P buf src, Incomplete)
       else case byte_step (buf ! scan P buf src) d of
         (d1, Go out) \<Rightarrow> decode_loop d1 buf dst (scan P buf src + 1)
       | (d1, Done) \<Rightarrow> (d1, buf, dst, scan P buf src + 1, Complete)
       | (d1, Bad) \<Rightarrow> (d1, buf, dst, scan P buf src, Failed))"
    and IH: "\<And>d1. scan P buf src < length buf \<Longrightarrow> byte_step (buf ! scan P buf src) d = (d1, Go []) \<Longrightarrow>
      refines_run d1 buf dst (scan P buf src + 1)"
  shows "refines_run d buf dst src"
proof -
  let ?s = "scan P buf src"
  have b: "src \<le> ?s" "?s \<le> length buf" using scan_ge [OF pos(2), of P] by auto
  have r: "run_bytes d (drop src buf) = run_bytes d (drop ?s buf)"
    using pos(2) stay by (rule scan_run)
  show ?thesis
  proof (cases "?s = length buf")
    case True
    then show ?thesis
      using b r pos loop by (intro refines_exit [of d buf dst src d "length buf" Incomplete]) auto
  next
    case False
    with b have lt: "?s < length buf" by simp
    with pos(2) have "P (buf ! ?s)" by (rule scan_hit)
    note eq = loop [OF disjI1, OF this]
    obtain d1 res where step: "byte_step (buf ! ?s) d = (d1, res)" by fastforce
    show ?thesis
    proof (cases res)
      case (Go out)
      with step silent have res: "res = Go []" by blast
      have "run_bytes d (drop ?s buf) = run_bytes d1 (drop (?s + 1) buf)"
        using step res by (simp add: drop_nth_Cons [OF lt] split: prod.splits)
      with r step res eq False lt pos b IH [OF lt] show ?thesis
        by (intro refines_iteration [of d buf dst src d1 buf dst "?s + 1" "[]"])
          (simp_all split: prod.splits)
    qed (use step eq False r b pos lt in \<open>auto intro!: refines_exit simp: drop_nth_Cons [OF lt]\<close>)
  qed
qed

lemma refines_size:
  assumes pos: "dst \<le> src" "src \<le> length buf" and st: "d_state d = CHUNKED_IN_CHUNK_SIZE"
    and IH: "\<And>d' src'. size_loop d buf src = (d', src', Size_end) \<Longrightarrow> src \<le> src' \<Longrightarrow>
      src' \<le> length buf \<Longrightarrow>
      refines_run (d'\<lparr>d_hex_count := 0, d_state := CHUNKED_IN_CHUNK_EXT\<rparr>) buf dst src'"
  shows "refines_run d buf dst src"
proof -
  obtain d' src' x where l: "size_loop d buf src = (d', src', x)" by (cases rule: prod_cases3)
  note b = size_loop_ge [OF pos(2) l] and r = size_run [OF l st]
  have eq: "decode_loop d buf dst src =
     (case x of
        Size_eof \<Rightarrow> (d', buf, dst, src', Incomplete)
      | Size_error \<Rightarrow> (d', buf, dst, src', Failed)
      | Size_end \<Rightarrow>
          decode_loop (d'\<lparr>d_hex_count := 0, d_state := CHUNKED_IN_CHUNK_EXT\<rparr>) buf dst src')"
    using pos st l by (subst decode_loop.simps) (auto split: size_exit.splits)
  show ?thesis
  proof (cases x)
    case Size_end
    with IH l b have go: "refines_run (d'\<lparr>d_hex_count := 0, d_state := CHUNKED_IN_CHUNK_EXT\<rparr>) buf dst src'"
      by simp
    show ?thesis
      by (rule refines_iteration [OF _ go, where out = "[]"])
        (use eq r b Size_end in \<open>simp_all split: prod.splits\<close>)
  qed (use eq r b pos in \<open>auto intro!: refines_exit\<close>)
qed

lemma refines_data:
  assumes pos: "dst \<le> src" "src \<le> length buf" and st: "d_state d = CHUNKED_IN_CHUNK_DATA"
    and wf: "decoder_wf d"
    and IH: "\<And>buf1. unat (bytes_left_in_chunk d) \<le> length buf - src \<Longrightarrow>
      buf1 = (if dst \<noteq> src then c_memmove dst src (unat (bytes_left_in_chunk d)) buf else buf) \<Longrightarrow>
      refines_run (d\<lparr>bytes_left_in_chunk := 0, d_state := CHUNKED_IN_CHUNK_CRLF\<rparr>) buf1
        (dst + unat (bytes_left_in_chunk d)) (src + unat (bytes_left_in_chunk d))"
  shows "refines_run d buf dst src"
proof -
  let ?left = "unat (bytes_left_in_chunk d)" and ?avail = "length buf - src"
  have pos_left: "0 < ?left" using wf st by (simp add: decoder_wf_def unat_gt_0)
  show ?thesis
  proof (cases "?avail < ?left")
    case True
    let ?buf = "if dst \<noteq> src then c_memmove dst src ?avail buf else buf"
    have "decode_loop d buf dst src =
      (d\<lparr>bytes_left_in_chunk := bytes_left_in_chunk d - of_nat ?avail\<rparr>, ?buf,
       dst + ?avail, src + ?avail, Incomplete)"
      using True st pos by (subst decode_loop.simps) (simp add: Let_def)
    moreover have "run_bytes d (drop src buf) =
      (d\<lparr>bytes_left_in_chunk := bytes_left_in_chunk d - of_nat ?avail\<rparr>, drop src buf, Incomplete, [])"
      using data_run(1) [OF st, of "drop src buf"] True by simp
    ultimately show ?thesis
      using take_c_memmove [of dst src ?avail buf] pos by (simp add: refines_run_def)
  next
    case False
    let ?buf = "if dst \<noteq> src then c_memmove dst src ?left buf else buf"
    let ?d = "d\<lparr>bytes_left_in_chunk := 0, d_state := CHUNKED_IN_CHUNK_CRLF\<rparr>"
    have eq: "decode_loop d buf dst src = decode_loop ?d ?buf (dst + ?left) (src + ?left)"
      using False st pos by (subst decode_loop.simps) (simp add: Let_def)
    have mv: "src + ?left \<le> length buf" using False pos by simp
    have "run_bytes d (take ?left (drop src buf) @ drop (src + ?left) buf) =
        (case run_bytes ?d (drop (src + ?left) buf) of
           (d', out, x, rest) \<Rightarrow> (d', take ?left (drop src buf) @ out, x, rest))"
      using data_run(2) [OF st] False pos_left by simp
    moreover have "take ?left (drop src buf) @ drop (src + ?left) buf = drop src buf"
      by (metis add.commute append_take_drop_id drop_drop)
    ultimately have "run_bytes d (drop src buf) =
        (case run_bytes ?d (drop (src + ?left) ?buf) of
           (d', out, x, rest) \<Rightarrow> (d', take ?left (drop src buf) @ out, x, rest))"
      using take_c_memmove(2) [OF pos(1) mv] by simp
    with eq IH False mv take_c_memmove [OF pos(1) mv] show ?thesis
      by (intro refines_iteration [OF eq]) (simp_all add: min_def)
  qed
qed

text \<open>The iterations of the scanning states, written with the automaton's step.\<close>

definition scanning :: "chunked_state \<Rightarrow> bool" where
  "scanning st \<longleftrightarrow> st \<noteq> CHUNKED_IN_CHUNK_SIZE \<and> st \<noteq> CHUNKED_IN_CHUNK_DATA"

definition stop_byte :: "chunked_state \<Rightarrow> u8 \<Rightarrow> bool" where
  "stop_byte st =
     (if st = CHUNKED_IN_CHUNK_EXT \<or> st = CHUNKED_IN_TRAILERS_LINE_MIDDLE then (\<lambda>b. b = 10)
      else (\<lambda>b. b \<noteq> 13))"

lemma scanning_loop:
  assumes "scanning (d_state d)" and "dst \<le> src" "src \<le> length buf"
    and "s = scan (stop_byte (d_state d)) buf src"
    and "stop_byte (d_state d) (buf ! s) \<or> s = length buf"
  shows "decode_loop d buf dst src =
      (if s = length buf then (d, buf, dst, s, Incomplete)
       else case byte_step (buf ! s) d of
         (d1, Go out) \<Rightarrow> decode_loop d1 buf dst (s + 1)
       | (d1, Done) \<Rightarrow> (d1, buf, dst, s + 1, Complete)
       | (d1, Bad) \<Rightarrow> (d1, buf, dst, s, Failed))"
proof (cases "d_state d")
  case CHUNKED_IN_CHUNK_EXT
  with assms show ?thesis
    by (subst decode_loop.simps) (auto simp: Let_def byte_step.simps ext_byte_def stop_byte_def)
next
  case CHUNKED_IN_CHUNK_CRLF
  with assms show ?thesis
    by (subst decode_loop.simps) (auto simp: Let_def byte_step.simps crlf_byte_def stop_byte_def)
next
  case CHUNKED_IN_TRAILERS_LINE_HEAD
  with assms show ?thesis
    by (subst decode_loop.simps) (auto simp: Let_def byte_step.simps stop_byte_def)
next
  case CHUNKED_IN_TRAILERS_LINE_MIDDLE
  with assms show ?thesis
    by (subst decode_loop.simps) (auto simp: Let_def byte_step.simps stop_byte_def)
qed (use assms in \<open>simp_all add: scanning_def\<close>)

lemma scanning_step:
  assumes "scanning (d_state d)"
  shows "\<not> stop_byte (d_state d) b \<Longrightarrow> byte_step b d = (d, Go [])"
    and "byte_step b d = (d1, Go out) \<Longrightarrow> out = []"
  using assms
  by (cases "d_state d";
      auto simp: byte_step.simps ext_byte_def crlf_byte_def scanning_def stop_byte_def
        split: if_splits)+

lemma loop_refines:
  "dst \<le> src \<Longrightarrow> src \<le> length buf \<Longrightarrow> decoder_wf d \<Longrightarrow> refines_run d buf dst src"
proof (induction "(d, buf, dst, src)" arbitrary: d buf dst src
    rule: wf_induct_rule [OF wf_measures [of "[\<lambda>(d, buf, dst, src). length buf - src,
      \<lambda>(d, buf, dst, src). chunked_rank (d_state d)]"]])
  case (1 d buf dst src)
  note IH = "1.hyps" and pos = "1.prems"(1,2) and wf = "1.prems"(3)
  consider "d_state d = CHUNKED_IN_CHUNK_SIZE" | "d_state d = CHUNKED_IN_CHUNK_DATA"
    | "scanning (d_state d)" by (auto simp: scanning_def)
  then show ?case
  proof cases
    assume st: "d_state d = CHUNKED_IN_CHUNK_SIZE"
    show ?thesis
      by (rule refines_size [OF pos st], rule IH) (use pos st in \<open>auto simp: decoder_wf_def\<close>)
  next
    assume st: "d_state d = CHUNKED_IN_CHUNK_DATA"
    show ?thesis
      by (rule refines_data [OF pos st wf], rule IH)
        (use pos st wf in \<open>auto simp: decoder_wf_def\<close>)
  next
    assume st: "scanning (d_state d)"
    let ?s = "scan (stop_byte (d_state d)) buf src"
    have s: "src \<le> ?s" using scan_ge [OF pos(2)] by simp
    have "refines_run d1 buf dst (?s + 1)"
      if "?s < length buf" "byte_step (buf ! ?s) d = (d1, Go [])" for d1
      by (rule IH) (use that s pos byte_step_wf [OF wf, of "buf ! ?s"] in auto)
    then show ?thesis
      by (intro refines_scan [OF pos scanning_step [OF st] scanning_loop [OF st pos]]) auto
  qed
qed

section \<open>The routine as a whole\<close>

text \<open>What \<open>phr_decode_chunked\<close> leaves behind: the decoded bytes, then the bytes not consumed.\<close>

definition exit_value :: "chunked_exit \<Rightarrow> u8 list \<Rightarrow> int" where
  "exit_value x rest =
     (case x of Complete \<Rightarrow> int (length rest) | Incomplete \<Rightarrow> - 2 | Failed \<Rightarrow> - 1)"

lemma phr_decode_chunked_run:
  assumes "decoder_wf d" and run: "run_bytes d buf = (d', out, x, rest)"
  obtains tail where "phr_decode_chunked d buf =
      (d', exit_value x rest, out @ rest @ tail, length out)"
    and "length out + length rest + length tail = length buf"
proof -
  obtain d1 buf1 dst src x1 where
    l: "decode_loop d buf 0 0 = (d1, buf1, dst, src, x1)" by (cases rule: prod_cases5)
  have "refines_run d buf 0 0" using assms(1) by (simp add: loop_refines)
  then have r: "d1 = d'" "x1 = x" "rest = drop src buf" "src \<le> length buf" "dst \<le> src"
    "dst = length out" "length buf1 = length buf" "take dst buf1 = out" "drop src buf1 = rest"
    using run by (auto simp: refines_run_def l)
  let ?buf = "if dst \<noteq> src then c_memmove dst src (length buf - src) buf1 else buf1"
  have mv: "take (dst + (length buf - src)) ?buf = out @ rest" "length ?buf = length buf"
    using take_c_memmove [of dst src "length buf - src" buf1] r by auto
  let ?tail = "drop (dst + (length buf - src)) ?buf"
  have "?buf = out @ rest @ ?tail"
    using append_take_drop_id [of "dst + (length buf - src)" ?buf] unfolding mv(1) by simp
  moreover have "phr_decode_chunked d buf = (d', exit_value x rest, ?buf, length out)"
    using r by (simp add: phr_decode_chunked_def l exit_value_def split: chunked_exit.splits)
  moreover have "length out + length rest + length ?tail = length buf"
    using r mv(2) by simp
  ultimately show ?thesis by (intro that [of ?tail]) simp_all
qed

text \<open>A stream decoded piece by piece: the routine is called again while it returns -2.\<close>

fun decode_pieces :: "phr_chunked_decoder \<Rightarrow> u8 list list
    \<Rightarrow> phr_chunked_decoder \<times> u8 list \<times> int" where
  "decode_pieces d [] = (d, [], - 2)"
| "decode_pieces d (buf # bufs) =
     (case phr_decode_chunked d buf of (d', ret, buf', n) \<Rightarrow>
        if ret = - 2
        then (case decode_pieces d' bufs of (d'', out, ret') \<Rightarrow> (d'', take n buf' @ out, ret'))
        else (d', take n buf', if ret = - 1 then - 1 else ret + int (length (concat bufs))))"

lemma exit_value_iff [simp]:
  "exit_value x rest = - 2 \<longleftrightarrow> x = Incomplete"
  "exit_value x rest = - 1 \<longleftrightarrow> x = Failed"
  by (auto simp: exit_value_def split: chunked_exit.splits)

lemma decode_pieces_run:
  "decoder_wf d \<Longrightarrow> decode_pieces d bufs =
     (case run_bytes d (concat bufs) of (d', out, x, rest) \<Rightarrow> (d', out, exit_value x rest))"
proof (induction bufs arbitrary: d)
  case Nil
  then show ?case by (simp add: exit_value_def)
next
  case (Cons buf bufs)
  obtain d1 out x rest where r: "run_bytes d buf = (d1, out, x, rest)" by (cases rule: prod_cases4)
  obtain tail where p: "phr_decode_chunked d buf =
      (d1, exit_value x rest, out @ rest @ tail, length out)"
    by (rule phr_decode_chunked_run [OF Cons.prems r])
  have "decoder_wf d1" using run_bytes_wf [OF Cons.prems, of buf] r by simp
  then show ?case
    using Cons.IH [of d1] by (cases x)
      (auto simp: p run_bytes_append r exit_value_def split: prod.splits)
qed

section \<open>Well-formed chunked bodies\<close>

text \<open>
  A chunk on the wire: 1 to 16 hexadecimal digits, an extension (anything without a line feed
  that does not continue the number; the carriage return is part of it), a line feed, the data
  and a line end. The body ends with a chunk of size 0 and, when the decoder consumes them,
  trailer lines and an empty line.
\<close>

definition is_hex :: "u8 \<Rightarrow> bool" where
  "is_hex b \<longleftrightarrow> decode_hex (sint b) \<noteq> - 1"

definition hex_value :: "u8 list \<Rightarrow> nat" where
  "hex_value = foldl (\<lambda>n b. n * 16 + nat (decode_hex (sint b))) 0"

definition size_line :: "u8 list \<Rightarrow> u8 list \<Rightarrow> nat \<Rightarrow> bool" where
  "size_line digits ext n \<longleftrightarrow>
     digits \<noteq> [] \<and> length digits \<le> 16 \<and> list_all is_hex digits \<and> hex_value digits = n \<and>
     10 \<notin> set ext \<and> (ext = [] \<or> \<not> is_hex (hd ext))"

fun chunk_ok :: "u8 list \<times> u8 list \<times> u8 list \<Rightarrow> bool" where
  "chunk_ok (digits, ext, content) \<longleftrightarrow> content \<noteq> [] \<and> size_line digits ext (length content)"

fun chunk_bytes :: "u8 list \<times> u8 list \<times> u8 list \<Rightarrow> u8 list" where
  "chunk_bytes (digits, ext, content) = digits @ ext @ [10] @ content @ [13, 10]"

definition trailer_ok :: "u8 list \<Rightarrow> bool" where
  "trailer_ok line \<longleftrightarrow> line \<noteq> [] \<and> hd line \<noteq> 13 \<and> 10 \<notin> set line"

lemma decode_hex_bounds: "is_hex b \<Longrightarrow> 0 \<le> decode_hex (sint b) \<and> decode_hex (sint b) < 16"
  by (auto simp: is_hex_def decode_hex_def split: if_splits)

lemma not_hex_lf [simp]: "\<not> is_hex 10"
  by (simp add: is_hex_def decode_hex_def)

text \<open>Two record updates the automaton makes.\<close>

abbreviation in_size :: "phr_chunked_decoder \<Rightarrow> bool" where
  "in_size d \<equiv> d_state d = CHUNKED_IN_CHUNK_SIZE"

lemma run_digits:
  "in_size d \<Longrightarrow> list_all is_hex digits \<Longrightarrow> d_hex_count d + length digits \<le> 16 \<Longrightarrow>
   run_bytes d (digits @ xs) = run_bytes
     (d\<lparr>bytes_left_in_chunk :=
          foldl (\<lambda>w b. w * 16 + word_of_int (decode_hex (sint b))) (bytes_left_in_chunk d) digits,
        d_hex_count := d_hex_count d + length digits\<rparr>) xs"
proof (induction digits arbitrary: d)
  case (Cons b digits)
  then have "byte_step b d = (d\<lparr>bytes_left_in_chunk :=
      bytes_left_in_chunk d * 16 + word_of_int (decode_hex (sint b)),
      d_hex_count := d_hex_count d + 1\<rparr>, Go [])"
    by (simp add: byte_step.simps is_hex_def)
  with Cons show ?case by (simp split: prod.splits)
qed simp

lemma foldl_hex_word:
  "list_all is_hex digits \<Longrightarrow>
   foldl (\<lambda>w b. w * 16 + word_of_int (decode_hex (sint b))) (of_nat n) digits
     = (of_nat (foldl (\<lambda>n b. n * 16 + nat (decode_hex (sint b))) n digits) :: size_t)"
proof (induction digits arbitrary: n)
  case (Cons b digits)
  have "(of_nat n * 16 + word_of_int (decode_hex (sint b)) :: size_t)
      = of_nat (n * 16 + nat (decode_hex (sint b)))"
    using decode_hex_bounds [of b] Cons.prems by simp
  with Cons.IH [of "n * 16 + nat (decode_hex (sint b))"] Cons.prems show ?case
    by (simp del: of_nat_add of_nat_mult)
qed simp

lemma run_ext:
  assumes "10 \<notin> set ext" and "d_state d = CHUNKED_IN_CHUNK_EXT"
  shows "run_bytes d (ext @ xs) = run_bytes d xs"
  using assms by (induction ext)
    (auto simp: byte_step.simps ext_byte_def split: prod.splits)

lemma run_size_line:
  assumes "size_line digits ext n" and "in_size d" "d_hex_count d = 0" "bytes_left_in_chunk d = 0"
  shows "run_bytes d (digits @ ext @ 10 # xs) = run_bytes
    (d\<lparr>bytes_left_in_chunk := of_nat n, d_state := CHUNKED_IN_CHUNK_EXT\<rparr>) (10 # xs)"
proof -
  let ?d = "d\<lparr>bytes_left_in_chunk := of_nat n, d_hex_count := length digits\<rparr>"
  let ?e = "d\<lparr>bytes_left_in_chunk := of_nat n, d_state := CHUNKED_IN_CHUNK_EXT\<rparr>"
  have "?d\<lparr>d_hex_count := 0, d_state := CHUNKED_IN_CHUNK_EXT\<rparr> = ?e"
    using assms(3) by simp
  then have enter: "byte_step b ?d = byte_step b ?e" if "\<not> is_hex b" for b
    using that assms(1,2) by (simp add: byte_step.simps is_hex_def size_line_def)
  have "run_bytes d (digits @ ext @ 10 # xs) = run_bytes ?d (ext @ 10 # xs)"
    using assms run_digits [of d digits] foldl_hex_word [of digits 0]
    by (simp add: size_line_def hex_value_def)
  also have "\<dots> = run_bytes ?e (ext @ 10 # xs)"
    using assms(1) enter by (cases ext) (auto simp: size_line_def)
  also have "\<dots> = run_bytes ?e (10 # xs)"
    using assms(1) by (intro run_ext) (auto simp: size_line_def)
  finally show ?thesis .
qed

text \<open>A decoder between two chunks, in particular a zero-initialised one.\<close>

definition decoder_start :: "phr_chunked_decoder \<Rightarrow> bool" where
  "decoder_start d \<longleftrightarrow> in_size d \<and> d_hex_count d = 0 \<and> bytes_left_in_chunk d = 0"

lemma decoder_start_wf: "decoder_start d \<Longrightarrow> decoder_wf d"
  by (simp add: decoder_start_def decoder_wf_def)

lemma foldl_hex_less:
  "list_all is_hex digits \<Longrightarrow>
   foldl (\<lambda>n b. n * 16 + nat (decode_hex (sint b))) n digits < (n + 1) * 16 ^ length digits"
proof (induction digits arbitrary: n)
  case (Cons b digits)
  have "n * 16 + nat (decode_hex (sint b)) + 1 \<le> (n + 1) * 16"
    using decode_hex_bounds [of b] Cons.prems by auto
  then have "(n * 16 + nat (decode_hex (sint b)) + 1) * 16 ^ length digits
      \<le> (n + 1) * 16 * 16 ^ length digits"
    by (rule mult_le_mono1)
  also have "\<dots> = (n + 1) * 16 ^ length (b # digits)" by (simp add: algebra_simps)
  finally show ?case
    using Cons.IH [of "n * 16 + nat (decode_hex (sint b))"] Cons.prems by simp
qed simp

lemma size_line_less: "size_line digits ext n \<Longrightarrow> n < 2 ^ 64"
proof -
  assume s: "size_line digits ext n"
  then have "n < 16 ^ length digits"
    using foldl_hex_less [of digits 0] by (simp add: size_line_def hex_value_def)
  also have "(16 :: nat) ^ length digits \<le> 16 ^ 16"
    using s by (intro power_increasing) (auto simp: size_line_def)
  finally show ?thesis by simp
qed

lemma run_chunk:
  assumes "chunk_ok c" and "decoder_start d"
  shows "run_bytes d (chunk_bytes c @ xs) =
    (case run_bytes d xs of (d', out, x, rest) \<Rightarrow> (d', snd (snd c) @ out, x, rest))"
proof -
  obtain digits ext content where c: "c = (digits, ext, content)" by (cases c)
  let ?n = "of_nat (length content) :: size_t"
  let ?e = "d\<lparr>bytes_left_in_chunk := ?n, d_state := CHUNKED_IN_CHUNK_EXT\<rparr>"
  let ?data = "d\<lparr>bytes_left_in_chunk := ?n, d_state := CHUNKED_IN_CHUNK_DATA\<rparr>"
  have l: "size_line digits ext (length content)" "content \<noteq> []" using assms(1) c by auto
  from size_line_less [OF l(1)] have n: "unat ?n = length content"
    by (simp add: unat_of_nat)
  then have "?n \<noteq> 0" using l(2) by (metis length_0_conv unat_0)
  then have "run_bytes d (chunk_bytes c @ xs) = run_bytes ?data (content @ 13 # 10 # xs)"
    using run_size_line [OF l(1)] assms(2)
    by (simp add: c decoder_start_def byte_step.simps ext_byte_def split: prod.splits)
  also have "\<dots> = (case run_bytes
      (?data\<lparr>bytes_left_in_chunk := 0, d_state := CHUNKED_IN_CHUNK_CRLF\<rparr>) (13 # 10 # xs) of
        (d', out, x, rest) \<Rightarrow> (d', content @ out, x, rest))"
    using data_run(2) [of ?data content] n l(2) by simp
  also have "run_bytes (?data\<lparr>bytes_left_in_chunk := 0, d_state := CHUNKED_IN_CHUNK_CRLF\<rparr>)
      (13 # 10 # xs) = run_bytes d xs"
  proof -
    have "?data\<lparr>bytes_left_in_chunk := 0, d_state := CHUNKED_IN_CHUNK_SIZE\<rparr> = d"
      using assms(2) by (simp add: decoder_start_def)
    then show ?thesis by (simp add: byte_step.simps crlf_byte_def split: prod.splits)
  qed
  finally show ?thesis by (simp add: c)
qed

lemma run_chunks:
  "list_all chunk_ok cs \<Longrightarrow> decoder_start d \<Longrightarrow>
   run_bytes d (concat (map chunk_bytes cs) @ xs) =
     (case run_bytes d xs of (d', out, x, rest) \<Rightarrow>
        (d', concat (map (snd \<circ> snd) cs) @ out, x, rest))"
  by (induction cs) (auto simp: run_chunk split: prod.splits)

lemma run_trailer_line:
  assumes "trailer_ok line" and "d_state d = CHUNKED_IN_TRAILERS_LINE_HEAD"
  shows "run_bytes d (line @ 10 # xs) = run_bytes d xs"
proof -
  let ?m = "d\<lparr>d_state := CHUNKED_IN_TRAILERS_LINE_MIDDLE\<rparr>"
  have mid: "run_bytes ?m (ys @ 10 # xs) = run_bytes d xs" if "10 \<notin> set ys" for ys
  proof -
    have "?m\<lparr>d_state := CHUNKED_IN_TRAILERS_LINE_HEAD\<rparr> = d" using assms(2) by simp
    with that show ?thesis
      by (induction ys) (auto simp: byte_step.simps split: prod.splits)
  qed
  show ?thesis
    using assms mid
    by (cases line) (auto simp: trailer_ok_def byte_step.simps split: prod.splits)
qed

lemma run_trailers:
  "list_all trailer_ok lines \<Longrightarrow> d_state d = CHUNKED_IN_TRAILERS_LINE_HEAD \<Longrightarrow>
   run_bytes d (concat (map (\<lambda>l. l @ [10]) lines) @ 13 # 10 # xs) = (d, [], Complete, xs)"
  by (induction lines) (simp_all add: run_trailer_line byte_step.simps)

definition wire_body :: "bool \<Rightarrow> (u8 list \<times> u8 list \<times> u8 list) list \<Rightarrow> u8 list \<Rightarrow> u8 list
    \<Rightarrow> u8 list list \<Rightarrow> u8 list" where
  "wire_body trailer cs digits ext lines =
     concat (map chunk_bytes cs) @ digits @ ext @ [10] @
     (if trailer then concat (map (\<lambda>l. l @ [10]) lines) @ [13, 10] else [])"

lemma run_body:
  assumes "decoder_start d" "list_all chunk_ok cs" "size_line digits ext 0"
    "list_all trailer_ok lines"
  shows "\<exists>d'. run_bytes d (wire_body (consume_trailer d) cs digits ext lines @ rest) =
    (d', concat (map (snd \<circ> snd) cs), Complete, rest)"
proof -
  have zero: "d\<lparr>bytes_left_in_chunk := 0, d_state := st\<rparr> = d\<lparr>d_state := st\<rparr>" for st
    using assms(1) by (simp add: decoder_start_def)
  show ?thesis
    using assms run_size_line [OF assms(3), of d]
      run_trailers [OF assms(4), of "d\<lparr>d_state := CHUNKED_IN_TRAILERS_LINE_HEAD\<rparr>"]
    by (simp add: wire_body_def run_chunks zero decoder_start_def byte_step.simps ext_byte_def)
qed

section \<open>Properties\<close>

text \<open>
  C24: the in-place decoder refines the byte automaton: on every buffer it returns, the first
  \<open>*_bufsz\<close> bytes of the buffer are what the automaton decodes, the bytes not consumed follow
  them, nothing outside the buffer is written, and the return value is the number of bytes not
  consumed, -2 or -1 as the automaton completes, wants more or fails. The decoder stays well
  formed, so the call can be repeated.
\<close>

theorem phr_decode_chunked_refines:
  assumes "decoder_wf d"
  shows "case run_bytes d buf of (d', out, x, rest) \<Rightarrow>
    decoder_wf d' \<and>
    (\<exists>tail. phr_decode_chunked d buf = (d', exit_value x rest, out @ rest @ tail, length out) \<and>
       length (out @ rest @ tail) = length buf)"
proof -
  obtain d1 out x rest where r: "run_bytes d buf = (d1, out, x, rest)" by (cases rule: prod_cases4)
  obtain tail where "phr_decode_chunked d buf =
      (d1, exit_value x rest, out @ rest @ tail, length out)"
    "length out + length rest + length tail = length buf"
    by (rule phr_decode_chunked_run [OF assms r])
  then show ?thesis using run_bytes_wf [OF assms, of buf] r by simp
qed

definition decoder_zero :: phr_chunked_decoder where
  "decoder_zero = \<lparr>bytes_left_in_chunk = 0, consume_trailer = False, d_hex_count = 0,
     d_state = CHUNKED_IN_CHUNK_SIZE\<rparr>"

theorem phr_decode_chunked_refines_witness:
  "decoder_wf decoder_zero \<and>
   (\<exists>tail. phr_decode_chunked decoder_zero [0x32, 0x0d, 0x0a, 0x41] =
      (decoder_zero\<lparr>bytes_left_in_chunk := 1, d_state := CHUNKED_IN_CHUNK_DATA\<rparr>, - 2,
       [0x41] @ [] @ tail, 1) \<and> length ([0x41] @ [] @ tail) = 4)"
  using phr_decode_chunked_refines [of decoder_zero "[0x32, 0x0d, 0x0a, 0x41]"]
  by (simp add: decoder_wf_def decoder_zero_def byte_step.simps ext_byte_def decode_hex_def
      exit_value_def numeral_3_eq_3)

text \<open>
  C25: every well-formed chunked body is decoded to the concatenation of its chunks, however the
  stream is cut into the pieces the routine is called with, and the return value counts the
  bytes that follow the body.
\<close>

theorem chunked_body_decoded:
  assumes "decoder_start d" "list_all chunk_ok cs" "size_line digits ext 0"
    "list_all trailer_ok lines"
    and "concat pieces = wire_body (consume_trailer d) cs digits ext lines @ rest"
  shows "snd (decode_pieces d pieces) = (concat (map (snd \<circ> snd) cs), int (length rest))"
  using run_body [OF assms(1-4), of rest] decode_pieces_run [OF decoder_start_wf, OF assms(1), of pieces]
    assms(5)
  by (auto simp: exit_value_def)

theorem chunked_body_decoded_witness:
  "decoder_start decoder_zero \<and>
   chunk_ok ([0x33], [0x0d], [0x61, 0x62, 0x63]) \<and> size_line [0x30] [0x0d] 0 \<and>
   snd (decode_pieces decoder_zero
     [[0x33, 0x0d], [0x0a, 0x61, 0x62], [0x63, 0x0d, 0x0a, 0x30, 0x0d, 0x0a, 0x5a]])
     = ([0x61, 0x62, 0x63], 1)"
proof -
  have h: "decoder_start decoder_zero"
    "chunk_ok ([0x33], [0x0d], [0x61, 0x62, 0x63])" "size_line [0x30] [0x0d] 0"
    by (simp_all add: decoder_start_def decoder_zero_def size_line_def is_hex_def decode_hex_def
        hex_value_def)
  have "snd (decode_pieces decoder_zero
      [[0x33, 0x0d], [0x0a, 0x61, 0x62], [0x63, 0x0d, 0x0a, 0x30, 0x0d, 0x0a, 0x5a]])
      = (concat (map (snd \<circ> snd) [([0x33 :: u8], [0x0d :: u8], [0x61, 0x62, 0x63])]),
         int (length ([0x5a] :: u8 list)))"
    by (rule chunked_body_decoded [where digits = "[0x30]" and ext = "[0x0d]" and lines = "[]"])
      (use h in \<open>simp_all add: wire_body_def decoder_zero_def\<close>)
  with h show ?thesis by simp
qed

end
