(* ===== verification/Pico_Http.thy ===== *)
theory Pico_Http
  imports Xy_Prelude
begin

text \<open>
  \<open>include/xynet/http/picohttpparser.h\<close>, first half: the request, response and header parsers.
  Pointers into the input are offsets, \<open>buf_end\<close> is the length of the input. Every read goes
  through \<open>rd\<close> and every write to the header array through \<open>put_header\<close>, both of which report an
  access outside the array as \<open>Oob\<close>; a NULL return with \<open>*ret\<close> set is \<open>Ret\<close>.

  The SSE4.2 path is chosen by the preprocessor; here it is the parameter \<open>sse\<close> of the functions
  that contain it, and both paths are shown to agree.
\<close>

section \<open>Data\<close>

datatype 'a pres = Ok 'a | Ret int | Oob

fun bind_pres :: "'a pres \<Rightarrow> ('a \<Rightarrow> 'b pres) \<Rightarrow> 'b pres" where
  "bind_pres (Ok a) k = k a"
| "bind_pres (Ret r) k = Ret r"
| "bind_pres Oob k = Oob"

record phr_header =
  name :: "nat option"
  name_len :: nat
  hvalue :: "nat option"
  value_len :: nat

text \<open>The output parameters of a request parse (the members of \<open>http_parser\<close> they point to).\<close>

record phr_request =
  mp_method :: "nat option"
  m_method_len :: nat
  mp_path :: "nat option"
  m_path_len :: nat
  m_version :: int
  m_headers :: "phr_header list"
  m_headers_num :: nat

text \<open>The output parameters of a response parse.\<close>

record phr_response =
  r_version :: int
  r_status :: int
  r_msg :: "nat option"
  r_msg_len :: nat
  r_headers :: "phr_header list"
  r_headers_num :: nat

section \<open>Reading\<close>

definition rd :: "u8 list \<Rightarrow> nat \<Rightarrow> u8 pres" where
  "rd buf p = (if p < length buf then Ok (buf ! p) else Oob)"

definition IS_PRINTABLE_ASCII :: "u8 \<Rightarrow> bool" where
  "IS_PRINTABLE_ASCII c \<longleftrightarrow> (ucast c - 0x20 :: u32) < 0x5f"

definition CHECK_EOF :: "u8 list \<Rightarrow> nat \<Rightarrow> unit pres" where
  "CHECK_EOF buf p = (if p = length buf then Ret (- 2) else Ok ())"

definition EXPECT_CHAR_NO_CHECK :: "u8 \<Rightarrow> u8 list \<Rightarrow> nat \<Rightarrow> nat pres" where
  "EXPECT_CHAR_NO_CHECK ch buf p =
     bind_pres (rd buf p) (\<lambda>c. if c \<noteq> ch then Ret (- 1) else Ok (p + 1))"

definition EXPECT_CHAR :: "u8 \<Rightarrow> u8 list \<Rightarrow> nat \<Rightarrow> nat pres" where
  "EXPECT_CHAR ch buf p =
     bind_pres (CHECK_EOF buf p) (\<lambda>_. EXPECT_CHAR_NO_CHECK ch buf p)"

text \<open>
  The character loops \<open>for (;; ++buf) { CHECK_EOF(); ... }\<close> leave at a byte, reject it or skip
  it. \<open>scan_here\<close> is the same loop entered behind the check, as \<open>while (1) { ...; ++buf;
  CHECK_EOF(); }\<close> is.
\<close>

datatype verdict = Stop | Reject | Skip

function scan_loop :: "(u8 \<Rightarrow> verdict) \<Rightarrow> u8 list \<Rightarrow> nat \<Rightarrow> nat pres" where
  "scan_loop f buf p =
     (if p = length buf then Ret (- 2)
      else if length buf < p then Oob
      else case f (buf ! p) of
        Stop \<Rightarrow> Ok p
      | Reject \<Rightarrow> Ret (- 1)
      | Skip \<Rightarrow> scan_loop f buf (p + 1))"
  by pat_completeness auto
termination by (relation "measure (\<lambda>(f, buf, p). length buf - p)") auto

declare scan_loop.simps [simp del]

definition scan_here :: "(u8 \<Rightarrow> verdict) \<Rightarrow> u8 list \<Rightarrow> nat \<Rightarrow> nat pres" where
  "scan_here f buf p =
     bind_pres (rd buf p) (\<lambda>c.
       case f c of Stop \<Rightarrow> Ok p | Reject \<Rightarrow> Ret (- 1) | Skip \<Rightarrow> scan_loop f buf (p + 1))"

section \<open>The SSE4.2 scan\<close>

type_synonym ranges = "(u8 \<times> u8) list"

definition in_ranges :: "ranges \<Rightarrow> u8 \<Rightarrow> bool" where
  "in_ranges rs c \<longleftrightarrow> list_ex (\<lambda>(lo, hi). lo \<le> c \<and> c \<le> hi) rs"

text \<open>
  \<open>_mm_loadu_si128\<close> followed by \<open>_mm_cmpestri\<close> with \<open>_SIDD_CMP_RANGES\<close>: the index of the first of
  the 16 bytes that lies in one of the ranges, or 16.
\<close>

definition cmpestri :: "ranges \<Rightarrow> u8 list \<Rightarrow> nat \<Rightarrow> nat pres" where
  "cmpestri rs buf p =
     (if p + 16 \<le> length buf
      then Ok (length (takeWhile (\<lambda>c. \<not> in_ranges rs c) (take 16 (drop p buf))))
      else Oob)"

function findchar_loop :: "ranges \<Rightarrow> u8 list \<Rightarrow> nat \<Rightarrow> nat \<Rightarrow> (nat \<times> bool) pres" where
  "findchar_loop rs buf p left =
     bind_pres (cmpestri rs buf p) (\<lambda>r.
       if r \<noteq> 16 then Ok (p + r, True)
       else if left - 16 = 0 then Ok (p + 16, False)
       else findchar_loop rs buf (p + 16) (left - 16))"
  by pat_completeness auto
termination by (relation "measure (\<lambda>(rs, buf, p, left). left)") auto

declare findchar_loop.simps [simp del]

definition findchar_fast :: "bool \<Rightarrow> u8 list \<Rightarrow> nat \<Rightarrow> ranges \<Rightarrow> (nat \<times> bool) pres" where
  "findchar_fast sse buf p rs =
     (if sse \<and> 16 \<le> length buf - p
      then findchar_loop rs buf p ((length buf - p) div 16 * 16)
      else Ok (p, False))"

section \<open>Lines and tokens\<close>

text \<open>The bytes that end a header value: control characters other than HT, and DEL.\<close>

definition ctl_to_eol :: "u8 \<Rightarrow> bool" where
  "ctl_to_eol c \<longleftrightarrow> (c < 0x20 \<and> c \<noteq> 0x09) \<or> c = 0x7f"

definition eol_class :: "u8 \<Rightarrow> verdict" where
  "eol_class c = (if \<not> IS_PRINTABLE_ASCII c \<and> ctl_to_eol c then Stop else Skip)"

text \<open>
  The hand-unrolled loop of \<open>get_token_to_eol\<close>: eight \<open>DOIT\<close> steps per round. \<open>Inl\<close> is the jump to
  \<open>NonPrintable\<close>, \<open>Inr\<close> the end of the round.
\<close>

fun doit :: "nat \<Rightarrow> u8 list \<Rightarrow> nat \<Rightarrow> (nat + nat) pres" where
  "doit 0 buf p = Ok (Inr p)"
| "doit (Suc n) buf p =
     bind_pres (rd buf p) (\<lambda>c. if \<not> IS_PRINTABLE_ASCII c then Ok (Inl p) else doit n buf (p + 1))"

text \<open>\<open>Inl\<close> is the jump to \<open>FOUND_CTL\<close>, \<open>Inr\<close> the normal end of the loop.\<close>

lemma doit_ge: "doit n buf p = Ok r \<Longrightarrow> (case r of Inl q \<Rightarrow> p \<le> q \<and> q < p + n | Inr q \<Rightarrow> q = p + n)"
proof (induction n arbitrary: p)
  case (Suc n)
  then show ?case
    by (auto simp: rd_def split: if_splits sum.splits) (fastforce dest: Suc.IH)+
qed auto

function eol_fast :: "u8 list \<Rightarrow> nat \<Rightarrow> (nat + nat) pres" where
  "eol_fast buf p =
     (if 8 \<le> length buf - p
      then case doit 8 buf p of
          Ok (Inr q) \<Rightarrow> eol_fast buf q
        | Ok (Inl q) \<Rightarrow>
            bind_pres (rd buf q) (\<lambda>c. if ctl_to_eol c then Ok (Inl q) else eol_fast buf (q + 1))
        | Ret r \<Rightarrow> Ret r
        | Oob \<Rightarrow> Oob
      else Ok (Inr p))"
  by pat_completeness auto
termination
  by (relation "measure (\<lambda>(buf, p). length buf - p)") (auto dest!: doit_ge)

declare eol_fast.simps [simp del]

definition eol_ranges :: ranges where
  "eol_ranges = [(0, 8), (0x0a, 0x1f), (0x7f, 0x7f)]"

text \<open>Where \<open>get_token_to_eol\<close> reaches \<open>FOUND_CTL\<close>.\<close>

definition find_ctl :: "bool \<Rightarrow> u8 list \<Rightarrow> nat \<Rightarrow> nat pres" where
  "find_ctl sse buf p =
     (if sse
      then bind_pres (findchar_fast sse buf p eol_ranges) (\<lambda>(q, found).
             if found then Ok q else scan_loop eol_class buf q)
      else bind_pres (eol_fast buf p) (\<lambda>r.
             case r of Inl q \<Rightarrow> Ok q | Inr q \<Rightarrow> scan_loop eol_class buf q))"

text \<open>The token, as start and length, and the position behind the line end.\<close>

definition get_token_to_eol :: "bool \<Rightarrow> u8 list \<Rightarrow> nat \<Rightarrow> ((nat \<times> nat) \<times> nat) pres" where
  "get_token_to_eol sse buf p =
     bind_pres (find_ctl sse buf p) (\<lambda>q.
     bind_pres (rd buf q) (\<lambda>c.
       if c = 13 then bind_pres (EXPECT_CHAR 10 buf (q + 1)) (\<lambda>e. Ok ((p, e - 2 - p), e))
       else if c = 10 then Ok ((p, q - p), q + 1)
       else Ret (- 1)))"

definition token_class :: "u8 \<Rightarrow> verdict" where
  "token_class c =
     (if c = 0x20 then Stop
      else if \<not> IS_PRINTABLE_ASCII c then
        (if c < 0x20 \<or> c = 0x7f then Reject else Skip)
      else Skip)"

definition token_ranges :: ranges where
  "token_ranges = [(0, 0x20), (0x7f, 0x7f)]"

text \<open>The start of \<open>ADVANCE_TOKEN\<close> and of the header name: the fast scan, then the exact loop.\<close>

definition fast_then_scan :: "bool \<Rightarrow> ranges \<Rightarrow> (u8 \<Rightarrow> verdict) \<Rightarrow> u8 list \<Rightarrow> nat \<Rightarrow> nat pres" where
  "fast_then_scan sse rs f buf p =
     bind_pres (findchar_fast sse buf p rs) (\<lambda>(q, found).
     bind_pres (if \<not> found then CHECK_EOF buf q else Ok ()) (\<lambda>_. scan_here f buf q))"

text \<open>\<open>ADVANCE_TOKEN\<close> gives the token and the position of the space that ends it.\<close>

definition ADVANCE_TOKEN :: "bool \<Rightarrow> u8 list \<Rightarrow> nat \<Rightarrow> ((nat \<times> nat) \<times> nat) pres" where
  "ADVANCE_TOKEN sse buf p =
     bind_pres (fast_then_scan sse token_ranges token_class buf p) (\<lambda>q. Ok ((p, q - p), q))"

text \<open>\<open>do { ++buf; } while (*buf == ' ');\<close> reads without a check.\<close>

function skip_sp :: "u8 list \<Rightarrow> nat \<Rightarrow> nat pres" where
  "skip_sp buf p =
     (case rd buf (p + 1) of
        Ok c \<Rightarrow> if c = 0x20 then skip_sp buf (p + 1) else Ok (p + 1)
      | Ret r \<Rightarrow> Ret r
      | Oob \<Rightarrow> Oob)"
  by pat_completeness auto
termination
  by (relation "measure (\<lambda>(buf, p). length buf - p)") (auto simp: rd_def split: if_splits)

declare skip_sp.simps [simp del]

definition token_char_map :: "nat list" where
  "token_char_map =
     replicate 32 0 @
     [0,1,0,1,1,1,1,1,0,0,1,1,0,1,1,0,1,1,1,1,1,1,1,1,1,1,0,0,0,0,0,0] @
     [0,1,1,1,1,1,1,1,1,1,1,1,1,1,1,1,1,1,1,1,1,1,1,1,1,1,1,0,0,0,1,1] @
     [1,1,1,1,1,1,1,1,1,1,1,1,1,1,1,1,1,1,1,1,1,1,1,1,1,1,1,0,1,0,1,0] @
     replicate 32 0 @ replicate 32 0 @ replicate 32 0 @ replicate 32 0"

definition is_complete_from :: "nat \<Rightarrow> nat" where
  "is_complete_from last_len = (if last_len < 3 then 0 else last_len - 3)"

function is_complete_loop :: "u8 list \<Rightarrow> nat \<Rightarrow> nat \<Rightarrow> nat pres" where
  "is_complete_loop buf p ret_cnt =
     (if p = length buf then Ret (- 2)
      else if length buf < p then Oob
      else if buf ! p = 13 then
        (if p + 1 = length buf then Ret (- 2)
         else if buf ! (p + 1) \<noteq> 10 then Ret (- 1)
         else if ret_cnt + 1 = 2 then Ok (p + 2)
         else is_complete_loop buf (p + 2) (ret_cnt + 1))
      else if buf ! p = 10 then
        (if ret_cnt + 1 = 2 then Ok (p + 1) else is_complete_loop buf (p + 1) (ret_cnt + 1))
      else is_complete_loop buf (p + 1) 0)"
  by pat_completeness auto
termination by (relation "measure (\<lambda>(buf, p, ret_cnt). length buf - p)") auto

declare is_complete_loop.simps [simp del]

definition is_complete :: "u8 list \<Rightarrow> nat \<Rightarrow> nat pres" where
  "is_complete buf last_len = is_complete_loop buf (is_complete_from last_len) 0"

text \<open>\<open>PARSE_INT\<close>: characters are signed.\<close>

definition PARSE_INT :: "int \<Rightarrow> u8 list \<Rightarrow> nat \<Rightarrow> (int \<times> nat) pres" where
  "PARSE_INT mul buf p =
     bind_pres (rd buf p) (\<lambda>c.
       if sint c < 48 \<or> 57 < sint c then Ret (- 1) else Ok (mul * (sint c - 48), p + 1))"

fun expect_chars :: "u8 list \<Rightarrow> u8 list \<Rightarrow> nat \<Rightarrow> nat pres" where
  "expect_chars [] buf p = Ok p"
| "expect_chars (ch # chs) buf p =
     bind_pres (EXPECT_CHAR_NO_CHECK ch buf p) (\<lambda>q. expect_chars chs buf q)"

text \<open>The bytes of \<open>HTTP/1.\<close>\<close>

definition http_1 :: "u8 list" where
  "http_1 = [0x48, 0x54, 0x54, 0x50, 0x2f, 0x31, 0x2e]"

definition parse_http_version :: "u8 list \<Rightarrow> nat \<Rightarrow> (int \<times> nat) pres" where
  "parse_http_version buf p =
     (if length buf - p < 9 then Ret (- 2)
      else bind_pres (expect_chars http_1 buf p) (\<lambda>q. PARSE_INT 1 buf q))"

section \<open>Headers\<close>

definition put_field :: "nat \<Rightarrow> (phr_header \<Rightarrow> phr_header) \<Rightarrow> phr_header list \<Rightarrow> phr_header list pres" where
  "put_field i f hs = (if i < length hs then Ok (hs[i := f (hs ! i)]) else Oob)"

text \<open>A failure keeps what has been stored in the output parameters so far.\<close>

definition with_out :: "'o \<Rightarrow> 'a pres \<Rightarrow> ('a \<Rightarrow> 'o \<times> 'b pres) \<Rightarrow> 'o \<times> 'b pres" where
  "with_out out r k = (case r of Ok a \<Rightarrow> k a | Ret n \<Rightarrow> (out, Ret n) | Oob \<Rightarrow> (out, Oob))"

definition name_ranges :: ranges where
  "name_ranges = [(0, 0x20), (0x22, 0x22), (0x28, 0x29), (0x2c, 0x2c), (0x2f, 0x2f),
     (0x3a, 0x40), (0x5b, 0x5d), (0x7b, 0xff)]"

definition name_class :: "u8 \<Rightarrow> verdict" where
  "name_class c =
     (if c = 0x3a then Stop else if token_char_map ! unat c = 0 then Reject else Skip)"

definition ws_class :: "u8 \<Rightarrow> verdict" where
  "ws_class c = (if c = 0x20 \<or> c = 0x09 then Skip else Stop)"

text \<open>Trailing spaces and tabs of the value are removed.\<close>

fun trim_value :: "u8 list \<Rightarrow> nat \<Rightarrow> nat \<Rightarrow> nat" where
  "trim_value buf v 0 = 0"
| "trim_value buf v (Suc n) =
     (if buf ! (v + n) = 0x20 \<or> buf ! (v + n) = 0x09 then trim_value buf v n else Suc n)"

definition parse_value :: "bool \<Rightarrow> u8 list \<Rightarrow> nat \<Rightarrow> phr_header list \<Rightarrow> nat
    \<Rightarrow> phr_header list \<times> nat pres" where
  "parse_value sse buf num hs p =
     with_out hs (get_token_to_eol sse buf p) (\<lambda>((v, v_len), e).
     with_out hs (put_field num (\<lambda>h. h\<lparr>hvalue := Some v, value_len := trim_value buf v v_len\<rparr>) hs)
       (\<lambda>hs. (hs, Ok e)))"

text \<open>The body of the loop for the header at \<open>p\<close>, from the test of its first byte on.\<close>

definition parse_header :: "bool \<Rightarrow> u8 list \<Rightarrow> nat \<Rightarrow> phr_header list \<Rightarrow> nat
    \<Rightarrow> phr_header list \<times> nat pres" where
  "parse_header sse buf num hs p =
     with_out hs (rd buf p) (\<lambda>c.
       if \<not> (num \<noteq> 0 \<and> (c = 0x20 \<or> c = 0x09))
       then
         with_out hs (put_field num (\<lambda>h. h\<lparr>name := Some p\<rparr>) hs) (\<lambda>hs.
         with_out hs (fast_then_scan sse name_ranges name_class buf p) (\<lambda>q.
         with_out hs (put_field num (\<lambda>h. h\<lparr>name_len := q - p\<rparr>) hs) (\<lambda>hs.
           if q - p = 0 then (hs, Ret (- 1))
           else with_out hs (scan_loop ws_class buf (q + 1)) (\<lambda>v. parse_value sse buf num hs v))))
       else
         with_out hs (put_field num (\<lambda>h. h\<lparr>name := None, name_len := 0\<rparr>) hs) (\<lambda>hs.
           parse_value sse buf num hs p))"

subsection \<open>Progress of the scanners\<close>

lemma bind_pres_Ok [simp]: "bind_pres r k = Ok b \<longleftrightarrow> (\<exists>a. r = Ok a \<and> k a = Ok b)"
  by (cases r) auto

lemma rd_Ok [simp]: "rd buf p = Ok c \<longleftrightarrow> p < length buf \<and> c = buf ! p"
  by (auto simp: rd_def)

lemma rd_in [simp]: "p < length buf \<Longrightarrow> rd buf p = Ok (buf ! p)"
  by simp

lemma rd_Ret [simp]: "rd buf p \<noteq> Ret r"
  by (simp add: rd_def)

lemma EXPECT_CHAR_Ok [simp]:
  "EXPECT_CHAR ch buf p = Ok q \<longleftrightarrow> p < length buf \<and> buf ! p = ch \<and> q = p + 1"
  by (auto simp: EXPECT_CHAR_def EXPECT_CHAR_NO_CHECK_def CHECK_EOF_def)

lemma scan_loop_Ok: "scan_loop f buf p = Ok q \<Longrightarrow> p \<le> q \<and> q < length buf \<and> f (buf ! q) = Stop"
  by (induction f buf p rule: scan_loop.induct)
    (subst (asm) (2) scan_loop.simps, auto split: if_splits verdict.splits)

lemma scan_here_Ok: "scan_here f buf p = Ok q \<Longrightarrow> p \<le> q \<and> q < length buf \<and> f (buf ! q) = Stop"
  by (auto simp: scan_here_def split: verdict.splits dest!: scan_loop_Ok)

lemma findchar_loop_ge: "findchar_loop rs buf p left = Ok (q, b) \<Longrightarrow> p \<le> q"
proof (induction rs buf p left rule: findchar_loop.induct)
  case (1 rs buf p left)
  show ?case
    using "1.prems" "1.IH" by (subst (asm) findchar_loop.simps) (fastforce split: if_splits)
qed

lemma findchar_fast_ge: "findchar_fast sse buf p rs = Ok (q, b) \<Longrightarrow> p \<le> q"
  by (auto simp: findchar_fast_def split: if_splits dest: findchar_loop_ge)

lemma with_out_Ok [simp]: "with_out out r k = (out', Ok b) \<longleftrightarrow> (\<exists>a. r = Ok a \<and> k a = (out', Ok b))"
  by (cases r) (auto simp: with_out_def)

lemma with_out_simps [simp]:
  "with_out out (Ok a) k = k a" "with_out out (Ret n) k = (out, Ret n)" "with_out out Oob k = (out, Oob)"
  by (simp_all add: with_out_def)

lemma put_field_Ok [simp]: "put_field i f hs = Ok hs' \<longleftrightarrow> i < length hs \<and> hs' = hs[i := f (hs ! i)]"
  by (auto simp: put_field_def)

lemma fast_then_scan_Ok:
  "fast_then_scan sse rs f buf p = Ok q \<Longrightarrow> p \<le> q \<and> q < length buf \<and> f (buf ! q) = Stop"
  by (auto simp: fast_then_scan_def split: prod.splits dest!: findchar_fast_ge scan_here_Ok)

lemma eol_fast_ge: "eol_fast buf p = Ok r \<Longrightarrow> p \<le> case_sum id id r"
proof (induction buf p rule: eol_fast.induct)
  case (1 buf p)
  show ?case
  proof (cases "8 \<le> length buf - p")
    case True
    obtain x where x: "doit 8 buf p = Ok x"
      using "1.prems" True by (auto simp: eol_fast.simps [of buf p] split: pres.splits)
    note ge = doit_ge [OF x]
    show ?thesis
    proof (cases x)
      case (Inl q)
      with "1.prems" "1.IH"(1) [OF True x Inl, of "buf ! q"] ge show ?thesis
        by (auto simp: eol_fast.simps [of buf p] True x split: if_splits)
    next
      case (Inr q)
      with "1.prems" "1.IH"(2) [OF True x Inr] ge show ?thesis
        by (auto simp: eol_fast.simps [of buf p] True x)
    qed
  qed (use "1.prems" in \<open>auto simp: eol_fast.simps [of buf p]\<close>)
qed

lemma find_ctl_ge: "find_ctl sse buf p = Ok q \<Longrightarrow> p \<le> q"
  by (auto simp: find_ctl_def sum.case_eq_if split: if_splits
      dest!: findchar_fast_ge scan_loop_Ok eol_fast_ge)

lemma get_token_to_eol_Ok:
  "get_token_to_eol sse buf p = Ok ((v, n), e) \<Longrightarrow> v = p \<and> p + n < e \<and> e \<le> length buf"
  by (auto simp: get_token_to_eol_def split: if_splits dest!: find_ctl_ge)

lemma parse_value_Ok:
  "parse_value sse buf num hs p = (hs', Ok e) \<Longrightarrow> p < e \<and> e \<le> length buf \<and> length hs' = length hs"
  by (auto simp: parse_value_def dest!: get_token_to_eol_Ok)

lemma parse_header_Ok:
  "parse_header sse buf num hs p = (hs', Ok e) \<Longrightarrow>
   p < e \<and> e \<le> length buf \<and> length hs' = length hs \<and> num < length hs"
  by (fastforce simp: parse_header_def split: if_splits
      dest!: parse_value_Ok fast_then_scan_Ok scan_loop_Ok)

section \<open>Messages\<close>

text \<open>The loop over the headers; the array and the count are output parameters.\<close>

function parse_headers :: "bool \<Rightarrow> u8 list \<Rightarrow> nat \<Rightarrow> phr_header list \<Rightarrow> nat \<Rightarrow> nat
    \<Rightarrow> (phr_header list \<times> nat) \<times> nat pres" where
  "parse_headers sse buf max_headers hs num p =
     (if p = length buf then ((hs, num), Ret (- 2))
      else if length buf < p then ((hs, num), Oob)
      else if buf ! p = 13 then ((hs, num), EXPECT_CHAR 10 buf (p + 1))
      else if buf ! p = 10 then ((hs, num), Ok (p + 1))
      else if num = max_headers then ((hs, num), Ret (- 1))
      else case parse_header sse buf num hs p of
          (hs', Ok e) \<Rightarrow> parse_headers sse buf max_headers hs' (num + 1) e
        | (hs', Ret r) \<Rightarrow> ((hs', num), Ret r)
        | (hs', Oob) \<Rightarrow> ((hs', num), Oob))"
  by pat_completeness auto
termination
  by (relation "measure (\<lambda>(sse, buf, max_headers, hs, num, p). length buf - p)")
    (auto dest!: parse_header_Ok [OF sym])

declare parse_headers.simps [simp del]

definition skip_line_end :: "u8 list \<Rightarrow> nat \<Rightarrow> u8 \<Rightarrow> nat pres \<Rightarrow> nat pres" where
  "skip_line_end buf p c otherwise =
     (if c = 13 then EXPECT_CHAR 10 buf (p + 1) else if c = 10 then Ok (p + 1) else otherwise)"

text \<open>
  The two loops that skip spaces do not test for \<open>buf_end\<close>, so what they do can depend on the
  memory behind the input: \<open>behind\<close> is the part of it that may be read, because it belongs to
  the same array. A token that would start behind \<open>buf_end\<close> counts as leaving the buffer: all
  tests for the end have been jumped over. \<open>parse_request\<close> is the case where nothing behind
  the input may be read.
\<close>

definition parse_request_mem ::
  "bool \<Rightarrow> u8 list \<Rightarrow> u8 list \<Rightarrow> nat \<Rightarrow> phr_request \<Rightarrow> nat \<Rightarrow> phr_request \<times> nat pres" where
  "parse_request_mem sse behind buf max_headers out p =
     with_out out (CHECK_EOF buf p) (\<lambda>_.
     with_out out (rd buf p) (\<lambda>c.
     with_out out (skip_line_end buf p c (Ok p)) (\<lambda>p.
     with_out out (ADVANCE_TOKEN sse buf p) (\<lambda>((m, m_len), p).
       let out = out\<lparr>mp_method := Some m, m_method_len := m_len\<rparr> in
     with_out out (skip_sp (buf @ behind) p) (\<lambda>p.
     with_out out (ADVANCE_TOKEN sse buf p) (\<lambda>((t, t_len), p).
       let out = out\<lparr>mp_path := Some t, m_path_len := t_len\<rparr> in
     with_out out (skip_sp (buf @ behind) p) (\<lambda>p.
       if m_method_len out = 0 \<or> m_path_len out = 0 then (out, Ret (- 1))
       else
     with_out out (parse_http_version buf p) (\<lambda>(v, p).
       let out = out\<lparr>m_version := v\<rparr> in
     with_out out (rd buf p) (\<lambda>c.
     with_out out (skip_line_end buf p c (Ret (- 1))) (\<lambda>p.
       case parse_headers sse buf max_headers (m_headers out) (m_headers_num out) p of
         ((hs, num), r) \<Rightarrow> (out\<lparr>m_headers := hs, m_headers_num := num\<rparr>, r)))))))))))"

definition parse_request :: "bool \<Rightarrow> u8 list \<Rightarrow> nat \<Rightarrow> phr_request \<Rightarrow> nat \<Rightarrow> phr_request \<times> nat pres" where
  "parse_request sse buf max_headers out p = parse_request_mem sse [] buf max_headers out p"

lemma parse_request_eq:
  "parse_request sse buf max_headers out p =
     with_out out (CHECK_EOF buf p) (\<lambda>_.
     with_out out (rd buf p) (\<lambda>c.
     with_out out (skip_line_end buf p c (Ok p)) (\<lambda>p.
     with_out out (ADVANCE_TOKEN sse buf p) (\<lambda>((m, m_len), p).
       let out = out\<lparr>mp_method := Some m, m_method_len := m_len\<rparr> in
     with_out out (skip_sp buf p) (\<lambda>p.
     with_out out (ADVANCE_TOKEN sse buf p) (\<lambda>((t, t_len), p).
       let out = out\<lparr>mp_path := Some t, m_path_len := t_len\<rparr> in
     with_out out (skip_sp buf p) (\<lambda>p.
       if m_method_len out = 0 \<or> m_path_len out = 0 then (out, Ret (- 1))
       else
     with_out out (parse_http_version buf p) (\<lambda>(v, p).
       let out = out\<lparr>m_version := v\<rparr> in
     with_out out (rd buf p) (\<lambda>c.
     with_out out (skip_line_end buf p c (Ret (- 1))) (\<lambda>p.
       case parse_headers sse buf max_headers (m_headers out) (m_headers_num out) p of
         ((hs, num), r) \<Rightarrow> (out\<lparr>m_headers := hs, m_headers_num := num\<rparr>, r)))))))))))"
  by (simp add: parse_request_def parse_request_mem_def)

text \<open>\<open>(int)(buf - buf_start)\<close>.\<close>

definition ret_int :: "nat pres \<Rightarrow> int checked" where
  "ret_int r =
     (case r of Ok n \<Rightarrow> Val (sint (of_nat n :: c_int)) | Ret k \<Rightarrow> Val k | Oob \<Rightarrow> Undefined)"

text \<open>The fast check for a complete message, made when the caller has tried before.\<close>

definition check_complete :: "u8 list \<Rightarrow> nat \<Rightarrow> unit pres" where
  "check_complete buf last_len =
     (if last_len \<noteq> 0 then bind_pres (is_complete buf last_len) (\<lambda>_. Ok ()) else Ok ())"

definition phr_parse_request_mem ::
  "bool \<Rightarrow> u8 list \<Rightarrow> u8 list \<Rightarrow> phr_request \<Rightarrow> nat \<Rightarrow> phr_request \<times> int checked" where
  "phr_parse_request_mem sse behind buf out last_len =
     (let max_headers = m_headers_num out;
          out = out\<lparr>mp_method := None, m_method_len := 0, mp_path := None, m_path_len := 0,
                    m_version := - 1, m_headers_num := 0\<rparr>
      in apsnd ret_int
        (with_out out (check_complete buf last_len)
          (\<lambda>_. parse_request_mem sse behind buf max_headers out 0)))"

definition phr_parse_request :: "bool \<Rightarrow> u8 list \<Rightarrow> phr_request \<Rightarrow> nat \<Rightarrow> phr_request \<times> int checked" where
  "phr_parse_request sse buf out last_len = phr_parse_request_mem sse [] buf out last_len"

lemma phr_parse_request_eq:
  "phr_parse_request sse buf out last_len =
     (let max_headers = m_headers_num out;
          out = out\<lparr>mp_method := None, m_method_len := 0, mp_path := None, m_path_len := 0,
                    m_version := - 1, m_headers_num := 0\<rparr>
      in apsnd ret_int
        (with_out out (check_complete buf last_len)
          (\<lambda>_. parse_request sse buf max_headers out 0)))"
  by (simp add: phr_parse_request_def phr_parse_request_mem_def parse_request_def)

section \<open>Responses\<close>

text \<open>\<open>PARSE_INT_3\<close> stores the digits seen so far.\<close>

definition PARSE_INT_3 :: "u8 list \<Rightarrow> phr_response \<Rightarrow> nat \<Rightarrow> phr_response \<times> nat pres" where
  "PARSE_INT_3 buf out p =
     with_out out (PARSE_INT 100 buf p) (\<lambda>(res, p).
       let out = out\<lparr>r_status := res\<rparr> in
     with_out out (PARSE_INT 10 buf p) (\<lambda>(res, p).
       let out = out\<lparr>r_status := r_status out + res\<rparr> in
     with_out out (PARSE_INT 1 buf p) (\<lambda>(res, p).
       (out\<lparr>r_status := r_status out + res\<rparr>, Ok p))))"

text \<open>\<open>do { ++*msg; --*msg_len; } while (**msg == ' ');\<close> with the wrap-around of \<open>size_t\<close>.\<close>

function trim_msg :: "u8 list \<Rightarrow> nat \<Rightarrow> size_t \<Rightarrow> (nat \<times> size_t) pres" where
  "trim_msg buf msg len =
     (case rd buf (msg + 1) of
        Ok c \<Rightarrow> if c = 0x20 then trim_msg buf (msg + 1) (len - 1) else Ok (msg + 1, len - 1)
      | Ret r \<Rightarrow> Ret r
      | Oob \<Rightarrow> Oob)"
  by pat_completeness auto
termination
  by (relation "measure (\<lambda>(buf, msg, len). length buf - msg)") auto

declare trim_msg.simps [simp del]

definition parse_response :: "bool \<Rightarrow> u8 list \<Rightarrow> nat \<Rightarrow> phr_response \<Rightarrow> nat \<Rightarrow> phr_response \<times> nat pres" where
  "parse_response sse buf max_headers out p =
     with_out out (parse_http_version buf p) (\<lambda>(v, p).
       let out = out\<lparr>r_version := v\<rparr> in
     with_out out (rd buf p) (\<lambda>c.
       if c \<noteq> 0x20 then (out, Ret (- 1))
       else
     with_out out (skip_sp buf p) (\<lambda>p.
       if length buf - p < 4 then (out, Ret (- 2))
       else case PARSE_INT_3 buf out p of
         (out, Ret r) \<Rightarrow> (out, Ret r)
       | (out, Oob) \<Rightarrow> (out, Oob)
       | (out, Ok p) \<Rightarrow>
     with_out out (get_token_to_eol sse buf p) (\<lambda>((msg, len), e).
       let out = out\<lparr>r_msg := Some msg, r_msg_len := len\<rparr> in
     with_out out
       (if len = 0 then Ok (msg, 0)
        else bind_pres (rd buf msg) (\<lambda>c.
          if c = 0x20 then trim_msg buf msg (of_nat len) else Ret (- 1))) (\<lambda>(msg, len).
       let out = out\<lparr>r_msg := Some msg, r_msg_len := unat len\<rparr> in
       case parse_headers sse buf max_headers (r_headers out) (r_headers_num out) e of
         ((hs, num), r) \<Rightarrow> (out\<lparr>r_headers := hs, r_headers_num := num\<rparr>, r))))))"

definition phr_parse_response :: "bool \<Rightarrow> u8 list \<Rightarrow> phr_response \<Rightarrow> nat \<Rightarrow> phr_response \<times> int checked" where
  "phr_parse_response sse buf out last_len =
     (let max_headers = r_headers_num out;
          out = out\<lparr>r_version := - 1, r_status := 0, r_msg := None, r_msg_len := 0,
                    r_headers_num := 0\<rparr>
      in apsnd ret_int
        (with_out out (check_complete buf last_len)
          (\<lambda>_. parse_response sse buf max_headers out 0)))"

definition phr_parse_headers :: "bool \<Rightarrow> u8 list \<Rightarrow> phr_header list \<Rightarrow> nat \<Rightarrow> nat
    \<Rightarrow> (phr_header list \<times> nat) \<times> int checked" where
  "phr_parse_headers sse buf hs max_headers last_len =
     apsnd ret_int
       (with_out (hs, 0) (check_complete buf last_len)
         (\<lambda>_. parse_headers sse buf max_headers hs 0 0))"

section \<open>The fast paths agree with the plain loops\<close>

text \<open>A scan that starts late gives the same result when the bytes it jumps over are skipped.\<close>

lemma scan_loop_jump:
  assumes "p \<le> q" "q \<le> length buf" and "\<And>i. p \<le> i \<Longrightarrow> i < q \<Longrightarrow> f (buf ! i) = Skip"
  shows "scan_loop f buf p = scan_loop f buf q"
  using assms
proof (induction "q - p" arbitrary: p)
  case (Suc n)
  have "p < length buf" "f (buf ! p) = Skip" using Suc.prems Suc.hyps(2) by auto
  then have "scan_loop f buf p = scan_loop f buf (p + 1)"
    by (subst scan_loop.simps) simp
  also have "\<dots> = scan_loop f buf q"
    by (rule Suc.hyps(1)) (use Suc.prems Suc.hyps(2) in auto)
  finally show ?case .
qed simp

lemma scan_here_loop: "p < length buf \<Longrightarrow> scan_here f buf p = scan_loop f buf p"
  by (subst scan_loop.simps) (simp add: scan_here_def)

text \<open>What the fast scan finds: every byte before the result is outside the ranges.\<close>

lemma takeWhile_nth_not:
  "i < length (takeWhile P xs) \<Longrightarrow> P (xs ! i)"
  by (metis nth_mem set_takeWhileD takeWhile_nth)

lemma cmpestri_Ok:
  assumes "p + 16 \<le> length buf"
  obtains r where "cmpestri rs buf p = Ok r" "r \<le> 16"
    "\<And>i. p \<le> i \<Longrightarrow> i < p + r \<Longrightarrow> \<not> in_ranges rs (buf ! i)"
    "r \<noteq> 16 \<Longrightarrow> in_ranges rs (buf ! (p + r))"
proof
  let ?P = "\<lambda>c. \<not> in_ranges rs c" and ?xs = "take 16 (drop p buf)"
  let ?r = "length (takeWhile ?P ?xs)"
  have len: "length ?xs = 16" using assms by simp
  show "cmpestri rs buf p = Ok ?r" using assms by (simp add: cmpestri_def)
  show r: "?r \<le> 16" using length_takeWhile_le [of ?P ?xs] len by simp
  show "\<not> in_ranges rs (buf ! i)" if "p \<le> i" "i < p + ?r" for i
    using takeWhile_nth_not [of "i - p" ?P ?xs] that r assms by simp
  show "in_ranges rs (buf ! (p + ?r))" if "?r \<noteq> 16"
    using nth_length_takeWhile [of ?P ?xs] that r len assms by simp
qed

lemma findchar_loop_correct:
  assumes "left mod 16 = 0" "0 < left" "p + left \<le> length buf"
  obtains q found where "findchar_loop rs buf p left = Ok (q, found)" "p \<le> q" "q \<le> length buf"
    "\<And>i. p \<le> i \<Longrightarrow> i < q \<Longrightarrow> \<not> in_ranges rs (buf ! i)"
    "found \<Longrightarrow> q < length buf \<and> in_ranges rs (buf ! q)"
  using assms
proof (induction rs buf p left arbitrary: thesis rule: findchar_loop.induct)
  case (1 rs buf p left)
  have "16 \<le> left" using "1.prems"(2,3) by presburger
  with "1.prems"(4) have "p + 16 \<le> length buf" by simp
  then obtain r where r: "cmpestri rs buf p = Ok r" "r \<le> 16"
    "\<And>i. p \<le> i \<Longrightarrow> i < p + r \<Longrightarrow> \<not> in_ranges rs (buf ! i)"
    "r \<noteq> 16 \<Longrightarrow> in_ranges rs (buf ! (p + r))"
    by (rule cmpestri_Ok [where rs = rs]) blast
  consider "r \<noteq> 16" | "r = 16" "left - 16 = 0" | "r = 16" "left - 16 \<noteq> 0" by blast
  then show ?case
  proof cases
    case 1
    with r \<open>p + 16 \<le> length buf\<close> show ?thesis
      by (intro "1.prems"(1) [of "p + r" True]) (auto simp: findchar_loop.simps [of rs buf p])
  next
    case 2
    with r \<open>p + 16 \<le> length buf\<close> show ?thesis
      by (intro "1.prems"(1) [of "p + 16" False]) (auto simp: findchar_loop.simps [of rs buf p])
  next
    case 3
    have "(left - 16) mod 16 = 0" "0 < left - 16" "p + 16 + (left - 16) \<le> length buf"
      using "1.prems"(2,4) 3 \<open>16 \<le> left\<close> by presburger+
    then obtain q found where q: "findchar_loop rs buf (p + 16) (left - 16) = Ok (q, found)"
      "p + 16 \<le> q" "q \<le> length buf"
      "\<And>i. p + 16 \<le> i \<Longrightarrow> i < q \<Longrightarrow> \<not> in_ranges rs (buf ! i)"
      "found \<Longrightarrow> q < length buf \<and> in_ranges rs (buf ! q)"
      using "1.IH" [of 16] 3 by auto
    with r 3 show ?thesis
      by (intro "1.prems"(1) [of q found])
        (auto simp: findchar_loop.simps [of rs buf p] not_le, metis not_le)
  qed
qed

lemma findchar_fast_correct:
  assumes "p \<le> length buf"
  obtains q found where "findchar_fast sse buf p rs = Ok (q, found)" "p \<le> q" "q \<le> length buf"
    "\<And>i. p \<le> i \<Longrightarrow> i < q \<Longrightarrow> \<not> in_ranges rs (buf ! i)"
    "found \<Longrightarrow> q < length buf \<and> in_ranges rs (buf ! q)"
proof (cases "sse \<and> 16 \<le> length buf - p")
  case True
  let ?left = "(length buf - p) div 16 * 16"
  have left: "?left mod 16 = 0" "0 < ?left" "p + ?left \<le> length buf"
    using True assms by (auto simp: div_greater_zero_iff)
  have "findchar_fast sse buf p rs = findchar_loop rs buf p ?left"
    using True by (simp add: findchar_fast_def)
  with that show ?thesis
    using findchar_loop_correct [OF left, where rs = rs] by metis
next
  case False
  with assms show ?thesis by (intro that [of p False]) (auto simp: findchar_fast_def)
qed

lemma fast_then_scan_eq:
  assumes "p \<le> length buf" and skip: "\<And>c. \<not> in_ranges rs c \<Longrightarrow> f c = Skip"
  shows "fast_then_scan sse rs f buf p = scan_loop f buf p"
proof -
  obtain q found where q: "findchar_fast sse buf p rs = Ok (q, found)" "p \<le> q" "q \<le> length buf"
    "\<And>i. p \<le> i \<Longrightarrow> i < q \<Longrightarrow> \<not> in_ranges rs (buf ! i)"
    "found \<Longrightarrow> q < length buf \<and> in_ranges rs (buf ! q)"
    by (rule findchar_fast_correct [OF assms(1), of sse rs]) blast
  have "scan_loop f buf p = scan_loop f buf q"
    by (rule scan_loop_jump [OF q(2,3)]) (use skip q(4) in blast)
  also have "\<dots> = fast_then_scan sse rs f buf p"
    using q(1,3,5)
    by (cases "q = length buf")
      (auto simp: fast_then_scan_def CHECK_EOF_def scan_here_loop scan_loop.simps [of f buf "length buf"])
  finally show ?thesis ..
qed

text \<open>Facts about a byte, by arithmetic on its value.\<close>

lemma byte_lt: "unat (a :: u8) < 256"
  using unsigned_less [of a] by simp

lemmas byte_nat = word_le_nat_alt word_less_nat_alt word_unat_eq_iff

lemma IS_PRINTABLE_ASCII_iff: "IS_PRINTABLE_ASCII c \<longleftrightarrow> 0x20 \<le> c \<and> c < 0x7f"
  using byte_lt [of c]
  by (auto simp: IS_PRINTABLE_ASCII_def byte_nat unat_sub_if' unsigned_ucast_eq take_bit_nat_eq_self)

text \<open>The table of token characters as ranges.\<close>

definition token_nat :: "nat \<Rightarrow> bool" where
  "token_nat n \<longleftrightarrow> n = 33 \<or> 35 \<le> n \<and> n \<le> 39 \<or> 42 \<le> n \<and> n \<le> 43 \<or> 45 \<le> n \<and> n \<le> 46 \<or>
     48 \<le> n \<and> n \<le> 57 \<or> 65 \<le> n \<and> n \<le> 90 \<or> 94 \<le> n \<and> n \<le> 122 \<or> n = 124 \<or> n = 126"

lemma upt_32: "[0..<32] = [0,1,2,3,4,5,6,7,8,9,10,11,12,13,14,15,16,17,18,19,20,21,22,23,24,25,26,
    27,28,29,30,31]"
  by (simp add: upt_rec)

lemma token_rows:
  "[0,1,0,1,1,1,1,1,0,0,1,1,0,1,1,0,1,1,1,1,1,1,1,1,1,1,0,0,0,0,0,0] =
     map (\<lambda>i. of_bool (token_nat (32 + i))) [0..<32]"
  "[0,1,1,1,1,1,1,1,1,1,1,1,1,1,1,1,1,1,1,1,1,1,1,1,1,1,1,0,0,0,1,1] =
     map (\<lambda>i. of_bool (token_nat (64 + i))) [0..<32]"
  "[1,1,1,1,1,1,1,1,1,1,1,1,1,1,1,1,1,1,1,1,1,1,1,1,1,1,1,0,1,0,1,0] =
     map (\<lambda>i. of_bool (token_nat (96 + i))) [0..<32]"
  unfolding upt_32 token_nat_def by simp_all

lemma token_char_map_nth:
  assumes "n < 256"
  shows "token_char_map ! n = of_bool (token_nat n)"
proof -
  have nth: "(replicate 32 0 @ map f [0..<32] @ map g [0..<32] @ map h [0..<32] @ ys) ! n =
    (if n < 32 then 0 else if n < 64 then f (n - 32) else if n < 96 then g (n - 64)
     else if n < 128 then h (n - 96) else ys ! (n - 128))" for f g h :: "nat \<Rightarrow> nat" and ys
    by (cases "n < 32"; cases "n < 64"; cases "n < 96"; cases "n < 128") (auto simp: nth_append)
  have low: "\<not> token_nat n" if "n < 32" using that by (auto simp: token_nat_def)
  have high: "\<not> token_nat n" if "128 \<le> n" using that by (auto simp: token_nat_def)
  have zeros: "replicate 32 0 @ replicate 32 0 @ replicate 32 0 @ replicate 32 (0 :: nat) = replicate 128 0"
    by (simp flip: replicate_add)
  show ?thesis
    unfolding token_char_map_def token_rows nth zeros using assms low high
    by (auto simp del: replicate_add)
qed

definition name_stop_nat :: "nat \<Rightarrow> bool" where
  "name_stop_nat n \<longleftrightarrow> n \<le> 32 \<or> n = 34 \<or> n = 40 \<or> n = 41 \<or> n = 44 \<or> n = 47 \<or>
     58 \<le> n \<and> n \<le> 64 \<or> 91 \<le> n \<and> n \<le> 93 \<or> 123 \<le> n"

lemma name_stop_or_token: "name_stop_nat n \<or> token_nat n"
  unfolding name_stop_nat_def token_nat_def by presburger

lemma token_ranges_skip: "\<not> in_ranges token_ranges c \<Longrightarrow> token_class c = Skip"
  by (auto simp: in_ranges_def token_ranges_def token_class_def IS_PRINTABLE_ASCII_iff)

lemma name_ranges_skip: "\<not> in_ranges name_ranges c \<Longrightarrow> name_class c = Skip"
proof -
  assume out: "\<not> in_ranges name_ranges c"
  have "name_stop_nat (unat c) \<Longrightarrow> in_ranges name_ranges c"
    using byte_lt [of c] unfolding name_stop_nat_def
    by (elim disjE) (auto simp: in_ranges_def name_ranges_def byte_nat)
  then have t: "token_nat (unat c)" "\<not> name_stop_nat (unat c)"
    using name_stop_or_token out by auto
  from t(2) have "c \<noteq> 0x3a" by (auto simp: name_stop_nat_def)
  with t show ?thesis by (simp add: name_class_def token_char_map_nth [OF byte_lt])
qed

lemma eol_class_iff: "eol_class c = (if ctl_to_eol c then Stop else Skip)"
  by (auto simp: eol_class_def ctl_to_eol_def IS_PRINTABLE_ASCII_iff)

lemma eol_ranges_iff: "in_ranges eol_ranges c \<longleftrightarrow> ctl_to_eol c"
  by (auto simp: in_ranges_def eol_ranges_def ctl_to_eol_def byte_nat)

lemma not_ctl_printable: "IS_PRINTABLE_ASCII c \<Longrightarrow> \<not> ctl_to_eol c"
  by (auto simp: IS_PRINTABLE_ASCII_iff ctl_to_eol_def)

lemma doit_correct:
  "p + n \<le> length buf \<Longrightarrow>
   \<exists>r. doit n buf p = Ok r \<and> case_sum id id r \<le> length buf \<and>
     (\<forall>i. p \<le> i \<and> i < case_sum id id r \<longrightarrow> IS_PRINTABLE_ASCII (buf ! i)) \<and>
     (case r of Inl q \<Rightarrow> q < length buf | Inr q \<Rightarrow> True)"
proof (induction n arbitrary: p)
  case (Suc n)
  show ?case
  proof (cases "IS_PRINTABLE_ASCII (buf ! p)")
    case True
    have "p + 1 + n \<le> length buf" using Suc.prems by simp
    from Suc.IH [OF this] obtain r where r: "doit n buf (p + 1) = Ok r" "case_sum id id r \<le> length buf"
      "\<forall>i. p + 1 \<le> i \<and> i < case_sum id id r \<longrightarrow> IS_PRINTABLE_ASCII (buf ! i)"
      "case r of Inl q \<Rightarrow> q < length buf | Inr q \<Rightarrow> True" by blast
    have "IS_PRINTABLE_ASCII (buf ! i)" if "p \<le> i" "i < case_sum id id r" for i
      using r(3) True that by (cases "i = p") auto
    with r Suc.prems True show ?thesis by auto
  qed (use Suc.prems in auto)
qed auto

text \<open>The positions between which no byte ends the line.\<close>

definition no_ctl :: "u8 list \<Rightarrow> nat \<Rightarrow> nat \<Rightarrow> bool" where
  "no_ctl buf p q \<longleftrightarrow> p \<le> q \<and> q \<le> length buf \<and> (\<forall>i. p \<le> i \<and> i < q \<longrightarrow> \<not> ctl_to_eol (buf ! i))"

lemma no_ctl_trans: "no_ctl buf p q \<Longrightarrow> no_ctl buf q r \<Longrightarrow> no_ctl buf p r"
  unfolding no_ctl_def by (meson leI order.trans)

definition eol_found :: "u8 list \<Rightarrow> nat \<Rightarrow> nat + nat \<Rightarrow> bool" where
  "eol_found buf p r \<longleftrightarrow> no_ctl buf p (case_sum id id r) \<and>
     (case r of Inl q \<Rightarrow> q < length buf \<and> ctl_to_eol (buf ! q) | Inr q \<Rightarrow> True)"

lemma eol_found_trans: "no_ctl buf p q \<Longrightarrow> eol_found buf q r \<Longrightarrow> eol_found buf p r"
  by (auto simp: eol_found_def dest: no_ctl_trans)

lemma eol_fast_correct: "p \<le> length buf \<Longrightarrow> \<exists>r. eol_fast buf p = Ok r \<and> eol_found buf p r"
proof (induction buf p rule: eol_fast.induct)
  case (1 buf p)
  show ?case
  proof (cases "8 \<le> length buf - p")
    case True
    then have "p + 8 \<le> length buf" by simp
    from doit_correct [OF this] obtain x where x: "doit 8 buf p = Ok x"
      "case_sum id id x \<le> length buf"
      "\<forall>i. p \<le> i \<and> i < case_sum id id x \<longrightarrow> IS_PRINTABLE_ASCII (buf ! i)"
      "case x of Inl q \<Rightarrow> q < length buf | Inr q \<Rightarrow> True"
      by blast
    have clear: "no_ctl buf p (case_sum id id x)"
      using x doit_ge [OF x(1)] by (cases x) (auto simp: no_ctl_def not_ctl_printable)
    show ?thesis
    proof (cases x)
      case (Inr q)
      with clear have c: "no_ctl buf p q" by simp
      then have "\<exists>r. eol_fast buf q = Ok r \<and> eol_found buf q r"
        using "1.IH"(2) [OF True x(1) Inr] by (simp add: no_ctl_def)
      with c x Inr show ?thesis
        by (auto simp: eol_fast.simps [of buf p] True intro: eol_found_trans)
    next
      case (Inl q)
      show ?thesis
      proof (cases "ctl_to_eol (buf ! q)")
        case ctl: True
        have "eol_fast buf p = Ok (Inl q)"
          using Inl x ctl by (simp add: eol_fast.simps [of buf p] True)
        with Inl x clear ctl show ?thesis by (auto simp: eol_found_def)
      next
        case False
        with Inl x clear have c: "no_ctl buf p (q + 1)"
          by (auto simp: no_ctl_def less_Suc_eq)
        then have "\<exists>r. eol_fast buf (q + 1) = Ok r \<and> eol_found buf (q + 1) r"
          using "1.IH"(1) [OF True x(1) Inl, of "buf ! q"] x Inl False by (simp add: no_ctl_def)
        with c x Inl False show ?thesis
          by (auto simp: eol_fast.simps [of buf p] True intro: eol_found_trans)
      qed
    qed
  next
    case False
    with "1.prems" show ?thesis
      by (auto simp: eol_fast.simps [of buf p] eol_found_def no_ctl_def)
  qed
qed

lemma find_ctl_eq:
  assumes "p \<le> length buf"
  shows "find_ctl sse buf p = scan_loop eol_class buf p"
proof -
  have jump: "scan_loop eol_class buf p = (if found then Ok q else scan_loop eol_class buf q)"
    if "no_ctl buf p q" "found \<Longrightarrow> q < length buf \<and> ctl_to_eol (buf ! q)" for q found
  proof -
    have "scan_loop eol_class buf p = scan_loop eol_class buf q"
      by (rule scan_loop_jump) (use that in \<open>auto simp: eol_class_iff no_ctl_def\<close>)
    then show ?thesis
      using that(2) by (cases found) (auto simp: scan_loop.simps [of _ _ q] eol_class_iff)
  qed
  show ?thesis
  proof (cases sse)
    case True
    obtain q found where f: "findchar_fast sse buf p eol_ranges = Ok (q, found)" "p \<le> q"
      "q \<le> length buf" "\<And>i. p \<le> i \<Longrightarrow> i < q \<Longrightarrow> \<not> in_ranges eol_ranges (buf ! i)"
      "found \<Longrightarrow> q < length buf \<and> in_ranges eol_ranges (buf ! q)"
      by (rule findchar_fast_correct [OF assms, of sse eol_ranges]) blast
    then have "scan_loop eol_class buf p = (if found then Ok q else scan_loop eol_class buf q)"
      by (intro jump) (auto simp: eol_ranges_iff no_ctl_def)
    with True f(1) show ?thesis by (simp add: find_ctl_def)
  next
    case False
    obtain r where "eol_fast buf p = Ok r" "eol_found buf p r"
      using eol_fast_correct [OF assms] by blast
    with False jump [of "case_sum id id r" "isl r"] show ?thesis
      by (cases r) (simp_all add: find_ctl_def eol_found_def)
  qed
qed

section \<open>The compile-time choice of the fast path does not matter\<close>

lemma get_token_to_eol_plain:
  "p \<le> length buf \<Longrightarrow> get_token_to_eol sse buf p =
     bind_pres (scan_loop eol_class buf p) (\<lambda>q.
     bind_pres (rd buf q) (\<lambda>c.
       if c = 13 then bind_pres (EXPECT_CHAR 10 buf (q + 1)) (\<lambda>e. Ok ((p, e - 2 - p), e))
       else if c = 10 then Ok ((p, q - p), q + 1)
       else Ret (- 1)))"
  by (simp add: get_token_to_eol_def find_ctl_eq)

lemma ADVANCE_TOKEN_plain:
  "p \<le> length buf \<Longrightarrow> ADVANCE_TOKEN sse buf p =
     bind_pres (scan_loop token_class buf p) (\<lambda>q. Ok ((p, q - p), q))"
  by (simp add: ADVANCE_TOKEN_def fast_then_scan_eq token_ranges_skip)

lemma name_scan_plain:
  "p \<le> length buf \<Longrightarrow>
   fast_then_scan sse name_ranges name_class buf p = scan_loop name_class buf p"
  by (simp add: fast_then_scan_eq name_ranges_skip)

lemma sse_scanners:
  "get_token_to_eol True = get_token_to_eol False"
  "ADVANCE_TOKEN True = ADVANCE_TOKEN False"
  "fast_then_scan True name_ranges name_class = fast_then_scan False name_ranges name_class"
proof -
  have out: "get_token_to_eol sse buf p = Oob \<and> ADVANCE_TOKEN sse buf p = Oob \<and>
      fast_then_scan sse name_ranges name_class buf p = Oob" if "length buf < p" for sse buf p
    using that by (simp add: get_token_to_eol_def ADVANCE_TOKEN_def find_ctl_def fast_then_scan_def
        findchar_fast_def eol_fast.simps [of buf p] scan_loop.simps [of _ buf p] CHECK_EOF_def
        scan_here_def rd_def)
  show "get_token_to_eol True = get_token_to_eol False"
    by (intro ext, rename_tac buf p, case_tac "p \<le> length buf")
      (simp_all add: get_token_to_eol_plain out not_le)
  show "ADVANCE_TOKEN True = ADVANCE_TOKEN False"
    by (intro ext, rename_tac buf p, case_tac "p \<le> length buf")
      (simp_all add: ADVANCE_TOKEN_plain out not_le)
  show "fast_then_scan True name_ranges name_class = fast_then_scan False name_ranges name_class"
    by (intro ext, rename_tac buf p, case_tac "p \<le> length buf")
      (simp_all add: name_scan_plain out not_le)
qed

lemma sse_parse_header: "parse_header True = parse_header False"
proof -
  have "parse_value True = parse_value False"
    by (intro ext) (simp add: parse_value_def sse_scanners)
  then show ?thesis
    by (intro ext) (simp add: parse_header_def sse_scanners cong: if_cong)
qed

lemma parse_headers_plain:
  "parse_headers sse buf mx hs num p = parse_headers False buf mx hs num p"
proof (induction sse buf mx hs num p rule: parse_headers.induct)
  case (1 sse buf mx hs num p)
  obtain hs' r where h: "parse_header False buf num hs p = (hs', r)" by fastforce
  moreover have "parse_header sse = parse_header False" by (cases sse) (simp_all add: sse_parse_header)
  ultimately show ?case
    using "1.IH" [of hs' r]
    by (cases r) (simp_all add: parse_headers.simps [of sse buf] parse_headers.simps [of False buf])
qed

lemma sse_parse_headers: "parse_headers True = parse_headers False"
  by (intro ext) (rule parse_headers_plain)

lemmas sse_agree = sse_scanners sse_parse_headers

section \<open>Memory safety\<close>

lemma bind_pres_Oob: "bind_pres r k = Oob \<longleftrightarrow> r = Oob \<or> (\<exists>a. r = Ok a \<and> k a = Oob)"
  by (cases r) auto

lemma with_out_Oob:
  "snd (with_out out r k) = Oob \<longleftrightarrow> r = Oob \<or> (\<exists>a. r = Ok a \<and> snd (k a) = Oob)"
  by (cases r) (auto simp: with_out_def)

lemma rd_Oob: "rd buf p = Oob \<longleftrightarrow> length buf \<le> p"
  by (auto simp: rd_def)

lemma CHECK_EOF_Oob [simp]: "CHECK_EOF buf p \<noteq> Oob"
  by (simp add: CHECK_EOF_def)

lemma CHECK_EOF_Ok [simp]: "CHECK_EOF buf p = Ok u \<longleftrightarrow> p \<noteq> length buf"
  by (simp add: CHECK_EOF_def)

lemma EXPECT_CHAR_Oob: "p \<le> length buf \<Longrightarrow> EXPECT_CHAR ch buf p \<noteq> Oob"
  by (auto simp: EXPECT_CHAR_def EXPECT_CHAR_NO_CHECK_def bind_pres_Oob rd_Oob CHECK_EOF_def)

lemma put_field_Oob: "put_field i f hs = Oob \<longleftrightarrow> length hs \<le> i"
  by (auto simp: put_field_def)

lemma scan_loop_Oob: "p \<le> length buf \<Longrightarrow> scan_loop f buf p \<noteq> Oob"
  by (induction f buf p rule: scan_loop.induct)
    (subst scan_loop.simps, auto split: verdict.splits)

lemma get_token_to_eol_Oob: "p \<le> length buf \<Longrightarrow> get_token_to_eol sse buf p \<noteq> Oob"
  by (auto simp: get_token_to_eol_plain bind_pres_Oob scan_loop_Oob rd_Oob EXPECT_CHAR_Oob
      split: if_splits dest!: scan_loop_Ok)

lemma ADVANCE_TOKEN_Oob: "p \<le> length buf \<Longrightarrow> ADVANCE_TOKEN sse buf p \<noteq> Oob"
  by (simp add: ADVANCE_TOKEN_plain bind_pres_Oob scan_loop_Oob)

lemma parse_value_Oob:
  "p \<le> length buf \<Longrightarrow> num < length hs \<Longrightarrow> snd (parse_value sse buf num hs p) \<noteq> Oob"
  by (auto simp: parse_value_def with_out_Oob get_token_to_eol_Oob put_field_Oob)

lemma parse_header_Oob:
  "p < length buf \<Longrightarrow> num < length hs \<Longrightarrow> snd (parse_header sse buf num hs p) \<noteq> Oob"
  by (auto simp: parse_header_def with_out_Oob put_field_Oob rd_Oob name_scan_plain scan_loop_Oob
      parse_value_Oob Suc_le_eq split: if_splits dest!: scan_loop_Ok)

lemma length_parse_header: "length (fst (parse_header sse buf num hs p)) = length hs"
  by (auto simp: parse_header_def parse_value_def with_out_def put_field_def
      split: pres.splits if_splits)

lemma parse_headers_safe:
  "p \<le> length buf \<Longrightarrow> num \<le> mx \<Longrightarrow> mx \<le> length hs \<Longrightarrow>
   parse_headers sse buf mx hs num p = ((hs', num'), r) \<Longrightarrow>
   r \<noteq> Oob \<and> num \<le> num' \<and> num' \<le> mx \<and> length hs' = length hs \<and>
   (\<forall>e. r = Ok e \<longrightarrow> p < e \<and> e \<le> length buf)"
proof (induction sse buf mx hs num p rule: parse_headers.induct)
  case (1 sse buf mx hs num p)
  obtain hs1 r1 where h: "parse_header sse buf num hs p = (hs1, r1)" by fastforce
  show ?case
  proof (cases "p = length buf \<or> buf ! p = 13 \<or> buf ! p = 10 \<or> num = mx")
    case True
    with "1.prems" EXPECT_CHAR_Oob [of "p + 1" buf 10] show ?thesis
      by (auto simp: parse_headers.simps [of sse buf] split: if_splits)
  next
    case False
    with "1.prems" parse_header_Oob [of p buf num hs sse] have "r1 \<noteq> Oob" by (simp add: h)
    moreover have "length hs1 = length hs"
      using length_parse_header [of sse buf num hs p] by (simp add: h)
    moreover have eq: "parse_headers sse buf mx hs num p =
        (case r1 of Ok e \<Rightarrow> parse_headers sse buf mx hs1 (num + 1) e
         | Ret k \<Rightarrow> ((hs1, num), Ret k) | Oob \<Rightarrow> ((hs1, num), Oob))"
      using False "1.prems"(1) h by (subst parse_headers.simps) (simp split: pres.split)
    ultimately show ?thesis
    proof (cases r1)
      case (Ok e)
      with parse_header_Ok [of sse buf num hs p hs1 e] h have "p < e" "e \<le> length buf" by auto
      with "1.IH" [of hs1 r1 e] False "1.prems" Ok eq h \<open>length hs1 = length hs\<close> show ?thesis by auto
    qed (use "1.prems" eq in auto)
  qed
qed

lemma is_complete_loop_Oob: "p \<le> length buf \<Longrightarrow> is_complete_loop buf p n \<noteq> Oob"
proof (induction buf p n rule: is_complete_loop.induct)
  case (1 buf p n)
  then show ?case by (subst is_complete_loop.simps) auto
qed

lemma check_complete_Oob: "last_len \<le> length buf + 3 \<Longrightarrow> check_complete buf last_len \<noteq> Oob"
  by (auto simp: check_complete_def bind_pres_Oob is_complete_def is_complete_loop_Oob
      is_complete_from_def)

lemma expect_chars_Ok: "expect_chars chs buf p = Ok q \<Longrightarrow> q = p + length chs"
  by (induction chs arbitrary: p) (fastforce simp: EXPECT_CHAR_NO_CHECK_def split: if_splits)+

lemma length_http_1 [simp]: "length http_1 = 7"
  by (simp add: http_1_def)

lemma expect_chars_Oob: "p + length chs \<le> length buf \<Longrightarrow> expect_chars chs buf p \<noteq> Oob"
  by (induction chs arbitrary: p)
    (auto simp: EXPECT_CHAR_NO_CHECK_def bind_pres_Oob rd_Oob split: if_splits)

lemma parse_http_version_Oob: "parse_http_version buf p \<noteq> Oob"
  using expect_chars_Oob [of p http_1 buf]
  by (auto simp: parse_http_version_def PARSE_INT_def bind_pres_Oob rd_Oob
      dest!: expect_chars_Ok split: if_splits)

lemma parse_http_version_Ok: "parse_http_version buf p = Ok vq \<Longrightarrow>
   snd vq = p + 8 \<and> snd vq < length buf \<and> 0 \<le> fst vq \<and> fst vq \<le> 9"
  by (auto simp: parse_http_version_def PARSE_INT_def dest!: expect_chars_Ok split: if_splits)

text \<open>The unchecked loop over spaces leaves the buffer only when the buffer ends in a space.\<close>

lemma skip_sp_Oob: "skip_sp buf p = Oob \<Longrightarrow> p < length buf \<Longrightarrow> buf ! p = 0x20 \<Longrightarrow> last buf = 0x20"
proof (induction buf p rule: skip_sp.induct)
  case (1 buf p)
  show ?case
  proof (cases "p + 1 < length buf")
    case True
    then show ?thesis
      using "1.IH" [of "buf ! (p + 1)"] "1.prems" by (simp add: skip_sp.simps [of buf p] split: if_splits)
  next
    case False
    with "1.prems" have "p = length buf - 1" by simp
    with "1.prems" show ?thesis by (cases buf) (auto simp: last_conv_nth)
  qed
qed

lemma ADVANCE_TOKEN_Ok:
  "ADVANCE_TOKEN sse buf p = Ok ((t, n), q) \<Longrightarrow>
   t = p \<and> p \<le> q \<and> n = q - p \<and> q < length buf \<and> buf ! q = 0x20"
  by (auto simp: ADVANCE_TOKEN_def token_class_def dest!: fast_then_scan_Ok split: if_splits)

lemma skip_sp_Ok: "skip_sp buf p = Ok q \<Longrightarrow> p < q \<and> q < length buf"
  by (induction buf p rule: skip_sp.induct)
    (subst (asm) (2) skip_sp.simps, auto split: pres.splits if_splits)

lemma skip_line_end_Ok:
  "skip_line_end buf p c r = Ok q \<Longrightarrow> r = Ok q \<or> p < q \<and> (q \<le> length buf \<or> length buf \<le> p)"
  by (auto simp: skip_line_end_def split: if_splits)

lemma skip_line_end_Oob: "p < length buf \<Longrightarrow> r \<noteq> Oob \<Longrightarrow> skip_line_end buf p c r \<noteq> Oob"
  by (simp add: skip_line_end_def EXPECT_CHAR_Oob)

lemma with_out_safe:
  "r \<noteq> Oob \<Longrightarrow> (\<And>a. r = Ok a \<Longrightarrow> snd (k a) \<noteq> Oob) \<Longrightarrow> snd (with_out out r k) \<noteq> Oob"
  by (auto simp: with_out_Oob)

lemma if_safe:
  "(P \<Longrightarrow> snd a \<noteq> Oob) \<Longrightarrow> (\<not> P \<Longrightarrow> snd b \<noteq> Oob) \<Longrightarrow> snd (if P then a else b) \<noteq> Oob"
  by simp

lemma skip_sp_no_Ret: "skip_sp buf p \<noteq> Ret r"
  by (induction buf p rule: skip_sp.induct)
    (subst skip_sp.simps, auto simp: rd_def split: if_splits)

text \<open>The parser is safe if every loop over spaces that starts inside the input ends there.\<close>

lemma parse_request_safe_if:
  assumes "\<And>q. q < length buf \<Longrightarrow> buf ! q = 0x20 \<Longrightarrow>
      \<exists>q'. skip_sp (buf @ behind) q = Ok q' \<and> q' \<le> length buf"
    and "p \<le> length buf" "m_headers_num out \<le> mx" "mx \<le> length (m_headers out)"
  shows "snd (parse_request_mem sse behind buf mx out p) \<noteq> Oob"
proof -
  have space: "snd tq < length buf \<and> buf ! snd tq = 0x20" if "ADVANCE_TOKEN sse buf p = Ok tq" for p tq
    using ADVANCE_TOKEN_Ok [of sse buf p "fst (fst tq)" "snd (fst tq)" "snd tq"] that by simp
  have sp: "skip_sp (buf @ behind) (snd tq) \<noteq> Oob" if "ADVANCE_TOKEN sse buf p = Ok tq" for p tq
    using assms(1) [of "snd tq"] space [OF that] by auto
  have sp_Ok: "q' \<le> length buf"
    if "skip_sp (buf @ behind) (snd tq) = Ok q'" "ADVANCE_TOKEN sse buf p = Ok tq" for p q' tq
    using assms(1) [of "snd tq"] space [OF that(2)] that(1) by auto
  have headers: "snd (parse_headers sse buf mx (m_headers out) (m_headers_num out) q) \<noteq> Oob"
    if "q \<le> length buf" for q
    using parse_headers_safe [OF that assms(3,4)] by (metis prod.exhaust_sel)
  have start: "q \<le> length buf" if "skip_line_end buf p c (Ok p) = Ok q" "rd buf p = Ok c" for q c
    using skip_line_end_Ok [OF that(1)] that by (auto simp: skip_line_end_def split: if_splits)
  show ?thesis
    unfolding parse_request_mem_def Let_def case_prod_unfold
    apply (intro with_out_safe if_safe)
    subgoal by simp
    subgoal using assms(2) by (simp add: rd_Oob)
    subgoal by (rule skip_line_end_Oob) simp_all
    subgoal by (intro ADVANCE_TOKEN_Oob start)
    subgoal by (rule sp)
    subgoal by (intro ADVANCE_TOKEN_Oob sp_Ok)
    subgoal by (rule sp)
    subgoal by simp
    subgoal by (rule parse_http_version_Oob)
    subgoal by (auto simp: rd_Oob dest!: parse_http_version_Ok)
    subgoal by (rule skip_line_end_Oob) simp_all
    subgoal by (auto intro!: headers dest!: skip_line_end_Ok)
    done
qed

lemma parse_request_safe:
  assumes "last buf \<noteq> 0x20" "p \<le> length buf"
    and "m_headers_num out \<le> mx" "mx \<le> length (m_headers out)"
  shows "snd (parse_request sse buf mx out p) \<noteq> Oob"
proof -
  have "\<exists>q'. skip_sp buf q = Ok q' \<and> q' \<le> length buf" if "q < length buf" "buf ! q = 0x20" for q
    using skip_sp_Oob [of buf q] skip_sp_no_Ret [of buf q] skip_sp_Ok [of buf q] assms(1) that
    by (cases "skip_sp buf q") auto
  with parse_request_safe_if [of buf "[]" p out mx sse] assms(2-4) show ?thesis
    by (simp add: parse_request_def)
qed

section \<open>What a parse delivers\<close>

definition slice :: "u8 list \<Rightarrow> nat \<Rightarrow> nat \<Rightarrow> u8 list" where
  "slice buf p n = take n (drop p buf)"

text \<open>
  A stored header: a non-empty name or none (a continuation line), and a value inside the
  parsed part that has no control characters and does not end in a space or a tab.
\<close>

definition header_ok :: "u8 list \<Rightarrow> nat \<Rightarrow> phr_header \<Rightarrow> bool" where
  "header_ok buf e h \<longleftrightarrow>
     (case name h of
        None \<Rightarrow> name_len h = 0
      | Some n \<Rightarrow> 0 < name_len h \<and> n + name_len h \<le> e \<and>
          list_all (\<lambda>c. token_char_map ! unat c \<noteq> 0) (slice buf n (name_len h))) \<and>
     (case hvalue h of
        None \<Rightarrow> False
      | Some v \<Rightarrow> v + value_len h \<le> e \<and>
          list_all (\<lambda>c. \<not> ctl_to_eol c) (slice buf v (value_len h)) \<and>
          (value_len h \<noteq> 0 \<longrightarrow> last (slice buf v (value_len h)) \<notin> {0x20, 0x09}))"

lemma scan_loop_skipped:
  "scan_loop f buf p = Ok q \<Longrightarrow> p \<le> i \<Longrightarrow> i < q \<Longrightarrow> f (buf ! i) = Skip"
proof (induction f buf p rule: scan_loop.induct)
  case (1 f buf p)
  then show ?case
    by (subst (asm) (2) scan_loop.simps)
      (auto split: if_splits verdict.splits, metis Suc_leI le_neq_implies_less)
qed

lemma list_all_slice:
  "p + n \<le> length buf \<Longrightarrow>
   list_all P (slice buf p n) \<longleftrightarrow> (\<forall>i. p \<le> i \<and> i < p + n \<longrightarrow> P (buf ! i))"
proof -
  assume "p + n \<le> length buf"
  then have "list_all P (slice buf p n) \<longleftrightarrow> (\<forall>k < n. P (buf ! (p + k)))"
    by (auto simp: slice_def list_all_length)
  also have "\<dots> \<longleftrightarrow> (\<forall>i. p \<le> i \<and> i < p + n \<longrightarrow> P (buf ! i))"
    by (metis add_le_imp_le_left le_add1 le_add_diff_inverse nat_add_left_cancel_less)
  finally show ?thesis .
qed

lemma last_slice: "0 < n \<Longrightarrow> p + n \<le> length buf \<Longrightarrow> last (slice buf p n) = buf ! (p + n - 1)"
  by (subst last_conv_nth) (auto simp: slice_def)

lemma trim_value_le: "trim_value buf v n \<le> n"
  by (induction n) auto

lemma trim_value_last:
  "trim_value buf v n \<noteq> 0 \<Longrightarrow> buf ! (v + trim_value buf v n - 1) \<notin> {0x20, 0x09}"
  by (induction n) auto

lemma get_token_to_eol_clear:
  assumes "get_token_to_eol sse buf p = Ok ((v, n), e)"
  shows "v = p \<and> p + n < e \<and> e \<le> length buf \<and> (\<forall>i. p \<le> i \<and> i < p + n \<longrightarrow> \<not> ctl_to_eol (buf ! i))"
proof -
  have "p \<le> length buf" using get_token_to_eol_Ok [OF assms] by simp
  with assms obtain q where q: "scan_loop eol_class buf p = Ok q" and n: "n = q - p"
    by (auto simp: get_token_to_eol_plain split: if_splits)
  have "p + n = q" using scan_loop_Ok [OF q] n by simp
  moreover have "\<not> ctl_to_eol (buf ! i)" if "p \<le> i" "i < q" for i
    using scan_loop_skipped [OF q that] by (auto simp: eol_class_iff split: if_splits)
  ultimately show ?thesis
    using get_token_to_eol_Ok [OF assms] by auto
qed

lemma parse_value_content:
  assumes "parse_value sse buf num hs p = (hs', Ok e)"
  obtains n where "hs' = hs[num := (hs ! num)\<lparr>hvalue := Some p, value_len := n\<rparr>]" "p + n < e"
    "e \<le> length buf" "num < length hs"
    "list_all (\<lambda>c. \<not> ctl_to_eol c) (slice buf p n)"
    "n \<noteq> 0 \<Longrightarrow> last (slice buf p n) \<notin> {0x20, 0x09}"
proof -
  obtain v k where t: "get_token_to_eol sse buf p = Ok ((v, k), e)"
    and hs': "hs' = hs[num := (hs ! num)\<lparr>hvalue := Some v, value_len := trim_value buf v k\<rparr>]"
    "num < length hs"
    using assms by (auto simp: parse_value_def)
  let ?n = "trim_value buf p k"
  have v: "v = p" "p + k < e" "e \<le> length buf" "\<forall>i. p \<le> i \<and> i < p + k \<longrightarrow> \<not> ctl_to_eol (buf ! i)"
    using get_token_to_eol_clear [OF t] by auto
  have n: "p + ?n < e" "p + ?n \<le> length buf" using trim_value_le [of buf p k] v by auto
  show ?thesis
  proof (rule that [of ?n])
    show "list_all (\<lambda>c. \<not> ctl_to_eol c) (slice buf p ?n)"
      using v(4) trim_value_le [of buf p k] n(2) by (auto simp: list_all_slice)
    show "?n \<noteq> 0 \<Longrightarrow> last (slice buf p ?n) \<notin> {0x20, 0x09}"
      using trim_value_last [of buf p k] n(2) last_slice [of ?n p buf] by simp
  qed (use v hs' n in auto)
qed

lemma parse_header_content:
  assumes "parse_header sse buf num hs p = (hs', Ok e)"
  shows "\<exists>h. hs' = hs[num := h] \<and> header_ok buf e h \<and> p < e \<and> e \<le> length buf \<and> num < length hs"
proof -
  have p: "p < length buf" and num: "num < length hs"
    using assms parse_header_Ok [OF assms] by auto
  show ?thesis
  proof (cases "num \<noteq> 0 \<and> (buf ! p = 0x20 \<or> buf ! p = 0x09)")
    case True
    then have "parse_value sse buf num (hs[num := (hs ! num)\<lparr>name := None, name_len := 0\<rparr>]) p = (hs', Ok e)"
      using assms num by (auto simp: parse_header_def)
    then show ?thesis
      by (rule parse_value_content) (use num in \<open>auto simp: header_ok_def\<close>)
  next
    case False
    with assms num p obtain q v where q: "scan_loop name_class buf p = Ok q" "q - p \<noteq> 0"
      and v: "scan_loop ws_class buf (q + 1) = Ok v"
      and val: "parse_value sse buf num
        (hs[num := (hs ! num)\<lparr>name := Some p, name_len := q - p\<rparr>]) v = (hs', Ok e)"
      by (auto simp: parse_header_def name_scan_plain split: if_splits)
    have pos: "p < q" "q < v" "q < length buf"
      using scan_loop_Ok [OF q(1)] scan_loop_Ok [OF v] q(2) by auto
    have "token_char_map ! unat (buf ! i) \<noteq> 0" if "p \<le> i" "i < q" for i
      using scan_loop_skipped [OF q(1) that] by (auto simp: name_class_def split: if_splits)
    with pos have tok: "list_all (\<lambda>c. token_char_map ! unat c \<noteq> 0) (slice buf p (q - p))"
      by (auto simp: list_all_slice)
    show ?thesis
      by (rule parse_value_content [OF val]) (use num pos tok in \<open>auto simp: header_ok_def\<close>)
  qed
qed

lemma parse_headers_content:
  assumes "parse_headers sse buf mx hs num p = ((hs', num'), Ok e)" "p \<le> length buf"
    and "\<forall>i < num. header_ok buf p (hs ! i)" "num \<le> length hs"
  shows "\<forall>i < num'. header_ok buf e (hs' ! i)"
  using assms
proof (induction sse buf mx hs num p rule: parse_headers.induct)
  case (1 sse buf mx hs num p)
  have mono: "header_ok buf e h" if "header_ok buf p h" "p \<le> e" for h e p
    using that by (auto simp: header_ok_def split: option.splits)
  show ?case
  proof (cases "buf ! p = 13 \<or> buf ! p = 10")
    case True
    with "1.prems" have "hs' = hs" "num' = num" "p \<le> e"
      by (auto simp: parse_headers.simps [of sse buf] split: if_splits)
    with "1.prems"(3) show ?thesis by (auto intro: mono)
  next
    case False
    obtain hs1 r where h: "parse_header sse buf num hs p = (hs1, r)" by fastforce
    with False "1.prems"(1) obtain e1 where r: "r = Ok e1"
      and rest: "parse_headers sse buf mx hs1 (num + 1) e1 = ((hs', num'), Ok e)"
      and ne: "p \<noteq> length buf" "\<not> length buf < p" "num \<noteq> mx"
      by (subst (asm) parse_headers.simps) (auto split: if_splits pres.splits)
    obtain x where x: "hs1 = hs[num := x]" "header_ok buf e1 x" "p < e1" "e1 \<le> length buf"
      "num < length hs"
      using parse_header_content [OF h [unfolded r]] by blast
    have "\<forall>i < num + 1. header_ok buf e1 (hs1 ! i)"
      using "1.prems"(3) x by (auto simp: less_Suc_eq nth_list_update intro: mono)
    then show ?thesis
      using "1.IH" [OF ne(1,2) _ _ ne(3) h [symmetric] r] False rest x by auto
  qed
qed

section \<open>Printing\<close>

type_synonym http_header = "u8 list \<times> u8 list"

definition is_token :: "u8 \<Rightarrow> bool" where
  "is_token c \<longleftrightarrow> token_char_map ! unat c \<noteq> 0"

definition is_ws :: "u8 \<Rightarrow> bool" where
  "is_ws c \<longleftrightarrow> c = 0x20 \<or> c = 0x09"

fun header_wf :: "http_header \<Rightarrow> bool" where
  "header_wf (n, v) \<longleftrightarrow> n \<noteq> [] \<and> list_all is_token n \<and> list_all (\<lambda>c. \<not> ctl_to_eol c) v \<and>
     (v \<noteq> [] \<longrightarrow> \<not> is_ws (hd v) \<and> \<not> is_ws (last v))"

fun print_header :: "http_header \<Rightarrow> u8 list" where
  "print_header (n, v) = n @ [0x3a, 0x20] @ v @ [13, 10]"

text \<open>The entry the parser stores for a header printed at offset \<open>p\<close>.\<close>

fun entry_at :: "nat \<Rightarrow> http_header \<Rightarrow> phr_header" where
  "entry_at p (n, v) = \<lparr>name = Some p, name_len = length n,
     hvalue = Some (p + length n + 2), value_len = length v\<rparr>"

fun entries_at :: "nat \<Rightarrow> http_header list \<Rightarrow> phr_header list" where
  "entries_at p [] = []"
| "entries_at p (h # hs) = entry_at p h # entries_at (p + length (print_header h)) hs"

lemma token_facts:
  "is_token c \<Longrightarrow> c \<noteq> 13 \<and> c \<noteq> 10 \<and> \<not> is_ws c \<and> name_class c = Skip"
proof -
  assume "is_token c"
  then have "token_nat (unat c)" by (simp add: is_token_def token_char_map_nth [OF byte_lt])
  then show ?thesis
    by (auto simp: is_ws_def name_class_def token_char_map_nth [OF byte_lt] token_nat_def)
qed

text \<open>A scan over a stretch of skipped bytes.\<close>

lemma scan_loop_stretch:
  assumes "list_all (\<lambda>c. f c = Skip) xs" "f c = Stop"
  shows "scan_loop f (pre @ xs @ c # post) (length pre) = Ok (length pre + length xs)"
proof -
  have "scan_loop f (pre @ xs @ c # post) (length pre) =
      scan_loop f (pre @ xs @ c # post) (length pre + length xs)"
    by (rule scan_loop_jump) (use assms(1) in \<open>auto simp: nth_append list_all_length\<close>)
  then show ?thesis
    using assms(2) by (simp add: scan_loop.simps [of _ _ "length pre + length xs"] nth_append)
qed

lemma get_token_to_eol_print:
  assumes "list_all (\<lambda>c. \<not> ctl_to_eol c) v"
  shows "get_token_to_eol sse (pre @ v @ 13 # 10 # post) (length pre) =
    Ok ((length pre, length v), length pre + length v + 2)"
proof -
  have "scan_loop eol_class (pre @ v @ 13 # 10 # post) (length pre) = Ok (length pre + length v)"
    by (rule scan_loop_stretch) (use assms in \<open>auto simp: eol_class_iff ctl_to_eol_def list_all_iff\<close>)
  then show ?thesis
    by (simp add: get_token_to_eol_plain nth_append EXPECT_CHAR_def EXPECT_CHAR_NO_CHECK_def
        CHECK_EOF_def)
qed

lemma trim_value_id: "n \<noteq> 0 \<Longrightarrow> \<not> is_ws (buf ! (v + n - 1)) \<Longrightarrow> trim_value buf v n = n"
  by (cases n) (auto simp: is_ws_def)

lemma trim_value_print:
  assumes "v \<noteq> [] \<Longrightarrow> \<not> is_ws (last v)"
  shows "trim_value (pre @ v @ post) (length pre) (length v) = length v"
proof (cases "v = []")
  case False
  then have "(pre @ v @ post) ! (length pre + length v - 1) = last v"
    by (cases v rule: rev_cases) (auto simp: nth_append)
  with False assms show ?thesis by (intro trim_value_id) auto
qed simp

lemma phr_header_eq:
  "h\<lparr>name := a, name_len := b, hvalue := c, value_len := d\<rparr> =
   \<lparr>name = a, name_len = b, hvalue = c, value_len = d\<rparr>"
  by (cases h) simp

lemma parse_header_print:
  assumes wf: "header_wf (n, v)" and num: "num < length hs"
    and buf: "buf = pre @ print_header (n, v) @ post"
  shows "parse_header sse buf num hs (length pre) =
    (hs[num := entry_at (length pre) (n, v)], Ok (length pre + length (print_header (n, v))))"
proof -
  have p: "length pre < length buf" and c: "\<not> is_ws (buf ! length pre)"
    using wf token_facts [of "hd n"] by (auto simp: buf nth_append hd_conv_nth list_all_length)
  have nm: "fast_then_scan sse name_ranges name_class buf (length pre) = Ok (length pre + length n)"
    using scan_loop_stretch [of name_class n "0x3a" pre "0x20 # v @ 13 # 10 # post"] wf p token_facts
    by (simp add: name_scan_plain buf list_all_iff name_class_def)
  have ws: "scan_loop ws_class buf (length pre + length n + 1) = Ok (length pre + length n + 2)"
    using scan_loop_stretch [of ws_class "[0x20]" "hd (v @ [13])" "pre @ n @ [0x3a]"
      "tl (v @ [13]) @ 10 # post"] wf
    by (cases v) (auto simp: buf ws_class_def is_ws_def)
  have val: "get_token_to_eol sse buf (length pre + length n + 2) =
      Ok ((length pre + length n + 2, length v), length pre + length n + 2 + length v + 2)"
    using get_token_to_eol_print [of v sse "pre @ n @ [0x3a, 0x20]" post] wf by (simp add: buf)
  have tr: "trim_value buf (length pre + length n + 2) (length v) = length v"
    using trim_value_print [of v "pre @ n @ [0x3a, 0x20]" "13 # 10 # post"] wf by (simp add: buf)
  show ?thesis
    using p c num wf
    by (simp add: parse_header_def parse_value_def with_out_def put_field_def is_ws_def
        nm ws [simplified] val [simplified] tr [simplified] phr_header_eq)
qed

lemma parse_headers_print:
  "list_all header_wf hs \<Longrightarrow> num + length hs \<le> mx \<Longrightarrow> mx \<le> length arr \<Longrightarrow>
   buf = pre @ concat (map print_header hs) @ [13, 10] @ post \<Longrightarrow>
   parse_headers sse buf mx arr num (length pre) =
     ((write_at num (entries_at (length pre) hs) arr, num + length hs),
      Ok (length pre + length (concat (map print_header hs)) + 2))"
proof (induction hs arbitrary: pre num arr)
  case Nil
  then show ?case
    by (subst parse_headers.simps)
      (simp add: nth_append EXPECT_CHAR_def EXPECT_CHAR_NO_CHECK_def CHECK_EOF_def)
next
  case (Cons h hs)
  obtain n v where h: "h = (n, v)" by fastforce
  let ?e = "length pre + length (print_header h)"
  have c: "length pre < length buf" "buf ! length pre \<noteq> 13" "buf ! length pre \<noteq> 10"
    using Cons.prems by (cases n; auto simp: h nth_append dest: token_facts)+
  have one: "parse_header sse buf num arr (length pre) =
      (arr[num := entry_at (length pre) h], Ok ?e)"
    unfolding h by (rule parse_header_print) (use Cons.prems in \<open>auto simp: h\<close>)
  have rest: "parse_headers sse buf mx (arr[num := entry_at (length pre) h]) (num + 1)
      (length (pre @ print_header h)) =
      ((write_at (num + 1) (entries_at (length (pre @ print_header h)) hs)
          (arr[num := entry_at (length pre) h]), num + 1 + length hs),
       Ok (length (pre @ print_header h) + length (concat (map print_header hs)) + 2))"
    by (rule Cons.IH) (use Cons.prems in auto)
  have "num < length arr" using Cons.prems by simp
  then have "write_at (num + 1) xs (arr[num := x]) = write_at num (x # xs) arr"
    for xs and x :: phr_header
    by (simp add: write_at_def take_Suc_conv_app_nth)
  with rest c one Cons.prems show ?case
    by (subst parse_headers.simps) (simp add: add.assoc)
qed

text \<open>A request message.\<close>

record http_request =
  req_method :: "u8 list"
  req_path :: "u8 list"
  req_minor :: nat
  req_headers :: "http_header list"

definition request_wf :: "http_request \<Rightarrow> bool" where
  "request_wf r \<longleftrightarrow>
     req_method r \<noteq> [] \<and> list_all (\<lambda>c. token_class c = Skip) (req_method r) \<and>
     req_path r \<noteq> [] \<and> list_all (\<lambda>c. token_class c = Skip) (req_path r) \<and>
     req_minor r < 10 \<and> list_all header_wf (req_headers r)"

definition request_line :: "http_request \<Rightarrow> u8 list" where
  "request_line r = req_method r @ [0x20] @ req_path r @ [0x20] @ http_1 @
     [of_nat (48 + req_minor r)] @ [13, 10]"

definition print_request :: "http_request \<Rightarrow> u8 list" where
  "print_request r = request_line r @ concat (map print_header (req_headers r)) @ [13, 10]"

text \<open>The output parameters a parse of the printed request leaves.\<close>

definition request_out :: "http_request \<Rightarrow> phr_request \<Rightarrow> phr_request" where
  "request_out r out = out\<lparr>
     mp_method := Some 0, m_method_len := length (req_method r),
     mp_path := Some (length (req_method r) + 1), m_path_len := length (req_path r),
     m_version := int (req_minor r),
     m_headers := write_at 0 (entries_at (length (request_line r)) (req_headers r)) (m_headers out),
     m_headers_num := length (req_headers r)\<rparr>"

lemma ADVANCE_TOKEN_print:
  "list_all (\<lambda>c. token_class c = Skip) t \<Longrightarrow>
   ADVANCE_TOKEN sse (pre @ t @ 0x20 # post) (length pre) =
     Ok ((length pre, length t), length pre + length t)"
  using scan_loop_stretch [of token_class t "0x20" pre post]
  by (simp add: ADVANCE_TOKEN_plain token_class_def)

lemma skip_sp_print:
  "c \<noteq> 0x20 \<Longrightarrow> skip_sp (pre @ 0x20 # c # post) (length pre) = Ok (length pre + 1)"
  by (simp add: skip_sp.simps [of _ "length pre"] rd_def nth_append)

lemma expect_chars_print: "expect_chars chs (pre @ chs @ post) (length pre) = Ok (length pre + length chs)"
proof (induction chs arbitrary: pre)
  case (Cons c chs)
  from Cons.IH [of "pre @ [c]"] show ?case
    by (simp add: EXPECT_CHAR_NO_CHECK_def nth_append)
qed simp

lemma parse_http_version_print:
  assumes "d < 10"
  shows "parse_http_version (pre @ http_1 @ of_nat (48 + d) # c # post) (length pre) =
    Ok (int d, length pre + 8)"
proof -
  have "list_all (\<lambda>d. sint (of_nat (48 + d) :: u8) = 48 + int d) [0..<10]" by code_simp
  with assms have "sint (of_nat (48 + d) :: u8) = 48 + int d" by (simp add: list_all_iff)
  then show ?thesis
    using expect_chars_print [of http_1 pre "of_nat (48 + d) # c # post"] assms
    by (simp add: parse_http_version_def PARSE_INT_def rd_def nth_append del: of_nat_add)
qed

lemma skip_hd:
  assumes "list_all (\<lambda>c. token_class c = Skip) t" "t \<noteq> []"
  shows "hd t \<noteq> 13 \<and> hd t \<noteq> 10 \<and> hd t \<noteq> 0x20"
proof -
  have "token_class (hd t) = Skip" using assms by (cases t) auto
  then show ?thesis by (auto simp: token_class_def IS_PRINTABLE_ASCII_iff split: if_splits)
qed

lemma parse_request_print:
  assumes wf: "request_wf r" and buf: "buf = print_request r @ post"
    and mx: "length (req_headers r) \<le> mx" "mx \<le> length (m_headers out)" "m_headers_num out = 0"
  shows "parse_request sse buf mx out 0 = (request_out r out, Ok (length (print_request r)))"
proof -
  let ?m = "req_method r" and ?t = "req_path r" and ?d = "of_nat (48 + req_minor r) :: u8"
  let ?M = "length ?m" and ?T = "length ?t"
  let ?hs = "concat (map print_header (req_headers r))"
  let ?tail = "13 # 10 # ?hs @ 13 # 10 # post"
  have b: "buf = ?m @ 0x20 # ?t @ 0x20 # http_1 @ ?d # ?tail"
    by (simp add: buf print_request_def request_line_def)
  have t: "hd ?m \<noteq> 13" "hd ?m \<noteq> 10" "hd ?t \<noteq> 0x20" "?m \<noteq> []" "?t \<noteq> []" "req_minor r < 10"
    using wf skip_hd [of ?m] skip_hd [of ?t] by (simp_all add: request_wf_def)
  have ne: "0 \<noteq> length buf" by (simp add: b)
  have eol: "rd buf 0 = Ok (hd ?m)" using t by (simp add: b nth_append hd_conv_nth)
  have a1: "ADVANCE_TOKEN sse buf 0 = Ok ((0, ?M), ?M)"
    using ADVANCE_TOKEN_print [of ?m sse "[]"] wf by (simp add: b request_wf_def)
  have s1: "skip_sp buf ?M = Ok (?M + 1)"
    using skip_sp_print [of "hd ?t" ?m "tl ?t @ 0x20 # http_1 @ ?d # ?tail"] t
    by (cases ?t) (auto simp: b)
  have a2: "ADVANCE_TOKEN sse buf (?M + 1) = Ok ((?M + 1, ?T), ?M + 1 + ?T)"
    using ADVANCE_TOKEN_print [of ?t sse "?m @ [0x20]"] wf by (simp add: b request_wf_def)
  have s2: "skip_sp buf (?M + 1 + ?T) = Ok (?M + 1 + ?T + 1)"
    using skip_sp_print [of "0x48" "?m @ 0x20 # ?t" "tl http_1 @ ?d # ?tail"]
    by (simp add: b http_1_def)
  have v: "parse_http_version buf (?M + 1 + ?T + 1) = Ok (int (req_minor r), 10 + (?M + ?T))"
    using parse_http_version_print [of "req_minor r" "?m @ 0x20 # ?t @ [0x20]" 13] t(6)
    by (simp add: b)
  have nl: "rd buf (10 + (?M + ?T)) = Ok 13" "EXPECT_CHAR 10 buf (11 + (?M + ?T)) = Ok (12 + (?M + ?T))"
    by (simp_all add: b nth_append numeral_eq_Suc http_1_def)
  have line: "length (request_line r) = 12 + (?M + ?T)" by (simp add: request_line_def)
  have h: "parse_headers sse buf mx (m_headers out) 0 (12 + (?M + ?T)) =
      ((write_at 0 (entries_at (12 + (?M + ?T)) (req_headers r)) (m_headers out), length (req_headers r)),
       Ok (length (print_request r)))"
    using parse_headers_print [of "req_headers r" 0 mx "m_headers out" buf "request_line r" post sse]
      wf mx by (simp add: line print_request_def buf request_wf_def)
  show ?thesis
    using t mx(3) ne
    by (simp add: parse_request_eq CHECK_EOF_def eol skip_line_end_def Let_def request_out_def line
        a1 s1 [simplified] a2 [simplified] s2 [simplified] v [simplified] nl [simplified] h)
qed

section \<open>More input does not change a verdict\<close>

text \<open>A result other than "partial" (and other than leaving the buffer) is final.\<close>

definition final :: "'a pres \<Rightarrow> bool" where
  "final r \<longleftrightarrow> r \<noteq> Ret (- 2) \<and> r \<noteq> Oob"

lemma final_simps [simp]: "final (Ok a)" "final (Ret r) \<longleftrightarrow> r \<noteq> - 2" "\<not> final Oob"
  by (simp_all add: final_def)

lemma bind_stable:
  assumes "final (bind_pres r k)" "final r \<Longrightarrow> r' = r"
    and "\<And>a. r = Ok a \<Longrightarrow> final (k a) \<Longrightarrow> k' a = k a"
  shows "bind_pres r' k' = bind_pres r k"
  using assms by (cases r) auto

lemma with_out_stable:
  assumes "final (snd (with_out out r k))" "final r \<Longrightarrow> r' = r"
    and "\<And>a. r = Ok a \<Longrightarrow> final (snd (k a)) \<Longrightarrow> k' a = k a"
  shows "with_out out r' k' = with_out out r k"
  using assms by (cases r) auto

lemma if_stable:
  assumes "final (snd (if P then a else b))"
    and "P \<Longrightarrow> final (snd a) \<Longrightarrow> a' = a" "\<not> P \<Longrightarrow> final (snd b) \<Longrightarrow> b' = b"
  shows "(if P then a' else b') = (if P then a else b)"
  using assms by auto

lemma rd_stable: "final (rd buf p) \<Longrightarrow> rd (buf @ ext) p = rd buf p"
  by (auto simp: rd_def nth_append split: if_splits)

lemma CHECK_EOF_stable: "p < length buf \<Longrightarrow> CHECK_EOF (buf @ ext) p = CHECK_EOF buf p"
  by (simp add: CHECK_EOF_def)

lemma EXPECT_CHAR_NO_CHECK_stable:
  "final (EXPECT_CHAR_NO_CHECK ch buf p) \<Longrightarrow> EXPECT_CHAR_NO_CHECK ch (buf @ ext) p = EXPECT_CHAR_NO_CHECK ch buf p"
  unfolding EXPECT_CHAR_NO_CHECK_def by (rule bind_stable) (auto intro: rd_stable)

lemma EXPECT_CHAR_stable: "final (EXPECT_CHAR ch buf p) \<Longrightarrow> EXPECT_CHAR ch (buf @ ext) p = EXPECT_CHAR ch buf p"
  by (auto simp: EXPECT_CHAR_def EXPECT_CHAR_NO_CHECK_def CHECK_EOF_def rd_def nth_append split: if_splits)

lemma scan_loop_stable: "final (scan_loop f buf p) \<Longrightarrow> scan_loop f (buf @ ext) p = scan_loop f buf p"
proof (induction f buf p rule: scan_loop.induct)
  case (1 f buf p)
  then show ?case
    by (subst (asm) (2) scan_loop.simps, subst scan_loop.simps, subst (2) scan_loop.simps)
      (auto simp: nth_append split: if_splits verdict.splits)
qed

lemma get_token_to_eol_stable:
  assumes "final (get_token_to_eol sse buf p)"
  shows "get_token_to_eol sse (buf @ ext) p = get_token_to_eol sse buf p"
proof (cases "p \<le> length buf")
  case True
  have "final (bind_pres (scan_loop eol_class buf p) (\<lambda>q.
      bind_pres (rd buf q) (\<lambda>c.
       if c = 13 then bind_pres (EXPECT_CHAR 10 buf (q + 1)) (\<lambda>e. Ok ((p, e - 2 - p), e))
       else if c = 10 then Ok ((p, q - p), q + 1) else Ret (- 1))))"
    using assms True by (simp add: get_token_to_eol_plain)
  then have "bind_pres (scan_loop eol_class (buf @ ext) p) (\<lambda>q.
      bind_pres (rd (buf @ ext) q) (\<lambda>c.
       if c = 13 then bind_pres (EXPECT_CHAR 10 (buf @ ext) (q + 1)) (\<lambda>e. Ok ((p, e - 2 - p), e))
       else if c = 10 then Ok ((p, q - p), q + 1) else Ret (- 1))) = get_token_to_eol sse buf p"
    unfolding get_token_to_eol_plain [OF True]
    by (rule bind_stable) (auto intro!: bind_stable scan_loop_stable rd_stable EXPECT_CHAR_stable)
  with True show ?thesis by (simp add: get_token_to_eol_plain)
next
  case False
  with assms show ?thesis
    by (simp add: get_token_to_eol_def find_ctl_def findchar_fast_def eol_fast.simps [of buf p]
        scan_loop.simps [of _ buf p] split: if_splits)
qed

lemma name_scan_stable:
  "p < length buf \<Longrightarrow> final (fast_then_scan sse name_ranges name_class buf p) \<Longrightarrow>
   fast_then_scan sse name_ranges name_class (buf @ ext) p =
     fast_then_scan sse name_ranges name_class buf p"
  by (simp add: name_scan_plain scan_loop_stable)

lemma ADVANCE_TOKEN_stable:
  assumes "final (ADVANCE_TOKEN sse buf p)" "p \<le> length buf"
  shows "ADVANCE_TOKEN sse (buf @ ext) p = ADVANCE_TOKEN sse buf p"
proof -
  have "final (scan_loop token_class buf p)"
    using assms by (cases "scan_loop token_class buf p") (auto simp: ADVANCE_TOKEN_plain)
  with assms(2) show ?thesis by (simp add: ADVANCE_TOKEN_plain scan_loop_stable)
qed

lemma skip_sp_stable: "final (skip_sp buf p) \<Longrightarrow> skip_sp (buf @ ext) p = skip_sp buf p"
proof (induction buf p rule: skip_sp.induct)
  case (1 buf p)
  then show ?case
    by (subst (asm) (2) skip_sp.simps, subst skip_sp.simps, subst (2) skip_sp.simps)
      (auto simp: rd_def nth_append split: if_splits)
qed

lemma expect_chars_stable:
  "final (expect_chars chs buf p) \<Longrightarrow> expect_chars chs (buf @ ext) p = expect_chars chs buf p"
proof (induction chs arbitrary: p)
  case (Cons c chs)
  show ?case
    unfolding expect_chars.simps
    by (rule bind_stable)
      (use Cons in \<open>auto intro: EXPECT_CHAR_NO_CHECK_stable\<close>)
qed simp

lemma PARSE_INT_stable: "final (PARSE_INT mul buf p) \<Longrightarrow> PARSE_INT mul (buf @ ext) p = PARSE_INT mul buf p"
  unfolding PARSE_INT_def by (rule bind_stable) (auto intro: rd_stable)

lemma parse_http_version_stable:
  assumes "final (parse_http_version buf p)"
  shows "parse_http_version (buf @ ext) p = parse_http_version buf p"
proof -
  have "\<not> length buf - p < 9" using assms by (auto simp: parse_http_version_def)
  moreover from this have "final (bind_pres (expect_chars http_1 buf p) (PARSE_INT 1 buf))"
    using assms by (simp add: parse_http_version_def)
  then have "bind_pres (expect_chars http_1 (buf @ ext) p) (PARSE_INT 1 (buf @ ext)) =
      bind_pres (expect_chars http_1 buf p) (PARSE_INT 1 buf)"
    by (rule bind_stable) (auto intro: expect_chars_stable PARSE_INT_stable)
  ultimately show ?thesis by (auto simp: parse_http_version_def)
qed

lemma trim_value_stable: "v + n \<le> length buf \<Longrightarrow> trim_value (buf @ ext) v n = trim_value buf v n"
  by (induction n) (auto simp: nth_append)

lemma parse_value_stable:
  assumes "final (snd (parse_value sse buf num hs p))"
  shows "parse_value sse (buf @ ext) num hs p = parse_value sse buf num hs p"
  using assms unfolding parse_value_def
  by (rule with_out_stable)
    (auto intro: get_token_to_eol_stable simp: trim_value_stable dest!: get_token_to_eol_Ok)

lemma parse_header_stable:
  assumes "final (snd (parse_header sse buf num hs p))"
  shows "parse_header sse (buf @ ext) num hs p = parse_header sse buf num hs p"
  using assms unfolding parse_header_def
  apply (rule with_out_stable)
   apply (erule rd_stable)
  apply (erule if_stable)
   apply (erule with_out_stable, rule refl)
   apply (erule with_out_stable, rule name_scan_stable, simp, assumption)
   apply (erule with_out_stable, rule refl)
   apply (erule if_stable, rule refl)
   apply (erule with_out_stable, erule scan_loop_stable)
   apply (erule parse_value_stable)
  apply (erule with_out_stable, rule refl)
  apply (erule parse_value_stable)
  done

lemma parse_headers_stable:
  "final (snd (parse_headers sse buf mx hs num p)) \<Longrightarrow>
   parse_headers sse (buf @ ext) mx hs num p = parse_headers sse buf mx hs num p"
proof (induction sse buf mx hs num p rule: parse_headers.induct)
  case (1 sse buf mx hs num p)
  have p: "p < length buf"
    using "1.prems" by (subst (asm) parse_headers.simps) (auto split: if_splits)
  obtain hs1 r where h: "parse_header sse buf num hs p = (hs1, r)" by fastforce
  consider "buf ! p = 13 \<or> buf ! p = 10 \<or> num = mx"
    | (more) "buf ! p \<noteq> 13" "buf ! p \<noteq> 10" "num \<noteq> mx" by blast
  then show ?case
  proof cases
    case 1
    have "final (EXPECT_CHAR 10 buf (p + 1))" if "buf ! p = 13"
      using "1.prems" p that by (subst (asm) parse_headers.simps) auto
    with 1 p EXPECT_CHAR_stable [of 10 buf "p + 1" ext] show ?thesis
      by (auto simp: parse_headers.simps [of sse _ mx hs num p] nth_append)
  next
    case more
    have eq: "parse_headers sse buf mx hs num p =
        (case r of Ok e \<Rightarrow> parse_headers sse buf mx hs1 (num + 1) e
         | Ret k \<Rightarrow> ((hs1, num), Ret k) | Oob \<Rightarrow> ((hs1, num), Oob))"
      using more p h by (subst parse_headers.simps) (simp split: pres.split)
    then have "final r" using "1.prems" by (cases r) auto
    then have "parse_header sse (buf @ ext) num hs p = (hs1, r)"
      using parse_header_stable [of sse buf num hs p ext] h by simp
    then have "parse_headers sse (buf @ ext) mx hs num p =
        (case r of Ok e \<Rightarrow> parse_headers sse (buf @ ext) mx hs1 (num + 1) e
         | Ret k \<Rightarrow> ((hs1, num), Ret k) | Oob \<Rightarrow> ((hs1, num), Oob))"
      using more p by (subst parse_headers.simps) (simp add: nth_append split: pres.split)
    with eq "1.IH" [of hs1 r] "1.prems" more p h show ?thesis by (cases r) auto
  qed
qed

lemma skip_line_end_stable:
  "final (skip_line_end buf p c r) \<Longrightarrow> skip_line_end (buf @ ext) p c r = skip_line_end buf p c r"
  by (auto simp: skip_line_end_def EXPECT_CHAR_stable split: if_splits)

lemma parse_request_stable:
  assumes "final (snd (parse_request sse buf mx out p))" "p < length buf"
  shows "parse_request sse (buf @ ext) mx out p = parse_request sse buf mx out p"
  using assms(1) unfolding parse_request_eq Let_def case_prod_unfold
  apply (rule with_out_stable)
   apply (simp add: CHECK_EOF_stable assms(2))
  apply (erule with_out_stable, erule rd_stable)
  apply (erule with_out_stable, erule skip_line_end_stable)
  apply (erule with_out_stable, erule ADVANCE_TOKEN_stable)
   subgoal by (auto simp: skip_line_end_def split: if_splits)
  apply (erule with_out_stable, erule skip_sp_stable)
  apply (erule with_out_stable, erule ADVANCE_TOKEN_stable)
   subgoal by (auto dest: skip_sp_Ok)
  apply (erule with_out_stable, erule skip_sp_stable)
  apply (erule if_stable, rule refl)
  apply (erule with_out_stable, erule parse_http_version_stable)
  apply (erule with_out_stable, erule rd_stable)
  apply (erule with_out_stable, erule skip_line_end_stable)
  apply (simp add: parse_headers_stable)
  done

section \<open>Return values\<close>

definition ret_ok :: "'a pres \<Rightarrow> bool" where
  "ret_ok r \<longleftrightarrow> (\<forall>k. r = Ret k \<longrightarrow> k = - 1 \<or> k = - 2)"

lemma ret_ok_simps [simp]: "ret_ok (Ok a)" "ret_ok (Ret k) \<longleftrightarrow> k = - 1 \<or> k = - 2" "ret_ok Oob"
  by (auto simp: ret_ok_def)

lemma bind_ret_ok: "ret_ok r \<Longrightarrow> (\<And>a. r = Ok a \<Longrightarrow> ret_ok (k a)) \<Longrightarrow> ret_ok (bind_pres r k)"
  by (cases r) auto

lemma with_out_ret_ok:
  "ret_ok r \<Longrightarrow> (\<And>a. r = Ok a \<Longrightarrow> ret_ok (snd (k a))) \<Longrightarrow> ret_ok (snd (with_out out r k))"
  by (cases r) auto

lemma prim_ret_ok [simp]:
  "ret_ok (rd buf p)" "ret_ok (CHECK_EOF buf p)" "ret_ok (put_field i f hs)" "ret_ok (EXPECT_CHAR ch buf p)"
  by (auto simp: rd_def CHECK_EOF_def put_field_def EXPECT_CHAR_def EXPECT_CHAR_NO_CHECK_def)

lemma scan_loop_ret_ok [simp]: "ret_ok (scan_loop f buf p)"
  by (induction f buf p rule: scan_loop.induct) (subst scan_loop.simps, auto split: verdict.splits)

lemma get_token_to_eol_ret_ok: "p \<le> length buf \<Longrightarrow> ret_ok (get_token_to_eol sse buf p)"
  by (auto simp: get_token_to_eol_plain intro!: bind_ret_ok)

lemma parse_value_ret_ok: "p \<le> length buf \<Longrightarrow> ret_ok (snd (parse_value sse buf num hs p))"
  by (auto simp: parse_value_def intro!: with_out_ret_ok get_token_to_eol_ret_ok)

lemma parse_header_ret_ok: "ret_ok (snd (parse_header sse buf num hs p))"
  unfolding parse_header_def
  by (auto intro!: with_out_ret_ok parse_value_ret_ok simp: name_scan_plain dest!: scan_loop_Ok)

lemma parse_headers_ret_ok: "ret_ok (snd (parse_headers sse buf mx hs num p))"
proof (induction sse buf mx hs num p rule: parse_headers.induct)
  case (1 sse buf mx hs num p)
  then show ?case
    using parse_header_ret_ok [of sse buf num hs p]
    by (subst parse_headers.simps) (auto split: prod.splits pres.splits)
qed

lemma check_complete_ret_ok: "ret_ok (check_complete buf last_len)"
proof -
  have "ret_ok (is_complete_loop buf p n)" for p n
    by (induction buf p n rule: is_complete_loop.induct) (subst is_complete_loop.simps, auto)
  then show ?thesis by (auto simp: check_complete_def is_complete_def intro!: bind_ret_ok)
qed

section \<open>The request parser as a whole\<close>

lemma parse_printed_request:
  assumes "request_wf r" "length (req_headers r) \<le> m_headers_num out"
    "m_headers_num out \<le> length (m_headers out)" "length (print_request r) < 2 ^ 31"
  shows "phr_parse_request sse (print_request r @ post) out 0 =
    (request_out r out, Val (int (length (print_request r))))"
proof -
  let ?out = "out\<lparr>mp_method := None, m_method_len := 0, mp_path := None, m_path_len := 0,
    m_version := - 1, m_headers_num := 0\<rparr>"
  have "sint (of_nat (length (print_request r)) :: c_int) = int (length (print_request r))"
    using assms(4) by (subst sint_small) (simp_all add: unat_of_nat)
  moreover have "parse_request sse (print_request r @ post) (m_headers_num out) ?out 0 =
      (request_out r ?out, Ok (length (print_request r)))"
    by (rule parse_request_print) (use assms in auto)
  ultimately show ?thesis
    by (simp add: phr_parse_request_eq check_complete_def ret_int_def request_out_def)
qed

lemma request_final:
  assumes "phr_parse_request sse buf out 0 = (out', Val n)" "n \<noteq> - 2"
  shows "phr_parse_request sse (buf @ ext) out 0 = (out', Val n)"
proof (cases "buf = []")
  case True
  with assms(1,2) show ?thesis
    by (simp add: phr_parse_request_eq check_complete_def parse_request_eq CHECK_EOF_def ret_int_def)
next
  case False
  let ?out = "out\<lparr>mp_method := None, m_method_len := 0, mp_path := None, m_path_len := 0,
    m_version := - 1, m_headers_num := 0\<rparr>"
  obtain o1 r where p: "parse_request sse buf (m_headers_num out) ?out 0 = (o1, r)" by fastforce
  then have "o1 = out'" "ret_int r = Val n"
    using assms(1) by (simp_all add: phr_parse_request_eq check_complete_def)
  moreover from this have "final r"
    using assms(2) by (cases r) (auto simp: ret_int_def)
  ultimately show ?thesis
    using parse_request_stable [of sse buf "m_headers_num out" ?out 0 ext] p False
    by (simp add: phr_parse_request_eq check_complete_def)
qed

lemma request_no_over_read:
  assumes "buf = [] \<or> last buf \<noteq> 0x20" "m_headers_num out \<le> length (m_headers out)"
    "last_len \<le> length buf"
  shows "snd (phr_parse_request sse buf out last_len) \<noteq> Undefined"
proof (cases "buf = []")
  case True
  with assms(3) show ?thesis
    by (simp add: phr_parse_request_eq check_complete_def parse_request_eq CHECK_EOF_def ret_int_def)
next
  case False
  let ?out = "out\<lparr>mp_method := None, m_method_len := 0, mp_path := None, m_path_len := 0,
    m_version := - 1, m_headers_num := 0\<rparr>"
  have "snd (parse_request sse buf (m_headers_num out) ?out 0) \<noteq> Oob"
    by (rule parse_request_safe) (use assms False in auto)
  moreover have "check_complete buf last_len \<noteq> Oob" using assms(3) by (simp add: check_complete_Oob)
  ultimately show ?thesis
    by (cases "check_complete buf last_len")
      (auto simp: phr_parse_request_eq ret_int_def Let_def split: pres.splits)
qed

lemma parse_headers_Ok_le: "snd (parse_headers sse buf mx hs num p) = Ok e \<Longrightarrow> e \<le> length buf"
proof (induction sse buf mx hs num p rule: parse_headers.induct)
  case (1 sse buf mx hs num p)
  from "1.prems" show ?case
    by (subst (asm) parse_headers.simps) (auto split: if_splits prod.splits pres.splits dest: "1.IH")
qed

lemma with_out_Ok_snd: "snd (with_out out r k) = Ok b \<longleftrightarrow> (\<exists>a. r = Ok a \<and> snd (k a) = Ok b)"
  by (cases r) auto

lemma parse_request_Ok_le: "snd (parse_request sse buf mx out p) = Ok e \<Longrightarrow> e \<le> length buf"
  unfolding parse_request_eq Let_def case_prod_unfold
  by (auto simp: with_out_Ok_snd split: if_splits dest!: parse_headers_Ok_le)

lemma parse_request_prefix:
  assumes "request_wf r" "length (req_headers r) \<le> mx" "mx \<le> length (m_headers out)"
    "m_headers_num out = 0" "k < length (print_request r)" "k \<noteq> 0"
    and "last (take k (print_request r)) \<noteq> 0x20"
  shows "snd (parse_request sse (take k (print_request r)) mx out 0) = Ret (- 2)"
proof (rule ccontr)
  let ?buf = "take k (print_request r)" and ?ext = "drop k (print_request r)"
  assume "\<not> ?thesis"
  moreover have "snd (parse_request sse ?buf mx out 0) \<noteq> Oob"
    by (rule parse_request_safe) (use assms in auto)
  ultimately have "final (snd (parse_request sse ?buf mx out 0))" by (simp add: final_def)
  moreover have "0 < length ?buf" using assms(5,6) by simp
  ultimately have "parse_request sse (?buf @ ?ext) mx out 0 = parse_request sse ?buf mx out 0"
    by (rule parse_request_stable)
  moreover have "parse_request sse (?buf @ ?ext) mx out 0 = (request_out r out, Ok (length (print_request r)))"
    using parse_request_print [OF assms(1) refl, of mx out sse "[]"] assms by simp
  ultimately have "snd (parse_request sse ?buf mx out 0) = Ok (length (print_request r))" by simp
  from parse_request_Ok_le [OF this] assms(5) show False by simp
qed

subsection \<open>Readable memory behind the input\<close>

text \<open>A parse that stays inside the buffer does not depend on what lies behind it.\<close>

lemma skip_sp_behind_eq: "skip_sp buf p \<noteq> Oob \<Longrightarrow> skip_sp (buf @ behind) p = skip_sp buf p"
proof (rule skip_sp_stable)
  assume "skip_sp buf p \<noteq> Oob"
  with skip_sp_no_Ret show "final (skip_sp buf p)" by (simp add: final_def)
qed

lemma with_out_inside:
  assumes "snd (with_out out r k) \<noteq> Oob" "r \<noteq> Oob \<Longrightarrow> r' = r"
    and "\<And>a. r = Ok a \<Longrightarrow> snd (k a) \<noteq> Oob \<Longrightarrow> k' a = k a"
  shows "with_out out r' k' = with_out out r k"
  using assms by (cases r) auto

lemma parse_request_mem_inside:
  assumes "snd (parse_request sse buf mx out p) \<noteq> Oob"
  shows "parse_request_mem sse behind buf mx out p = parse_request sse buf mx out p"
  using assms unfolding parse_request_eq parse_request_mem_def Let_def case_prod_unfold
  apply (rule with_out_inside)
   apply (rule refl)
  apply (erule with_out_inside, rule refl)
  apply (erule with_out_inside, rule refl)
  apply (erule with_out_inside, rule refl)
  apply (erule with_out_inside, erule skip_sp_behind_eq)
  apply (erule with_out_inside, rule refl)
  apply (erule with_out_inside, erule skip_sp_behind_eq)
  apply (rule refl)
  done

text \<open>
  With a readable byte other than a space behind the input the loops over spaces stop at
  \<open>buf_end\<close> at the latest, where the next test finds the input incomplete.
\<close>

lemma skip_sp_behind:
  assumes "p < length buf" "c \<noteq> 0x20"
  shows "\<exists>q. skip_sp (buf @ c # cs) p = Ok q \<and> p < q \<and> q \<le> length buf \<and>
    (q < length buf \<longrightarrow> skip_sp (buf @ ext) p = Ok q)"
  using assms
proof (induction buf p rule: skip_sp.induct)
  case (1 buf p)
  show ?case
  proof (cases "p + 1 < length buf")
    case True
    with "1.IH" [of "buf ! (p + 1)"] "1.prems" show ?thesis
      by (cases "buf ! (p + 1) = 0x20")
        (auto simp: skip_sp.simps [of _ p] rd_def nth_append)
  next
    case False
    with "1.prems" have "p + 1 = length buf" by simp
    with "1.prems" show ?thesis by (simp add: skip_sp.simps [of _ p] rd_def nth_append)
  qed
qed

lemma ADVANCE_TOKEN_inside: "ADVANCE_TOKEN sse buf p = Ok tq \<Longrightarrow> snd tq < length buf"
  using ADVANCE_TOKEN_Ok [of sse buf p "fst (fst tq)" "snd (fst tq)" "snd tq"] by simp

lemma ADVANCE_TOKEN_end: "ADVANCE_TOKEN sse buf (length buf) = Ret (- 2)"
  by (simp add: ADVANCE_TOKEN_plain scan_loop.simps [of _ buf "length buf"])

lemma parse_http_version_end: "parse_http_version buf (length buf) = Ret (- 2)"
  by (simp add: parse_http_version_def)

lemma parse_request_mem_safe:
  assumes "c \<noteq> 0x20" "p \<le> length buf" "m_headers_num out \<le> mx" "mx \<le> length (m_headers out)"
  shows "snd (parse_request_mem sse (c # cs) buf mx out p) \<noteq> Oob"
  by (rule parse_request_safe_if) (use assms skip_sp_behind [of _ buf c cs] in blast)+

lemma parse_request_mem_Ok_le: "snd (parse_request_mem sse behind buf mx out p) = Ok e \<Longrightarrow> e \<le> length buf"
  unfolding parse_request_mem_def Let_def case_prod_unfold
  by (auto simp: with_out_Ok_snd split: if_splits dest!: parse_headers_Ok_le)

text \<open>A final verdict is the verdict on the continued input, unless that makes the parser leave the buffer.\<close>

lemma with_out_final:
  assumes "final (snd (with_out out r k))" "snd (with_out out r' k') \<noteq> Oob" "final r \<Longrightarrow> r' = r"
    and "\<And>a. r = Ok a \<Longrightarrow> final (snd (k a)) \<Longrightarrow> snd (k' a) \<noteq> Oob \<Longrightarrow> k' a = k a"
  shows "with_out out r' k' = with_out out r k"
  using assms by (cases r) auto

lemma with_skip_final:
  assumes "final (snd (with_out out (skip_sp (buf @ c # cs) p) k))"
    and "snd (with_out out (skip_sp (buf @ ext) p) k') \<noteq> Oob" and "c \<noteq> 0x20" "p < length buf"
    and "\<And>q. final (snd (k (length buf))) \<Longrightarrow> snd (k' q) \<noteq> Oob \<Longrightarrow> k' q = k (length buf)"
    and "\<And>q. q < length buf \<Longrightarrow> final (snd (k q)) \<Longrightarrow> snd (k' q) \<noteq> Oob \<Longrightarrow> k' q = k q"
  shows "with_out out (skip_sp (buf @ ext) p) k' = with_out out (skip_sp (buf @ c # cs) p) k"
proof -
  obtain q where q: "skip_sp (buf @ c # cs) p = Ok q" "q \<le> length buf"
      "q < length buf \<longrightarrow> skip_sp (buf @ ext) p = Ok q"
    using skip_sp_behind [OF assms(4,3)] by blast
  obtain q' where q': "skip_sp (buf @ ext) p = Ok q'"
    using assms(2) skip_sp_no_Ret by (cases "skip_sp (buf @ ext) p") auto
  show ?thesis
  proof (cases "q < length buf")
    case True
    with q q' assms(1,2,6) show ?thesis by simp
  next
    case False
    with q have "q = length buf" by simp
    with q q' assms(1,2,5) show ?thesis by simp
  qed
qed

lemma parse_request_mem_final:
  assumes "final (snd (parse_request_mem sse (c # cs) buf mx out p))"
    and "snd (parse_request sse (buf @ ext) mx out p) \<noteq> Oob" and "c \<noteq> 0x20" "p < length buf"
  shows "parse_request sse (buf @ ext) mx out p = parse_request_mem sse (c # cs) buf mx out p"
  using assms(1,2) unfolding parse_request_eq parse_request_mem_def Let_def case_prod_unfold
  apply (rule with_out_final)
   apply (simp add: CHECK_EOF_stable assms(4))
  apply (erule (1) with_out_final, erule rd_stable)
  apply (erule (1) with_out_final, erule skip_line_end_stable)
  apply (erule (1) with_out_final, erule ADVANCE_TOKEN_stable)
   subgoal by (auto simp: skip_line_end_def split: if_splits)
  apply (erule (1) with_skip_final, rule assms(3))
    subgoal by (rule ADVANCE_TOKEN_inside)
   subgoal by (simp add: ADVANCE_TOKEN_end)
  apply (erule (1) with_out_final, erule ADVANCE_TOKEN_stable, simp)
  apply (erule (1) with_skip_final, rule assms(3))
    subgoal by (rule ADVANCE_TOKEN_inside)
   subgoal by (erule if_stable, rule refl, simp add: parse_http_version_end)
  apply (erule if_stable, rule refl)
  apply (erule with_out_stable, erule parse_http_version_stable)
  apply (erule with_out_stable, erule rd_stable)
  apply (erule with_out_stable, erule skip_line_end_stable)
  apply (simp add: parse_headers_stable)
  done

lemma parse_request_mem_prefix:
  assumes "request_wf r" "length (req_headers r) \<le> mx" "mx \<le> length (m_headers out)"
    "m_headers_num out = 0" "k < length (print_request r)" "k \<noteq> 0" and "c \<noteq> 0x20"
  shows "snd (parse_request_mem sse (c # cs) (take k (print_request r)) mx out 0) = Ret (- 2)"
proof (rule ccontr)
  let ?buf = "take k (print_request r)" and ?ext = "drop k (print_request r)"
  assume "\<not> ?thesis"
  moreover have "snd (parse_request_mem sse (c # cs) ?buf mx out 0) \<noteq> Oob"
    by (rule parse_request_mem_safe) (use assms in auto)
  ultimately have "final (snd (parse_request_mem sse (c # cs) ?buf mx out 0))" by (simp add: final_def)
  moreover have whole: "parse_request sse (?buf @ ?ext) mx out 0 = (request_out r out, Ok (length (print_request r)))"
    using parse_request_print [OF assms(1) refl, of mx out sse "[]"] assms by simp
  ultimately have "parse_request sse (?buf @ ?ext) mx out 0 = parse_request_mem sse (c # cs) ?buf mx out 0"
    using assms(5-7) by (intro parse_request_mem_final) simp_all
  with whole have "snd (parse_request_mem sse (c # cs) ?buf mx out 0) = Ok (length (print_request r))"
    by (metis snd_conv)
  from parse_request_mem_Ok_le [OF this] assms(5) show False by simp
qed

lemma phr_parse_request_mem_inside:
  assumes "snd (phr_parse_request sse buf out 0) \<noteq> Undefined"
  shows "phr_parse_request_mem sse behind buf out 0 = phr_parse_request sse buf out 0"
proof -
  let ?out = "out\<lparr>mp_method := None, m_method_len := 0, mp_path := None, m_path_len := 0,
    m_version := - 1, m_headers_num := 0\<rparr>"
  have "snd (parse_request sse buf (m_headers_num out) ?out 0) \<noteq> Oob"
    using assms by (auto simp: phr_parse_request_eq check_complete_def ret_int_def)
  then show ?thesis
    by (simp add: phr_parse_request_mem_def phr_parse_request_eq check_complete_def parse_request_mem_inside)
qed

text \<open>
  A proper prefix of a well-formed request is incomplete wherever it is cut, as long as a byte
  other than a space can be read behind it.
\<close>

lemma request_mem_prefix:
  assumes "request_wf r" "length (req_headers r) \<le> m_headers_num out"
    "m_headers_num out \<le> length (m_headers out)" "k < length (print_request r)" "k \<noteq> 0" and "c \<noteq> 0x20"
  shows "snd (phr_parse_request_mem sse (c # cs) (take k (print_request r)) out 0) = Val (- 2)"
  using assms by (simp add: phr_parse_request_mem_def check_complete_def ret_int_def parse_request_mem_prefix)

lemma sse_parse_request: "phr_parse_request True = phr_parse_request False"
proof -
  have "parse_request True = parse_request False"
    by (intro ext) (unfold parse_request_eq sse_agree, rule refl)
  then show ?thesis by (intro ext) (simp add: phr_parse_request_eq)
qed

lemma phr_parse_request_sse: "phr_parse_request sse = phr_parse_request False"
  by (cases sse) (simp_all add: sse_parse_request)

section \<open>Properties\<close>

text \<open>
  C26: compiling with or without SSE4.2 makes no difference: the request, response and header
  parsers give the same return value and leave the same output parameters on every input, the
  partially written ones of a failed parse included.
\<close>

theorem sse_equivalence:
  "phr_parse_request True = phr_parse_request False \<and>
   phr_parse_response True = phr_parse_response False \<and>
   phr_parse_headers True = phr_parse_headers False"
proof -
  have "parse_response True = parse_response False"
    by (intro ext) (unfold parse_response_def sse_agree, rule refl)
  then show ?thesis
    by (intro conjI ext)
      (simp_all add: sse_parse_request phr_parse_response_def phr_parse_headers_def sse_agree)
qed

text \<open>
  \<open>phr_parse_headers\<close> is memory safe: whatever the bytes, it reads inside the buffer and
  writes inside the header array, stores at most \<open>max_headers\<close> headers, and on success every
  stored header lies inside the consumed part, with a name of token characters (or none, for a
  continuation line) and a value without control characters and trailing blanks.
\<close>

theorem phr_parse_headers_safe:
  assumes "mx \<le> length hs" "last_len \<le> length buf" "length buf < 2 ^ 31"
  shows "case phr_parse_headers sse buf hs mx last_len of ((hs', num), r) \<Rightarrow>
    length hs' = length hs \<and> num \<le> mx \<and>
    (r = Val (- 1) \<or> r = Val (- 2) \<or>
     (\<exists>n. r = Val (int n) \<and> 0 < n \<and> n \<le> length buf \<and> (\<forall>i < num. header_ok buf n (hs' ! i))))"
proof -
  obtain hs' num r where p: "parse_headers sse buf mx hs 0 0 = ((hs', num), r)"
    by (metis prod.exhaust_sel)
  note safe = parse_headers_safe [OF _ _ assms(1) p]
  have n: "n \<le> length buf \<Longrightarrow> sint (of_nat n :: c_int) = int n" for n
    using assms(3) by (subst sint_small) (simp_all add: unat_of_nat)
  have c: "check_complete buf last_len \<noteq> Oob" using assms(2) by (simp add: check_complete_Oob)
  show ?thesis
  proof (cases "check_complete buf last_len")
    case (Ok u)
    with safe parse_headers_ret_ok [of sse buf mx hs 0 0] parse_headers_content [of sse buf mx hs 0 0] p
    show ?thesis
      by (cases r) (auto simp: phr_parse_headers_def ret_int_def n)
  qed (use c check_complete_ret_ok [of buf last_len] in \<open>auto simp: phr_parse_headers_def ret_int_def\<close>)
qed

definition blank_header :: phr_header where
  "blank_header = \<lparr>name = None, name_len = 0, hvalue = None, value_len = 0\<rparr>"

definition sample_headers :: "u8 list" where
  "sample_headers = [0x41, 0x3a, 0x20, 0x62, 0x20, 13, 10, 13, 10]"

theorem phr_parse_headers_safe_witness:
  "case phr_parse_headers True sample_headers (replicate 2 blank_header) 2 0 of ((hs', num), r) \<Rightarrow>
    length hs' = 2 \<and> num \<le> 2 \<and>
    (r = Val (- 1) \<or> r = Val (- 2) \<or>
     (\<exists>n. r = Val (int n) \<and> 0 < n \<and> n \<le> length sample_headers \<and>
       (\<forall>i < num. header_ok sample_headers n (hs' ! i))))"
proof -
  have "length sample_headers < 2 ^ 31" by (simp add: sample_headers_def)
  then show ?thesis
    using phr_parse_headers_safe [of 2 "replicate 2 blank_header" 0 sample_headers True] by simp
qed

text \<open>
  C27: every well-formed request is parsed back: \<open>phr_parse_request\<close> on a printed request followed
  by anything returns the length of the request, and the output parameters point at its method,
  its path, its minor version and its headers in order.
\<close>

theorem request_roundtrip:
  assumes "request_wf r" "length (req_headers r) \<le> m_headers_num out"
    "m_headers_num out \<le> length (m_headers out)" "length (print_request r) < 2 ^ 31"
  shows "phr_parse_request sse (print_request r @ post) out 0 =
    (request_out r out, Val (int (length (print_request r))))"
  using assms by (rule parse_printed_request)

definition sample_request :: http_request where
  "sample_request = \<lparr>req_method = [0x47, 0x45, 0x54], req_path = [0x2f], req_minor = 1,
     req_headers = [([0x41], [0x62])]\<rparr>"

definition sample_out :: phr_request where
  "sample_out = \<lparr>mp_method = None, m_method_len = 0, mp_path = None, m_path_len = 0,
     m_version = 0, m_headers = replicate 4 blank_header, m_headers_num = 4\<rparr>"

lemma sample_request_wf: "request_wf sample_request"
  by code_simp

lemma length_sample: "length (print_request sample_request) = 24"
  by (simp add: print_request_def request_line_def sample_request_def)

theorem request_roundtrip_witness:
  "request_wf sample_request \<and>
   phr_parse_request True (print_request sample_request @ [0x7a]) sample_out 0 =
     (request_out sample_request sample_out, Val 24)"
  using request_roundtrip [of sample_request sample_out True "[0x7a]"] sample_request_wf
  by (simp add: length_sample) (simp add: sample_out_def sample_request_def)

text \<open>
  a verdict other than "partial" is final: a request parse that returned -1 or a length
  returns the same, with the same output parameters, when more bytes follow.
\<close>

theorem request_verdict_final:
  assumes "phr_parse_request sse buf out 0 = (out', Val n)" "n \<noteq> - 2"
  shows "phr_parse_request sse (buf @ ext) out 0 = (out', Val n)"
  using assms by (rule request_final)

theorem request_verdict_final_witness:
  "phr_parse_request False (print_request sample_request @ [0x7a]) sample_out 0 =
     (request_out sample_request sample_out, Val 24)"
  using request_verdict_final [of False "print_request sample_request @ []" sample_out
      "request_out sample_request sample_out" 24 "[0x7a]"]
    parse_request_print [OF sample_request_wf refl, of 4 _ False "[]"]
  by (simp add: length_sample) (simp add: sample_out_def sample_request_def phr_parse_request_eq check_complete_def ret_int_def request_out_def)

text \<open>
  no request is rejected early. On a proper prefix of a well-formed request the parser
  answers "partial" (-2), unless the prefix ends in a space, where it leaves the buffer (see
  the next property).
\<close>

theorem request_prefix_partial:
  assumes "request_wf r" "length (req_headers r) \<le> m_headers_num out"
    "m_headers_num out \<le> length (m_headers out)"
    and "k < length (print_request r)" "last (take k (print_request r)) \<noteq> 0x20"
  shows "snd (phr_parse_request sse (take k (print_request r)) out 0) = Val (- 2)"
proof (cases "k = 0")
  case True
  then show ?thesis
    by (simp add: phr_parse_request_eq check_complete_def parse_request_eq CHECK_EOF_def ret_int_def)
next
  case False
  with assms show ?thesis
    by (simp add: phr_parse_request_eq check_complete_def ret_int_def parse_request_prefix)
qed

theorem request_prefix_partial_witness:
  "snd (phr_parse_request True (take 5 (print_request sample_request)) sample_out 0) = Val (- 2)"
proof (rule request_prefix_partial)
  show "last (take 5 (print_request sample_request)) \<noteq> 0x20"
    by (simp add: print_request_def request_line_def sample_request_def)
qed (use sample_request_wf length_sample in \<open>auto simp: sample_out_def sample_request_def\<close>)

text \<open>
  \<open>phr_parse_request\<close> stays inside the buffer whenever the buffer is empty or does not end in
  a space.
\<close>

theorem phr_parse_request_safe:
  assumes "buf = [] \<or> last buf \<noteq> 0x20" "m_headers_num out \<le> length (m_headers out)"
    "last_len \<le> length buf"
  shows "snd (phr_parse_request sse buf out last_len) \<noteq> Undefined"
  using assms by (rule request_no_over_read)

theorem phr_parse_request_safe_witness:
  "snd (phr_parse_request True [0x47, 0x45] sample_out 1) \<noteq> Undefined"
  by (rule phr_parse_request_safe) (simp_all add: sample_out_def)

text \<open>
  the loops that skip spaces after the method and the path do not check for the end of the
  buffer: on a request cut behind a space the parser reads past \<open>buf_end\<close>.
\<close>

theorem phr_parse_request_over_read:
  assumes "list_all (\<lambda>c. token_class c = Skip) m" "m \<noteq> []" "0 < k"
  shows "snd (phr_parse_request sse (m @ replicate k 0x20) out 0) = Undefined"
proof -
  let ?buf = "m @ replicate k 0x20"
  have sp: "skip_sp ?buf p = Oob" if "length m \<le> p" "p < length ?buf" for p
    using that
  proof (induction ?buf p rule: skip_sp.induct)
    case (1 p)
    then show ?case
      by (cases "p + 1 < length ?buf") (auto simp: skip_sp.simps [of _ p] rd_def nth_append)
  qed
  obtain j where k: "k = Suc j" using assms(3) by (cases k) auto
  have "rd ?buf 0 = Ok (hd m)" using assms(2) by (simp add: nth_append hd_conv_nth)
  moreover have "ADVANCE_TOKEN sse ?buf 0 = Ok ((0, length m), length m)"
    using ADVANCE_TOKEN_print [OF assms(1), of sse "[]" "replicate j 0x20"] by (simp add: k)
  ultimately show ?thesis
    using skip_hd [OF assms(1,2)] sp [of "length m"] assms(2,3)
    by (simp add: phr_parse_request_eq check_complete_def parse_request_eq CHECK_EOF_def
        skip_line_end_def Let_def ret_int_def)
qed

theorem phr_parse_request_over_read_witness:
  "snd (phr_parse_request False ([0x47, 0x45, 0x54] @ replicate 1 0x20) sample_out 0) = Undefined"
  by (rule phr_parse_request_over_read) (simp_all add: token_class_def IS_PRINTABLE_ASCII_iff)

end
