(* ===== verification/WS_Handshake.thy ===== *)
theory WS_Handshake
  imports Pico_Http
begin

text \<open>
  \<open>include/xynet/http/http_parser.h\<close> and \<open>include/xynet/http/websocket_request_handler.h\<close>: the
  request parser object that wraps \<open>phr_parse_request\<close>, the WebSocket opening handshake that
  checks the parsed request, and the base64 encoder. \<open>SHA1\<close> is OpenSSL's function and a parameter
  of the model.
\<close>

definition ascii :: "string \<Rightarrow> u8 list" where
  "ascii s = map (\<lambda>c. of_nat (of_char c)) s"

section \<open>The request parser object\<close>

record http_parser =
  hp_out :: phr_request
  last_len :: nat

definition http_parser_new :: http_parser where
  "http_parser_new =
     \<lparr>hp_out = \<lparr>mp_method = None, m_method_len = 0, mp_path = None, m_path_len = 0, m_version = 0,
        m_headers = replicate 100 blank_header, m_headers_num = 100\<rparr>, last_len = 0\<rparr>"

text \<open>\<open>behind\<close> is the readable memory behind the input, as for \<open>phr_parse_request_mem\<close>.\<close>

definition http_parse_mem ::
  "bool \<Rightarrow> u8 list \<Rightarrow> u8 list \<Rightarrow> http_parser \<Rightarrow> http_parser \<times> int checked" where
  "http_parse_mem sse behind buf p =
     (case phr_parse_request_mem sse behind buf (hp_out p) (last_len p) of
        (out, ret) \<Rightarrow> (p\<lparr>hp_out := out, last_len := length buf\<rparr>, ret))"

definition http_parse :: "bool \<Rightarrow> u8 list \<Rightarrow> http_parser \<Rightarrow> http_parser \<times> int checked" where
  "http_parse sse buf p = http_parse_mem sse [] buf p"

lemma http_parse_eq:
  "http_parse sse buf p =
     (case phr_parse_request sse buf (hp_out p) (last_len p) of
        (out, ret) \<Rightarrow> (p\<lparr>hp_out := out, last_len := length buf\<rparr>, ret))"
  by (simp add: http_parse_def http_parse_mem_def phr_parse_request_def)

text \<open>The views the accessors return point into the buffer given to \<open>parse\<close>.\<close>

definition view_of :: "u8 list \<Rightarrow> nat option \<Rightarrow> nat \<Rightarrow> u8 list" where
  "view_of buf p n = (case p of None \<Rightarrow> [] | Some i \<Rightarrow> slice buf i n)"

definition hp_headers :: "u8 list \<Rightarrow> http_parser \<Rightarrow> (u8 list \<times> u8 list) list" where
  "hp_headers buf p =
     map (\<lambda>h. (view_of buf (name h) (name_len h), view_of buf (hvalue h) (value_len h)))
       (takeWhile (\<lambda>h. name h \<noteq> None) (m_headers (hp_out p)))"

definition hp_path :: "u8 list \<Rightarrow> http_parser \<Rightarrow> u8 list" where
  "hp_path buf p = view_of buf (mp_path (hp_out p)) (m_path_len (hp_out p))"

definition hp_method :: "u8 list \<Rightarrow> http_parser \<Rightarrow> u8 list" where
  "hp_method buf p = view_of buf (mp_method (hp_out p)) (m_method_len (hp_out p))"

definition hp_version :: "http_parser \<Rightarrow> int" where
  "hp_version p = m_version (hp_out p)"

section \<open>Constants\<close>

definition response_head :: "u8 list" where
  "response_head = ascii ''HTTP/1.1 101 Switching Protocols'' @ [13, 10] @
     ascii ''Upgrade: websocket'' @ [13, 10] @ ascii ''Connection: Upgrade'' @ [13, 10] @
     ascii ''Sec-WebSocket-Accept: ''"

definition websocket_handshake_response_model :: "u8 list" where
  "websocket_handshake_response_model =
     response_head @ ascii ''+XXXXXXXXXXXXXXXXXXXXXXXXXXX'' @ [13, 10, 13, 10]"

definition websocket_handshake_response_bad_request :: "u8 list" where
  "websocket_handshake_response_bad_request = ascii ''HTTP/1.1 400 Bad Request'' @ [13, 10]"

definition basis_64 :: "u8 list" where
  "basis_64 = ascii ''ABCDEFGHIJKLMNOPQRSTUVWXYZabcdefghijklmnopqrstuvwxyz0123456789+/''"

definition websocket_guid :: "u8 list" where
  "websocket_guid = ascii ''258EAFA5-E914-47DA-95CA-C5AB0DC85B11''"

text \<open>\<open>std::to_array\<close> of the literal keeps the terminating zero.\<close>

definition websocket_handshake_accept_concat :: "u8 list" where
  "websocket_handshake_accept_concat = ascii ''XXXXXXXXXXXXXXXXXXXXXX=='' @ websocket_guid @ [0]"

definition accept_key_pos :: nat where
  "accept_key_pos = length (takeWhile (\<lambda>c. c \<noteq> 0x2b) websocket_handshake_response_model)"

section \<open>Base64\<close>

text \<open>The indices into \<open>basis_64\<close>, computed on signed characters promoted to \<open>int\<close>.\<close>

definition b64_first :: "u8 \<Rightarrow> int" where
  "b64_first a = drop_bit 2 (sint a) AND 0x3F"

definition b64_second :: "u8 \<Rightarrow> u8 \<Rightarrow> int" where
  "b64_second a b = push_bit 4 (sint a AND 0x3) OR drop_bit 4 (sint b AND 0xF0)"

definition b64_third :: "u8 \<Rightarrow> u8 \<Rightarrow> int" where
  "b64_third b c = push_bit 2 (sint b AND 0xF) OR drop_bit 6 (sint c AND 0xC0)"

definition b64_fourth :: "u8 \<Rightarrow> int" where
  "b64_fourth c = sint c AND 0x3F"

definition basis :: "int \<Rightarrow> u8" where
  "basis i = basis_64 ! nat i"

text \<open>The loop and the tail, as the bytes stored through \<open>p\<close>.\<close>

function base64_loop :: "u8 list \<Rightarrow> nat \<Rightarrow> u8 list" where
  "base64_loop str i =
     (if i + 2 < length str
      then [basis (b64_first (str ! i)), basis (b64_second (str ! i) (str ! (i + 1))),
            basis (b64_third (str ! (i + 1)) (str ! (i + 2))), basis (b64_fourth (str ! (i + 2)))]
           @ base64_loop str (i + 3)
      else if i < length str
      then basis (b64_first (str ! i)) #
           (if i + 1 = length str
            then [basis (push_bit 4 (sint (str ! i) AND 0x3)), 0x3d]
            else [basis (b64_second (str ! i) (str ! (i + 1))),
                  basis (push_bit 2 (sint (str ! (i + 1)) AND 0xF))])
           @ [0x3d]
      else [])"
  by pat_completeness auto
termination by (relation "measure (\<lambda>(str, i). length str - i)") auto

declare base64_loop.simps [simp del]

definition base64_encode :: "nat \<Rightarrow> u8 list \<Rightarrow> u8 list \<Rightarrow> u8 list \<times> nat" where
  "base64_encode pos encoded str =
     (let out = base64_loop str 0 in (write_at pos out encoded, length out))"

section \<open>The handshake\<close>

datatype handler_state = H_empty | H_incomplete | H_parsed | H_bad_request

record websocket_request_handler =
  m_websocket_handshake_response :: "u8 list"
  m_websocket_handshake_accept_concat :: "u8 list"
  m_parser :: http_parser
  h_state :: handler_state

definition handler_new :: websocket_request_handler where
  "handler_new =
     \<lparr>m_websocket_handshake_response = websocket_handshake_response_model,
      m_websocket_handshake_accept_concat = websocket_handshake_accept_concat,
      m_parser = http_parser_new, h_state = H_empty\<rparr>"

definition handler_parse_mem :: "bool \<Rightarrow> u8 list \<Rightarrow> u8 list \<Rightarrow> websocket_request_handler
    \<Rightarrow> (websocket_request_handler \<times> int) checked" where
  "handler_parse_mem sse behind buf h =
     (case http_parse_mem sse behind buf (m_parser h) of
        (p, Undefined) \<Rightarrow> Undefined
      | (p, Val ret) \<Rightarrow>
          Val (h\<lparr>m_parser := p,
                 h_state := (if ret = - 1 then H_bad_request
                             else if ret = - 2 then H_incomplete else H_parsed)\<rparr>, ret))"

definition handler_parse :: "bool \<Rightarrow> u8 list \<Rightarrow> websocket_request_handler
    \<Rightarrow> (websocket_request_handler \<times> int) checked" where
  "handler_parse sse buf h = handler_parse_mem sse [] buf h"

lemma handler_parse_eq:
  "handler_parse sse buf h =
     (case http_parse sse buf (m_parser h) of
        (p, Undefined) \<Rightarrow> Undefined
      | (p, Val ret) \<Rightarrow>
          Val (h\<lparr>m_parser := p,
                 h_state := (if ret = - 1 then H_bad_request
                             else if ret = - 2 then H_incomplete else H_parsed)\<rparr>, ret))"
  by (simp add: handler_parse_def handler_parse_mem_def http_parse_def)

text \<open>A first parse that stays inside the input does not depend on the memory behind it.\<close>

lemma handler_parse_mem_inside:
  assumes "handler_parse sse buf handler_new = Val hr"
  shows "handler_parse_mem sse behind buf handler_new = Val hr"
proof -
  have "snd (phr_parse_request sse buf (hp_out http_parser_new) 0) \<noteq> Undefined"
    using assms by (auto simp: handler_parse_eq http_parse_eq handler_new_def http_parser_new_def
        split: prod.splits checked.splits)
  from phr_parse_request_mem_inside [OF this, of behind] assms show ?thesis
    by (simp add: handler_parse_mem_def handler_parse_eq http_parse_mem_def http_parse_eq
        handler_new_def http_parser_new_def)
qed

definition check_method :: "u8 list \<Rightarrow> websocket_request_handler \<Rightarrow> bool" where
  "check_method buf h \<longleftrightarrow> hp_method buf (m_parser h) = ascii ''GET''"

definition check_version :: "websocket_request_handler \<Rightarrow> bool" where
  "check_version h \<longleftrightarrow> hp_version (m_parser h) = 1"

text \<open>
  The four header checks. They are \<open>const\<close>, but the key check writes the mutable
  \<open>m_websocket_handshake_accept_concat\<close>, so each takes and returns that array.
\<close>

definition check_Connection :: "u8 list \<Rightarrow> bool" where
  "check_Connection v \<longleftrightarrow> v = ascii ''Upgrade''"

definition check_Upgrade :: "u8 list \<Rightarrow> bool" where
  "check_Upgrade v \<longleftrightarrow> v = ascii ''websocket''"

definition check_Sec_WebSocket_Version :: "u8 list \<Rightarrow> bool" where
  "check_Sec_WebSocket_Version v \<longleftrightarrow> v = ascii ''13''"

definition check_Sec_WebSocket_Key :: "u8 list \<Rightarrow> u8 list \<Rightarrow> bool \<times> u8 list" where
  "check_Sec_WebSocket_Key v concat_arr =
     (if length v = 24 then (True, write_at 0 v concat_arr) else (False, concat_arr))"

text \<open>The lookup in \<open>m_header_checker\<close> and the call through the member pointer.\<close>

definition run_checker :: "u8 list \<Rightarrow> u8 list \<Rightarrow> u8 list \<Rightarrow> bool \<times> u8 list" where
  "run_checker n v arr =
     (if n = ascii ''Connection'' then (check_Connection v, arr)
      else if n = ascii ''Upgrade'' then (check_Upgrade v, arr)
      else if n = ascii ''Sec-WebSocket-Version'' then (check_Sec_WebSocket_Version v, arr)
      else if n = ascii ''Sec-WebSocket-Key'' then check_Sec_WebSocket_Key v arr
      else (True, arr))"

fun check_headers :: "(u8 list \<times> u8 list) list \<Rightarrow> u8 list \<Rightarrow> bool \<times> u8 list" where
  "check_headers [] arr = (True, arr)"
| "check_headers ((n, v) # hs) arr =
     (case run_checker n v arr of
        (False, arr') \<Rightarrow> (False, arr')
      | (True, arr') \<Rightarrow> check_headers hs arr')"

definition check_all :: "u8 list \<Rightarrow> websocket_request_handler \<Rightarrow> bool \<times> u8 list" where
  "check_all buf h =
     (let arr = m_websocket_handshake_accept_concat h in
      if \<not> check_method buf h \<or> \<not> check_version h then (False, arr)
      else check_headers (hp_headers buf (m_parser h)) arr)"

definition generate_response :: "(u8 list \<Rightarrow> u8 list) \<Rightarrow> u8 list \<Rightarrow> websocket_request_handler
    \<Rightarrow> websocket_request_handler \<times> u8 list" where
  "generate_response SHA1 buf h =
     (if h_state h \<noteq> H_parsed
      then (h\<lparr>h_state := H_bad_request\<rparr>, websocket_handshake_response_bad_request)
      else case check_all buf h of
        (False, arr) \<Rightarrow>
          (h\<lparr>m_websocket_handshake_accept_concat := arr, h_state := H_bad_request\<rparr>,
           websocket_handshake_response_bad_request)
      | (True, arr) \<Rightarrow>
          (let digest = SHA1 (take (length arr - 1) arr);
               resp = fst (base64_encode accept_key_pos (m_websocket_handshake_response h) digest)
           in (h\<lparr>m_websocket_handshake_accept_concat := arr,
                 m_websocket_handshake_response := resp\<rparr>, resp)))"

section \<open>The encoder against RFC 4648\<close>

text \<open>The encoding over natural numbers: groups of three bytes, four 6-bit digits each.\<close>

definition digit :: "nat \<Rightarrow> u8" where
  "digit n = basis_64 ! n"

fun base64_spec :: "u8 list \<Rightarrow> u8 list" where
  "base64_spec [] = []"
| "base64_spec [a] = [digit (unat a div 4), digit (unat a mod 4 * 16), 0x3d, 0x3d]"
| "base64_spec [a, b] =
     [digit (unat a div 4), digit (unat a mod 4 * 16 + unat b div 16),
      digit (unat b mod 16 * 4), 0x3d]"
| "base64_spec (a # b # c # cs) =
     [digit (unat a div 4), digit (unat a mod 4 * 16 + unat b div 16),
      digit (unat b mod 16 * 4 + unat c div 64), digit (unat c mod 64)] @ base64_spec cs"

definition digit_value :: "u8 \<Rightarrow> nat" where
  "digit_value c = length (takeWhile (\<lambda>x. x \<noteq> c) basis_64)"

fun base64_decode :: "u8 list \<Rightarrow> u8 list" where
  "base64_decode (p # q # r # s # rest) =
     (let vp = digit_value p; vq = digit_value q; vr = digit_value r; vs = digit_value s;
          a = of_nat (vp * 4 + vq div 16); b = of_nat (vq mod 16 * 16 + vr div 4);
          c = of_nat (vr mod 4 * 64 + vs)
      in if r = 0x3d then [a] else if s = 0x3d then [a, b] else a # b # c # base64_decode rest)"
| "base64_decode _ = []"

lemma length_takeWhile_distinct:
  "distinct xs \<Longrightarrow> n < length xs \<Longrightarrow> length (takeWhile (\<lambda>x. x \<noteq> xs ! n) xs) = n"
proof (induction xs arbitrary: n)
  case (Cons x xs)
  then show ?case by (cases n) auto
qed simp

lemma basis_64_facts: "length basis_64 = 64" "distinct basis_64" "0x3d \<notin> set basis_64"
  by (simp_all add: basis_64_def ascii_def)

lemma digit_inverse: "n < 64 \<Longrightarrow> digit_value (digit n) = n \<and> digit n \<noteq> 0x3d"
  using basis_64_facts
  by (simp add: digit_def digit_value_def length_takeWhile_distinct) (metis nth_mem)

lemma take_bit_sint_byte: "take_bit 8 (sint (a :: u8)) = uint a"
proof -
  have "take_bit 8 (sint a) = take_bit 8 (uint a)" by (simp add: sint_uint take_bit_signed_take_bit)
  also have "\<dots> = uint a" by (rule take_bit_int_eq_self) (use unsigned_less [of a] in auto)
  finally show ?thesis .
qed

lemma sint_byte_mod: "n \<le> 8 \<Longrightarrow> sint (a :: u8) mod 2 ^ n = int (unat a mod 2 ^ n)"
proof -
  assume n: "n \<le> 8"
  have "sint a mod 2 ^ n = take_bit n (take_bit 8 (sint a))"
    using n by (simp add: take_bit_eq_mod [symmetric])
  also have "\<dots> = uint a mod 2 ^ n" unfolding take_bit_sint_byte by (rule take_bit_eq_mod)
  finally show ?thesis by (simp add: zmod_int)
qed

lemma sint_byte_high:
  "n \<le> 8 \<Longrightarrow> drop_bit n (sint (a :: u8)) AND mask (8 - n) = int (unat a div 2 ^ n)"
proof -
  assume n: "n \<le> 8"
  have "drop_bit n (sint a) AND mask (8 - n) = take_bit (8 - n) (drop_bit n (sint a))"
    by (simp add: take_bit_eq_mask)
  also have "\<dots> = drop_bit n (take_bit 8 (sint a))" using n by (simp add: take_bit_drop_bit)
  finally show ?thesis by (simp add: take_bit_sint_byte drop_bit_eq_div zdiv_int)
qed

lemma and_low: "x AND 3 = x mod 2 ^ 2" "x AND 15 = x mod 2 ^ 4" "x AND 63 = x mod 2 ^ 6" for x :: int
  using take_bit_eq_mask [of 2 x] take_bit_eq_mask [of 4 x] take_bit_eq_mask [of 6 x]
  by (simp_all add: take_bit_eq_mod mask_eq_exp_minus_1)

lemma low_parts:
  "push_bit 4 (sint (a :: u8) AND 0x3) = int (unat a mod 4 * 16)"
  "push_bit 2 (sint a AND 0xF) = int (unat a mod 16 * 4)"
  "b64_fourth a = int (unat a mod 64)"
  unfolding b64_fourth_def
  by (simp_all only: and_low sint_byte_mod) (simp_all add: push_bit_eq_mult)

lemma high_parts:
  "b64_first a = int (unat a div 4)"
  "drop_bit 4 (sint a AND 0xF0) = int (unat a div 16)"
  "drop_bit 6 (sint a AND 0xC0) = int (unat a div 64)"
  using sint_byte_high [of 2 a] sint_byte_high [of 4 a] sint_byte_high [of 6 a]
  unfolding drop_bit_and b64_first_def by (simp_all add: mask_eq_exp_minus_1)

lemmas index_parts = low_parts high_parts

text \<open>Joining two stretches of bits that do not overlap is addition.\<close>

lemma or_parts:
  "i < 4 \<Longrightarrow> j < 16 \<Longrightarrow> int (i * 16) OR int j = int (i * 16 + j)"
  "i < 16 \<Longrightarrow> j < 4 \<Longrightarrow> int (i * 4) OR int j = int (i * 4 + j)"
proof -
  have "list_all (\<lambda>i. list_all (\<lambda>j. int (i * 16) OR int j = int (i * 16 + j)) [0..<16]) [0..<4]"
    "list_all (\<lambda>i. list_all (\<lambda>j. int (i * 4) OR int j = int (i * 4 + j)) [0..<4]) [0..<16]"
    by code_simp+
  then show "i < 4 \<Longrightarrow> j < 16 \<Longrightarrow> int (i * 16) OR int j = int (i * 16 + j)"
    "i < 16 \<Longrightarrow> j < 4 \<Longrightarrow> int (i * 4) OR int j = int (i * 4 + j)"
    by (simp_all add: list_all_iff del: of_nat_mult of_nat_add)
qed

lemma b64_second_eq: "b64_second a b = int (unat a mod 4 * 16 + unat b div 16)"
  unfolding b64_second_def index_parts using byte_lt [of b] by (intro or_parts) auto

lemma b64_third_eq: "b64_third b c = int (unat b mod 16 * 4 + unat c div 64)"
  unfolding b64_third_def index_parts using byte_lt [of c] by (intro or_parts) auto

lemma basis_int: "basis (int n) = digit n"
  by (simp add: basis_def digit_def)

lemma base64_loop_spec: "base64_loop str i = base64_spec (drop i str)"
proof (induction str i rule: base64_loop.induct)
  case (1 str i)
  consider "length str \<le> i" | "length str = i + 1" | "length str = i + 2" | "i + 2 < length str"
    by linarith
  then show ?case
  proof cases
    case 4
    then have "drop i str = str ! i # str ! (i + 1) # str ! (i + 2) # drop (i + 3) str"
      by (simp add: drop_nth_Cons numeral_eq_Suc)
    with 4 "1.IH" show ?thesis
      by (simp only: base64_loop.simps [of str i] index_parts b64_second_eq b64_third_eq basis_int) simp
  next
    case 3
    then have "drop i str = [str ! i, str ! (i + 1)]"
      by (simp add: drop_nth_Cons numeral_eq_Suc)
    with 3 show ?thesis
      by (simp only: base64_loop.simps [of str i] index_parts b64_second_eq basis_int) simp
  next
    case 2
    then have "drop i str = [str ! i]" by (simp add: drop_nth_Cons)
    with 2 show ?thesis
      by (simp only: base64_loop.simps [of str i] index_parts basis_int) simp
  qed (simp add: base64_loop.simps [of str i])
qed

lemma length_base64_spec: "length (base64_spec str) = (length str + 2) div 3 * 4"
proof (induction str rule: base64_spec.induct)
  case (4 a b c cs)
  have "(length (a # b # c # cs) + 2) div 3 = (length cs + 2) div 3 + 1" by simp
  with 4 show ?case by simp
qed auto

text \<open>Reading the four digits back.\<close>

lemma group_first:
  assumes "x < 16"
  shows "of_nat (unat a div 4 * 4 + (unat a mod 4 * 16 + x) div 16) = (a :: u8)"
proof -
  have "(unat a mod 4 * 16 + x) div 16 = unat a mod 4" using assms by simp
  then have "unat a div 4 * 4 + (unat a mod 4 * 16 + x) div 16 = unat a" by (simp add: div_mult_mod_eq)
  then show ?thesis by (simp only: of_nat_unat ucast_id)
qed

lemma group_second:
  assumes "z < 4"
  shows "of_nat ((y * 16 + unat b div 16) mod 16 * 16 + (unat b mod 16 * 4 + z) div 4) = (b :: u8)"
proof -
  have "(y * 16 + unat b div 16) mod 16 = unat b div 16" using byte_lt [of b] by simp
  moreover have "(unat b mod 16 * 4 + z) div 4 = unat b mod 16" using assms by simp
  ultimately have "(y * 16 + unat b div 16) mod 16 * 16 + (unat b mod 16 * 4 + z) div 4 = unat b"
    by (simp add: div_mult_mod_eq)
  then show ?thesis by (simp only: of_nat_unat ucast_id)
qed

lemma group_third: "of_nat ((y * 4 + unat c div 64) mod 4 * 64 + unat c mod 64) = (c :: u8)"
proof -
  have "(y * 4 + unat c div 64) mod 4 = unat c div 64" using byte_lt [of c] by simp
  then have "(y * 4 + unat c div 64) mod 4 * 64 + unat c mod 64 = unat c" by (simp add: div_mult_mod_eq)
  then show ?thesis by (simp only: of_nat_unat ucast_id)
qed

lemma digit_bounds:
  "unat (a :: u8) div 4 < 64" "unat a mod 4 * 16 + unat (b :: u8) div 16 < 64"
  "unat b mod 16 * 4 + unat (c :: u8) div 64 < 64" "unat c mod 64 < 64"
  "unat a mod 4 * 16 < 64" "unat b mod 16 * 4 < 64"
proof -
  have "unat b div 16 < 16" "unat c div 64 < 4" using byte_lt [of b] byte_lt [of c] by auto
  moreover have "unat a mod 4 < 4" "unat b mod 16 < 16" by auto
  ultimately show "unat a mod 4 * 16 + unat b div 16 < 64" "unat b mod 16 * 4 + unat c div 64 < 64"
    by linarith+
qed (use byte_lt [of a] in auto)

lemma base64_decode_spec: "base64_decode (base64_spec str) = str"
proof (induction str rule: base64_spec.induct)
  case (2 a)
  show ?case
    using group_first [of 0 a]
    by (simp add: digit_inverse digit_bounds Let_def del: of_nat_add of_nat_mult)
next
  case (3 a b)
  have "unat b div 16 < 16" using byte_lt [of b] by simp
  from group_first [OF this, of a] group_second [of 0 "unat a mod 4" b] show ?case
    by (simp add: digit_inverse digit_bounds Let_def del: of_nat_add of_nat_mult)
next
  case (4 a b c cs)
  have "unat b div 16 < 16" "unat c div 64 < 4" using byte_lt [of b] byte_lt [of c] by auto
  from group_first [OF this(1), of a] group_second [OF this(2), of "unat a mod 4" b]
    group_third [of "unat b mod 16" c] 4 show ?case
    by (simp only: base64_spec.simps append_Cons append_Nil base64_decode.simps digit_inverse
        digit_bounds Let_def if_False simp_thms)
qed simp

section \<open>The parser object on a printed request\<close>

lemma view_print_header:
  "buf = pre @ print_header (n, v) @ post \<Longrightarrow>
   view_of buf (name (entry_at (length pre) (n, v))) (name_len (entry_at (length pre) (n, v))) = n \<and>
   view_of buf (hvalue (entry_at (length pre) (n, v))) (value_len (entry_at (length pre) (n, v))) = v"
  by (simp add: view_of_def slice_def)

lemma views_entries:
  "buf = pre @ concat (map print_header hs) @ post \<Longrightarrow>
   map (\<lambda>h. (view_of buf (name h) (name_len h), view_of buf (hvalue h) (value_len h)))
     (entries_at (length pre) hs) = hs"
proof (induction hs arbitrary: pre)
  case (Cons h hs)
  obtain n v where h: "h = (n, v)" by fastforce
  show ?case
    using Cons.IH [of "pre @ print_header h"] Cons.prems
      view_print_header [of buf pre n v "concat (map print_header hs) @ post"]
    by (simp add: h)
qed simp

lemma entries_named: "list_all (\<lambda>h. name h \<noteq> None) (entries_at p hs)"
proof (induction hs arbitrary: p)
  case (Cons h hs)
  then show ?case by (cases h) simp
qed simp

lemma length_entries_at [simp]: "length (entries_at p hs) = length hs"
  by (induction hs arbitrary: p) auto

lemma parsed_headers:
  assumes "length (req_headers r) \<le> 100" and out: "hp_out p = request_out r (hp_out http_parser_new)"
  shows "hp_headers (print_request r @ post) p = req_headers r"
proof -
  let ?es = "entries_at (length (request_line r)) (req_headers r)"
  have "m_headers (hp_out p) = ?es @ replicate (100 - length (req_headers r)) blank_header"
    using assms by (simp add: request_out_def http_parser_new_def write_at_def)
  moreover have "takeWhile (\<lambda>h. name h \<noteq> None) (?es @ replicate k blank_header) = ?es" for k
    using entries_named [of "length (request_line r)" "req_headers r"]
    by (cases k) (auto simp: takeWhile_append list_all_iff blank_header_def takeWhile_eq_all_conv [THEN iffD2])
  ultimately show ?thesis
    using views_entries [of "print_request r @ post" "request_line r" "req_headers r" "[13, 10] @ post"]
    by (simp add: hp_headers_def print_request_def)
qed

lemma handler_parse_print:
  assumes "request_wf r" "length (req_headers r) \<le> 100" "length (print_request r) < 2 ^ 31"
  obtains h where "handler_parse sse (print_request r @ post) handler_new =
      Val (h, int (length (print_request r)))"
    and "h_state h = H_parsed"
    and "hp_headers (print_request r @ post) (m_parser h) = req_headers r"
    and "check_method (print_request r @ post) h \<longleftrightarrow> req_method r = ascii ''GET''"
    and "check_version h \<longleftrightarrow> req_minor r = 1"
    and "m_websocket_handshake_response h = websocket_handshake_response_model"
    and "m_websocket_handshake_accept_concat h = websocket_handshake_accept_concat"
proof -
  let ?buf = "print_request r @ post" and ?out = "hp_out http_parser_new"
  have "phr_parse_request sse ?buf ?out 0 = (request_out r ?out, Val (int (length (print_request r))))"
    by (rule parse_printed_request) (use assms in \<open>auto simp: http_parser_new_def\<close>)
  then have p: "http_parse sse ?buf http_parser_new =
      (\<lparr>hp_out = request_out r ?out, last_len = length ?buf\<rparr>, Val (int (length (print_request r))))"
    by (simp add: http_parse_eq http_parser_new_def)
  let ?h = "handler_new\<lparr>m_parser := \<lparr>hp_out = request_out r ?out, last_len = length ?buf\<rparr>, h_state := H_parsed\<rparr>"
  show ?thesis
  proof (rule that [of ?h])
    show "handler_parse sse ?buf handler_new = Val (?h, int (length (print_request r)))"
      by (simp add: handler_parse_eq handler_new_def p)
    show "hp_headers ?buf (m_parser ?h) = req_headers r"
      by (rule parsed_headers) (use assms in auto)
    show "check_method ?buf ?h \<longleftrightarrow> req_method r = ascii ''GET''"
      by (simp add: check_method_def hp_method_def request_out_def view_of_def slice_def
          print_request_def request_line_def)
  qed (simp_all add: handler_new_def check_version_def hp_version_def request_out_def)
qed

section \<open>The header checks\<close>

text \<open>What the handshake demands of each header that is present, and the key it uses.\<close>

fun header_accepted :: "u8 list \<times> u8 list \<Rightarrow> bool" where
  "header_accepted (n, v) \<longleftrightarrow>
     (n = ascii ''Connection'' \<longrightarrow> v = ascii ''Upgrade'') \<and>
     (n = ascii ''Upgrade'' \<longrightarrow> v = ascii ''websocket'') \<and>
     (n = ascii ''Sec-WebSocket-Version'' \<longrightarrow> v = ascii ''13'') \<and>
     (n = ascii ''Sec-WebSocket-Key'' \<longrightarrow> length v = 24)"

text \<open>The key sent last, if any.\<close>

definition request_key :: "(u8 list \<times> u8 list) list \<Rightarrow> u8 list option" where
  "request_key hs = map_of (rev hs) (ascii ''Sec-WebSocket-Key'')"

lemma checker_names_distinct:
  "distinct [ascii ''Connection'', ascii ''Upgrade'', ascii ''Sec-WebSocket-Version'',
     ascii ''Sec-WebSocket-Key'']"
  by (simp add: ascii_def)

lemma run_checker_spec:
  "run_checker n v arr =
     (header_accepted (n, v),
      if n = ascii ''Sec-WebSocket-Key'' \<and> length v = 24 then write_at 0 v arr else arr)"
  using checker_names_distinct
  by (auto simp: run_checker_def check_Connection_def check_Upgrade_def
      check_Sec_WebSocket_Version_def check_Sec_WebSocket_Key_def)

lemma write_at_0_again: "length v = length w \<Longrightarrow> write_at 0 v (write_at 0 w arr) = write_at 0 v arr"
  by (simp add: write_at_def)

lemma check_headers_fst: "fst (check_headers hs arr) \<longleftrightarrow> list_all header_accepted hs"
proof (induction hs arbitrary: arr)
  case (Cons h hs)
  obtain n v where h: "h = (n, v)" by fastforce
  show ?case
    by (cases "header_accepted h")
      (simp_all add: h run_checker_spec Cons.IH del: header_accepted.simps)
qed simp

lemma request_key_Cons:
  "request_key ((n, v) # hs) = (case request_key hs of Some k \<Rightarrow> Some k
     | None \<Rightarrow> if n = ascii ''Sec-WebSocket-Key'' then Some v else None)"
  by (auto simp: request_key_def map_add_def split: option.splits)

lemma request_key_length: "list_all header_accepted hs \<Longrightarrow> request_key hs = Some k \<Longrightarrow> length k = 24"
  by (fastforce simp: request_key_def list_all_iff dest!: map_of_SomeD)

lemma check_headers_snd:
  "list_all header_accepted hs \<Longrightarrow>
   check_headers hs arr = (True, case request_key hs of None \<Rightarrow> arr | Some k \<Rightarrow> write_at 0 k arr)"
proof (induction hs arr rule: check_headers.induct)
  case (1 arr)
  then show ?case by (simp add: request_key_def)
next
  case (2 n v hs arr)
  then show ?case
    using request_key_length [of hs]
    by (auto simp: run_checker_spec request_key_Cons write_at_0_again split: option.splits)
qed

section \<open>The response\<close>

definition accept_response :: "u8 list \<Rightarrow> u8 list" where
  "accept_response digest = response_head @ base64_spec digest @ [13, 10, 13, 10]"

lemma response_layout:
  "accept_key_pos = length response_head"
  "length (ascii ''+XXXXXXXXXXXXXXXXXXXXXXXXXXX'') = 28"
  "length (websocket_guid) = 36" "length (ascii ''XXXXXXXXXXXXXXXXXXXXXX=='') = 24"
  by (simp_all add: accept_key_pos_def websocket_handshake_response_model_def response_head_def
      ascii_def websocket_guid_def)

lemma base64_into_model:
  assumes "length digest = 20"
  shows "fst (base64_encode accept_key_pos websocket_handshake_response_model digest) =
    accept_response digest"
  using assms length_base64_spec [of digest] response_layout(2)
  by (simp add: base64_encode_def base64_loop_spec response_layout(1) Let_def accept_response_def
      write_at_def websocket_handshake_response_model_def)

text \<open>The bytes that are hashed: the key (or the placeholder of the array) and the GUID.\<close>

definition hashed :: "u8 list option \<Rightarrow> u8 list" where
  "hashed key = (case key of None \<Rightarrow> ascii ''XXXXXXXXXXXXXXXXXXXXXX=='' | Some k \<Rightarrow> k) @ websocket_guid"

lemma hashed_concat:
  assumes "\<And>k. key = Some k \<Longrightarrow> length k = 24"
    and "arr = (case key of None \<Rightarrow> websocket_handshake_accept_concat
      | Some k \<Rightarrow> write_at 0 k websocket_handshake_accept_concat)"
  shows "take (length arr - 1) arr = hashed key"
  using assms response_layout(3,4)
  by (cases key) (auto simp: hashed_def websocket_handshake_accept_concat_def write_at_def)

lemma generate_response_print:
  assumes "request_wf r" "length (req_headers r) \<le> 100" "length (print_request r) < 2 ^ 31"
    and sha: "\<And>x. length (SHA1 x) = 20"
  obtains h where "handler_parse sse (print_request r @ post) handler_new =
      Val (h, int (length (print_request r)))"
    and "snd (generate_response SHA1 (print_request r @ post) h) =
      (if req_method r = ascii ''GET'' \<and> req_minor r = 1 \<and> list_all header_accepted (req_headers r)
       then accept_response (SHA1 (hashed (request_key (req_headers r))))
       else websocket_handshake_response_bad_request)"
proof -
  obtain h where h: "handler_parse sse (print_request r @ post) handler_new =
      Val (h, int (length (print_request r)))" "h_state h = H_parsed"
    "hp_headers (print_request r @ post) (m_parser h) = req_headers r"
    "check_method (print_request r @ post) h \<longleftrightarrow> req_method r = ascii ''GET''"
    "check_version h \<longleftrightarrow> req_minor r = 1"
    "m_websocket_handshake_response h = websocket_handshake_response_model"
    "m_websocket_handshake_accept_concat h = websocket_handshake_accept_concat"
    by (rule handler_parse_print [OF assms(1-3)])
  let ?hs = "req_headers r"
  show ?thesis
  proof (rule that [OF h(1)], cases "list_all header_accepted ?hs")
    case True
    have "take (length arr - 1) arr = hashed (request_key ?hs)"
      if "arr = (case request_key ?hs of None \<Rightarrow> websocket_handshake_accept_concat
        | Some k \<Rightarrow> write_at 0 k websocket_handshake_accept_concat)" for arr
      by (rule hashed_concat [OF request_key_length [OF True] that])
    with True h sha check_headers_snd [OF True, of websocket_handshake_accept_concat]
    show "snd (generate_response SHA1 (print_request r @ post) h) =
      (if req_method r = ascii ''GET'' \<and> req_minor r = 1 \<and> list_all header_accepted ?hs
       then accept_response (SHA1 (hashed (request_key ?hs)))
       else websocket_handshake_response_bad_request)"
      by (simp add: generate_response_def check_all_def Let_def base64_into_model)
  next
    case False
    then have "\<not> fst (check_headers ?hs arr)" for arr by (simp add: check_headers_fst)
    then obtain arr' where "check_headers ?hs websocket_handshake_accept_concat = (False, arr')"
      by (metis (full_types) prod.collapse)
    with False h show "snd (generate_response SHA1 (print_request r @ post) h) =
      (if req_method r = ascii ''GET'' \<and> req_minor r = 1 \<and> list_all header_accepted ?hs
       then accept_response (SHA1 (hashed (request_key ?hs)))
       else websocket_handshake_response_bad_request)"
      by (simp add: generate_response_def check_all_def Let_def)
  qed
qed

section \<open>Properties\<close>

text \<open>
  base64 round trip: the encoder writes \<open>4 * ceiling(len / 3)\<close> bytes at its target, returns
  their number, leaves the rest of the target alone, and what it wrote decodes to the input.
\<close>

theorem base64_roundtrip:
  assumes "pos + (length str + 2) div 3 * 4 \<le> length encoded"
  shows "case base64_encode pos encoded str of (out, n) \<Rightarrow>
    n = (length str + 2) div 3 * 4 \<and> base64_decode (take n (drop pos out)) = str \<and>
    take pos out = take pos encoded \<and> drop (pos + n) out = drop (pos + n) encoded \<and>
    length out = length encoded"
proof -
  have "pos + length (base64_spec str) \<le> length encoded"
    using assms by (simp add: length_base64_spec)
  then show ?thesis
    unfolding length_base64_spec [symmetric]
    using slice_write_at [of pos "base64_spec str" encoded]
    by (simp add: base64_encode_def base64_loop_spec Let_def take_write_at drop_write_at
        base64_decode_spec)
qed

theorem base64_roundtrip_witness:
  "case base64_encode 1 (replicate 8 0) [0x4d, 0x61] of (out, n) \<Rightarrow>
    n = 4 \<and> base64_decode (take n (drop 1 out)) = [0x4d, 0x61] \<and>
    take 1 out = take 1 (replicate 8 0) \<and> drop (1 + n) out = drop (1 + n) (replicate 8 0) \<and>
    length out = 8"
  using base64_roundtrip [of 1 "[0x4d, 0x61]" "replicate 8 0"] by simp

text \<open>
  C39: the opening handshake, from the bytes of the request to the bytes of the response. For every
  well-formed request (and whatever follows it in the buffer) the handler's \<open>parse\<close> returns the
  length of the request, and \<open>generate_response\<close> answers 101 with the base64 of the SHA-1 of the
  client's key and the GUID exactly when the method is GET, the version is HTTP/1.1 and every
  checked header present has its required value; otherwise it answers 400. Without a key header
  the hashed value is the placeholder in front of the GUID.
\<close>

theorem handshake_response:
  assumes "request_wf r" "length (req_headers r) \<le> 100" "length (print_request r) < 2 ^ 31"
    and "\<And>x. length (SHA1 x) = 20"
  shows "case handler_parse sse (print_request r @ post) handler_new of
      Undefined \<Rightarrow> False
    | Val (h, ret) \<Rightarrow> ret = int (length (print_request r)) \<and>
        snd (generate_response SHA1 (print_request r @ post) h) =
          (if req_method r = ascii ''GET'' \<and> req_minor r = 1 \<and>
              list_all header_accepted (req_headers r)
           then accept_response (SHA1 (hashed (request_key (req_headers r))))
           else websocket_handshake_response_bad_request)"
  by (rule generate_response_print [OF assms, of sse post]) simp

definition sample_key :: "u8 list" where
  "sample_key = ascii ''dGhlIHNhbXBsZSBub25jZQ==''"

definition upgrade_request :: http_request where
  "upgrade_request = \<lparr>req_method = ascii ''GET'', req_path = ascii ''/chat'', req_minor = 1,
     req_headers = [(ascii ''Upgrade'', ascii ''websocket''),
       (ascii ''Sec-WebSocket-Key'', sample_key)]\<rparr>"

lemma upgrade_request_wf: "request_wf upgrade_request"
  by code_simp

lemma upgrade_request_short: "length (print_request upgrade_request) < 2 ^ 31"
  by (simp add: upgrade_request_def print_request_def request_line_def ascii_def sample_key_def)

theorem handshake_response_witness:
  "case handler_parse True (print_request upgrade_request @ []) handler_new of
      Undefined \<Rightarrow> False
    | Val (h, ret) \<Rightarrow> ret = int (length (print_request upgrade_request)) \<and>
        snd (generate_response (\<lambda>_. replicate 20 7) (print_request upgrade_request @ []) h) =
          accept_response (replicate 20 7)"
proof -
  have "list_all header_accepted (req_headers upgrade_request)" by code_simp
  moreover have "req_method upgrade_request = ascii ''GET''" "req_minor upgrade_request = 1"
    "length (req_headers upgrade_request) \<le> 100"
    by (simp_all add: upgrade_request_def)
  ultimately show ?thesis
    using handshake_response [OF upgrade_request_wf _ upgrade_request_short,
        where ?SHA1.0 = "\<lambda>_. replicate 20 7" and sse = True and post = "[]"]
    by (auto split: checked.splits prod.splits)
qed

text \<open>
  the handshake does not require its headers: a GET request of HTTP/1.1 with no headers at
  all is answered with 101, for the hash of the placeholder key of the initial array.
\<close>

theorem handshake_without_headers:
  assumes "request_wf r" "req_method r = ascii ''GET''" "req_minor r = 1" "req_headers r = []"
    and "length (print_request r) < 2 ^ 31" "\<And>x. length (SHA1 x) = 20"
  shows "case handler_parse sse (print_request r) handler_new of
      Undefined \<Rightarrow> False
    | Val (h, ret) \<Rightarrow> snd (generate_response SHA1 (print_request r) h) =
        accept_response (SHA1 (ascii ''XXXXXXXXXXXXXXXXXXXXXX=='' @ websocket_guid))"
  by (rule generate_response_print [OF assms(1) _ assms(5,6), of sse "[]"])
    (use assms in \<open>auto simp: hashed_def request_key_def\<close>)

definition bare_request :: http_request where
  "bare_request = \<lparr>req_method = ascii ''GET'', req_path = ascii ''/'', req_minor = 1, req_headers = []\<rparr>"

theorem handshake_without_headers_witness:
  "case handler_parse False (print_request bare_request) handler_new of
      Undefined \<Rightarrow> False
    | Val (h, ret) \<Rightarrow> snd (generate_response (\<lambda>_. replicate 20 7) (print_request bare_request) h) =
        accept_response (replicate 20 7)"
proof -
  have "request_wf bare_request" by code_simp
  moreover have "length (print_request bare_request) < 2 ^ 31"
    by (simp add: bare_request_def print_request_def request_line_def ascii_def)
  moreover have "req_method bare_request = ascii ''GET''" "req_minor bare_request = 1"
    "req_headers bare_request = []"
    by (simp_all add: bare_request_def)
  ultimately show ?thesis
    using handshake_without_headers [of bare_request "\<lambda>_. replicate 20 7" False] by simp
qed

text \<open>
  the parser object cannot be fed a request in pieces once headers follow: \<open>phr_parse_request\<close>
  stores the number of headers seen in \<open>m_headers_num\<close>, which the next call takes for the capacity.
  The request that one call accepts is rejected (-1) when its first bytes were tried before.
\<close>

theorem http_parser_not_resumable:
  "snd (http_parse sse (print_request sample_request) http_parser_new) = Val 24 \<and>
   (case http_parse sse (take 5 (print_request sample_request)) http_parser_new of
      (p, ret) \<Rightarrow> ret = Val (- 2) \<and>
        snd (http_parse sse (print_request sample_request) p) = Val (- 1))"
  unfolding http_parse_eq phr_parse_request_sse [of sse] by code_simp

end
