(* ===== verification/Descriptor.thy ===== *)
theory Descriptor
  imports Xy_Prelude
begin

text \<open>
  Error codes, the way operations report them, the owner of a file descriptor, and the module
  lists a descriptor type is assembled from (\<open>detail/error_code.h\<close>, \<open>detail/throw_or_return.h\<close>,
  \<open>detail/sync_operation.h\<close>, \<open>detail/file_descriptor_traits.h\<close>, \<open>detail/module_list.h\<close>,
  \<open>file_descriptor.h\<close>).

  The operating system is a parameter: a \<open>kernel\<close> answers a system call, given the calls made
  before, with the value the C wrapper returns and the value it leaves in \<open>errno\<close>. The
  definitions thread the list of calls made so far, so the calls an operation makes and their
  order are part of its result.
\<close>

section \<open>Error codes\<close>

datatype xynet_error = Eof | No_service

primrec xynet_error_value :: "xynet_error \<Rightarrow> int" where
  "xynet_error_value Eof = 1"
| "xynet_error_value No_service = 2"

definition xynet_category_name :: string where
  "xynet_category_name = ''xynet''"

definition xynet_message :: "int \<Rightarrow> string" where
  "xynet_message condition =
    (if condition = xynet_error_value Eof then ''connection read eof.''
     else if condition = xynet_error_value No_service then ''no io_service on current thread.''
     else ''unknown error'')"

definition make_error_code :: "xynet_error \<Rightarrow> error_code" where
  "make_error_code e = \<lparr> ec_value = xynet_error_value e, ec_category = Xynet_category \<rparr>"

text \<open>\<open>std::error_code{}\<close>, \<open>error.clear()\<close>, the conversion to \<open>bool\<close>, and \<open>std::system_category()\<close> codes.\<close>

definition no_error :: error_code where
  "no_error = \<lparr> ec_value = 0, ec_category = System_category \<rparr>"

definition ec_set :: "error_code \<Rightarrow> bool" where
  "ec_set e \<longleftrightarrow> ec_value e \<noteq> 0"

definition system_code :: "int \<Rightarrow> error_code" where
  "system_code n = \<lparr> ec_value = n, ec_category = System_category \<rparr>"

lemma ec_set_simps [simp]:
  "\<not> ec_set no_error" "ec_set (make_error_code e)" "ec_set (system_code n) \<longleftrightarrow> n \<noteq> 0"
  by (cases e; simp add: ec_set_def no_error_def make_error_code_def system_code_def)+

section \<open>Return types and throw-or-return\<close>

text \<open>
  A policy that declares \<open>policy_use_error_code\<close> makes an operation return its error code in
  front of its results; any other policy makes it throw. The C++ types involved are data here,
  so that the type a trait computes and the type of the value an operation returns can be
  compared.
\<close>

datatype cpp_type = T_void | T_error_code | T_arg nat | T_tuple "cpp_type list"

datatype 'v cpp_value = V_void | V_error_code error_code | V_arg nat 'v | V_tuple "'v cpp_value list"

fun file_descriptor_operation_return_type :: "bool \<Rightarrow> cpp_type list \<Rightarrow> cpp_type" where
  "file_descriptor_operation_return_type use_ec [] = (if use_ec then T_error_code else T_void)"
| "file_descriptor_operation_return_type use_ec [r] = (if use_ec then T_tuple [T_error_code, r] else r)"
| "file_descriptor_operation_return_type use_ec rs =
    (if use_ec then T_tuple (T_error_code # rs) else T_tuple rs)"

text \<open>\<open>return {v, ...}\<close> list-initialises the return type: one value initialises a type that is not a tuple.\<close>

definition async_throw_or_return ::
  "bool \<Rightarrow> error_code \<Rightarrow> 'v cpp_value list \<Rightarrow> cpp_exn + 'v cpp_value" where
  "async_throw_or_return use_ec errc args =
    (if use_ec then
       (if args = [] then Inr (V_error_code errc) else Inr (V_tuple (V_error_code errc # args)))
     else if ec_set errc then Inl (System_error errc)
     else (case args of [] \<Rightarrow> Inr V_void | [a] \<Rightarrow> Inr a | _ \<Rightarrow> Inr (V_tuple args)))"

definition sync_throw_or_return :: "bool \<Rightarrow> int \<Rightarrow> int \<Rightarrow> cpp_exn + 'v cpp_value" where
  "sync_throw_or_return use_ec ret errno =
    (if ret < 0 then
       (let errc = system_code errno in
        if use_ec then Inr (V_error_code errc) else Inl (System_error errc))
     else if use_ec then Inr (V_error_code no_error) else Inr V_void)"

fun value_type :: "'v cpp_value \<Rightarrow> cpp_type" where
  "value_type V_void = T_void"
| "value_type (V_error_code e) = T_error_code"
| "value_type (V_arg i v) = T_arg i"
| "value_type (V_tuple vs) = T_tuple (map value_type vs)"

lemma async_throw_or_return_typed:
  assumes "async_throw_or_return use_ec errc args = Inr v"
  shows "value_type v = file_descriptor_operation_return_type use_ec (map value_type args)"
  using assms
  by (cases "(use_ec, map value_type args)" rule: file_descriptor_operation_return_type.cases)
    (auto simp: async_throw_or_return_def split: if_splits list.splits)

lemma async_throw_or_return_throws:
  "async_throw_or_return use_ec errc args = Inl x \<longleftrightarrow>
    \<not> use_ec \<and> ec_set errc \<and> x = System_error errc"
  by (auto simp: async_throw_or_return_def split: list.splits)

text \<open>
  The helper that ends an asynchronous operation. It throws exactly when the policy does not
  report error codes and the code is set, with that code as the reason. Otherwise its value has
  the type the return-type trait computes, and it holds what was passed in: the error code in
  front under the error-code policy, then the results in order.
\<close>

fun value_parts :: "'v cpp_value \<Rightarrow> 'v cpp_value list" where
  "value_parts V_void = []"
| "value_parts (V_tuple vs) = vs"
| "value_parts v = [v]"

theorem throw_or_return_typed:
  fixes errc :: error_code and args :: "'v cpp_value list"
  assumes "\<forall>a \<in> set args. \<exists>i v. a = V_arg i v"
  shows "case async_throw_or_return use_ec errc args of
      Inl x \<Rightarrow> \<not> use_ec \<and> ec_set errc \<and> x = System_error errc
    | Inr v \<Rightarrow> value_type v = file_descriptor_operation_return_type use_ec (map value_type args)
             \<and> value_parts v = (if use_ec then V_error_code errc # args else args)
             \<and> \<not> (ec_set errc \<and> \<not> use_ec)"
proof (cases "async_throw_or_return use_ec errc args")
  case (Inl x)
  with async_throw_or_return_throws [of use_ec errc args x] show ?thesis by simp
next
  case (Inr v)
  with async_throw_or_return_throws [of use_ec errc args "System_error errc"]
  have "\<not> (ec_set errc \<and> \<not> use_ec)" by auto
  moreover from Inr assms have "value_parts v = (if use_ec then V_error_code errc # args else args)"
    by (auto simp: async_throw_or_return_def split: if_splits list.splits)
  ultimately show ?thesis using Inr by (simp add: async_throw_or_return_typed)
qed

section \<open>System calls and synchronous operations\<close>

record sockaddr_in =
  sin_family :: u16
  sin_port :: u16
  s_addr :: u32

datatype syscall =
    Sys_socket int int int
  | Sys_close int
  | Sys_setsockopt int int int "u8 list"
  | Sys_listen int int
  | Sys_bind int sockaddr_in
  | Sys_getsockname int
  | Sys_shutdown int int

type_synonym trace = "syscall list"

record kernel =
  k_reply :: "trace \<Rightarrow> syscall \<Rightarrow> int \<times> int"
  k_sockname :: "trace \<Rightarrow> int \<Rightarrow> sockaddr_in"

text \<open>Documented behaviour of the C wrappers: a failing call sets a positive \<open>errno\<close>.\<close>

definition kernel_ok :: "kernel \<Rightarrow> bool" where
  "kernel_ok k \<longleftrightarrow> (\<forall>tr c. fst (k_reply k tr c) < 0 \<longrightarrow> snd (k_reply k tr c) > 0)"

definition sys_ret :: "kernel \<Rightarrow> syscall \<Rightarrow> trace \<Rightarrow> int" where
  "sys_ret k c tr = fst (k_reply k tr c)"

definition sys_errno :: "kernel \<Rightarrow> syscall \<Rightarrow> trace \<Rightarrow> int" where
  "sys_errno k c tr = snd (k_reply k tr c)"

definition sys_fails :: "kernel \<Rightarrow> syscall \<Rightarrow> trace \<Rightarrow> bool" where
  "sys_fails k c tr \<longleftrightarrow> sys_ret k c tr < 0"

text \<open>
  \<open>sync_operation\<close> makes one call; the success continuation may change the object and make
  further calls, and the caller's error code is overwritten either way.
\<close>

definition sync_operation ::
  "kernel \<Rightarrow> syscall \<Rightarrow> (int \<Rightarrow> 'f \<Rightarrow> trace \<Rightarrow> 'f \<times> trace) \<Rightarrow> 'f \<Rightarrow> trace
    \<Rightarrow> 'f \<times> error_code \<times> trace" where
  "sync_operation k c on_success f tr =
    (let ret = sys_ret k c tr; saved_errno = sys_errno k c tr; tr = tr @ [c] in
     if ret \<ge> 0 then (let (f, tr) = on_success ret f tr in (f, no_error, tr))
     else (f, system_code saved_errno, tr))"

text \<open>The overloads without an error code run the other one and throw the code it reports.\<close>

definition throwing ::
  "('f \<Rightarrow> trace \<Rightarrow> 'f \<times> error_code \<times> trace) \<Rightarrow> 'f \<Rightarrow> trace \<Rightarrow> 'f \<times> (cpp_exn + unit) \<times> trace" where
  "throwing operation f tr =
    (let (f, error, tr) = operation f tr in
     (f, if ec_set error then Inl (System_error error) else Inr (), tr))"

definition ignore_ret :: "int \<Rightarrow> 'f \<Rightarrow> trace \<Rightarrow> 'f \<times> trace" where
  "ignore_ret ret f tr = (f, tr)"

lemma sync_operation_fails:
  "sys_fails k c tr \<Longrightarrow>
    sync_operation k c g f tr = (f, system_code (sys_errno k c tr), tr @ [c])"
  by (simp add: sync_operation_def sys_fails_def)

lemma sync_operation_succeeds:
  "\<not> sys_fails k c tr \<Longrightarrow>
    sync_operation k c g f tr =
      (fst (g (sys_ret k c tr) f (tr @ [c])), no_error, snd (g (sys_ret k c tr) f (tr @ [c])))"
  by (simp add: sync_operation_def sys_fails_def split_beta Let_def)

lemma errno_nonzero: "kernel_ok k \<Longrightarrow> sys_fails k c tr \<Longrightarrow> sys_errno k c tr \<noteq> 0"
  by (auto simp: kernel_ok_def sys_fails_def sys_ret_def sys_errno_def) (metis less_irrefl)

text \<open>
  The contract every synchronous operation has towards its callers: it makes a deciding system
  call \<open>call f\<close> after the calls \<open>before f\<close>, reports the \<open>errno\<close> of that call when it fails and a
  cleared code when it succeeds, and leaves the object alone on failure.
\<close>

locale sync_call =
  fixes k :: kernel
    and operation :: "'f \<Rightarrow> trace \<Rightarrow> 'f \<times> error_code \<times> trace"
    and before :: "'f \<Rightarrow> syscall list"
    and call :: "'f \<Rightarrow> syscall"
  assumes on_failure: "sys_fails k (call f) (tr @ before f) \<Longrightarrow>
      operation f tr =
        (f, system_code (sys_errno k (call f) (tr @ before f)), tr @ before f @ [call f])"
    and on_success: "\<not> sys_fails k (call f) (tr @ before f) \<Longrightarrow>
      \<exists>f' tr'. operation f tr = (f', no_error, tr') \<and> (\<exists>cs. tr' = tr @ before f @ call f # cs)"
begin

lemma error_iff_fails:
  assumes "kernel_ok k"
  shows "ec_set (fst (snd (operation f tr))) \<longleftrightarrow> sys_fails k (call f) (tr @ before f)"
proof (cases "sys_fails k (call f) (tr @ before f)")
  case True
  with assms show ?thesis by (simp add: on_failure errno_nonzero)
next
  case False
  from on_success [OF this] False show ?thesis by auto
qed

lemma throws_iff_fails:
  assumes "kernel_ok k"
  shows "fst (snd (throwing operation f tr)) =
    (if sys_fails k (call f) (tr @ before f)
     then Inl (System_error (system_code (sys_errno k (call f) (tr @ before f)))) else Inr ())"
proof (cases "sys_fails k (call f) (tr @ before f)")
  case True
  with assms show ?thesis by (simp add: throwing_def on_failure errno_nonzero)
next
  case False
  from on_success [OF this] False show ?thesis by (auto simp: throwing_def)
qed

lemma failure_keeps_object:
  "sys_fails k (call f) (tr @ before f) \<Longrightarrow>
    fst (operation f tr) = f \<and> fst (throwing operation f tr) = f"
  by (simp add: throwing_def on_failure)

end

section \<open>Owning a file descriptor\<close>

record file_descriptor_base =
  m_fd :: int

definition fd_default :: file_descriptor_base where
  "fd_default = \<lparr> m_fd = -1 \<rparr>"

definition fd_of :: "int \<Rightarrow> file_descriptor_base" where
  "fd_of fd = \<lparr> m_fd = fd \<rparr>"

text \<open>The move constructor: the new object and what is left of the old one.\<close>

definition fd_move :: "file_descriptor_base \<Rightarrow> file_descriptor_base \<times> file_descriptor_base" where
  "fd_move other = (fd_of (m_fd other), other\<lparr>m_fd := -1\<rparr>)"

definition fd_set :: "int \<Rightarrow> 'a file_descriptor_base_scheme \<Rightarrow> 'a file_descriptor_base_scheme" where
  "fd_set fd f = f\<lparr>m_fd := fd\<rparr>"

definition fd_get :: "'a file_descriptor_base_scheme \<Rightarrow> int" where
  "fd_get f = m_fd f"

definition valid :: "'a file_descriptor_base_scheme \<Rightarrow> bool" where
  "valid f \<longleftrightarrow> m_fd f \<ge> 0"

definition fd_close :: "'a file_descriptor_base_scheme \<Rightarrow> trace \<Rightarrow> 'a file_descriptor_base_scheme \<times> trace" where
  "fd_close f tr = (f\<lparr>m_fd := -1\<rparr>, tr @ [Sys_close (m_fd f)])"

definition fd_destroy :: "'a file_descriptor_base_scheme \<Rightarrow> trace \<Rightarrow> trace" where
  "fd_destroy f tr = (if valid f then snd (fd_close f tr) else tr)"

text \<open>
  Ownership in general: every open handle has exactly one owner when the map from objects to
  the handles they own is injective and its range is the set of open handles. An object owns
  a descriptor when it holds a non-negative number.
\<close>

definition owned :: "file_descriptor_base option \<Rightarrow> int option" where
  "owned x = (case x of Some f \<Rightarrow> if valid f then Some (m_fd f) else None | None \<Rightarrow> None)"

definition one_owner :: "(nat \<rightharpoonup> 'h) \<Rightarrow> 'h set \<Rightarrow> bool" where
  "one_owner m opn \<longleftrightarrow> ran m = opn \<and> (\<forall>a b fd. m a = Some fd \<and> m b = Some fd \<longrightarrow> a = b)"

text \<open>
  The effect of the calls an operation appended to the trace on the open descriptors, and the
  descriptors a trace closes while they are not open: the double closes.
\<close>

fun closes :: "trace \<Rightarrow> int set \<Rightarrow> int set" where
  "closes [] opn = opn"
| "closes (Sys_close fd # tr) opn = closes tr (opn - {fd})"
| "closes (c # tr) opn = closes tr opn"

fun bad_closes :: "trace \<Rightarrow> int set \<Rightarrow> int list" where
  "bad_closes [] opn = []"
| "bad_closes (Sys_close fd # tr) opn =
    (if fd \<in> opn then [] else [fd]) @ bad_closes tr (opn - {fd})"
| "bad_closes (c # tr) opn = bad_closes tr opn"

lemma one_owner_add:
  "one_owner m opn \<Longrightarrow> m a = None \<Longrightarrow> fd \<notin> opn \<Longrightarrow> one_owner (m(a \<mapsto> fd)) (insert fd opn)"
  by (simp add: one_owner_def ran_map_upd) (auto intro: ranI)

lemma one_owner_remove:
  "one_owner m opn \<Longrightarrow> one_owner (m(a := None)) (opn - set_option (m a))"
  by (auto simp: one_owner_def ran_def)

lemma one_owner_move:
  assumes "one_owner m opn" and "m a = None"
  shows "one_owner (m(b := None, a := m b)) opn"
proof (cases "m b")
  case None
  with assms have "m(b := None, a := m b) = m" by (auto simp: fun_eq_iff)
  with assms show ?thesis by simp
next
  case (Some fd)
  with assms(1) have "fd \<in> opn" by (auto simp: one_owner_def ran_def)
  have "one_owner ((m(b := None))(a \<mapsto> fd)) (insert fd (opn - {fd}))"
    using one_owner_add [OF one_owner_remove [OF assms(1), of b], of a fd] assms(2) Some by simp
  with \<open>fd \<in> opn\<close> Some show ?thesis by (simp add: insert_absorb)
qed

lemmas fd_defs = fd_default_def fd_of_def fd_move_def fd_set_def valid_def fd_close_def fd_destroy_def

section \<open>Module lists\<close>

text \<open>
  A descriptor type is assembled at compile time from a list of module templates. The
  metafunctions over these lists are functional programs on types; here a module template is
  its name with the type arguments already bound in front (\<open>with<T>::map_front\<close> binds one more),
  and an instance is the name with all its arguments. Metafunctions without a matching
  specialisation are ill-formed, which is \<open>None\<close>.
\<close>

type_synonym type_name = string

record module_template =
  mt_name :: string
  mt_bound :: "type_name list"

datatype inst_module = Inst_module string "type_name list" | Inst_void

definition is_empty :: "module_template list \<Rightarrow> bool" where
  "is_empty l \<longleftrightarrow> l = []"

fun front :: "module_template list \<Rightarrow> module_template option" where
  "front (head # tail) = Some head"
| "front [] = None"

definition push_front :: "module_template list \<Rightarrow> module_template \<Rightarrow> module_template list" where
  "push_front elements new_element = new_element # elements"

fun pop_front :: "module_template list \<Rightarrow> module_template list option" where
  "pop_front (head # tail) = Some tail"
| "pop_front [] = None"

lemma pop_front_length: "Some tail = pop_front l \<Longrightarrow> length tail < length l"
  by (cases l) auto

text \<open>\<open>map<list, MetaFunc>\<close> recurses on \<open>pop_front\<close> and pushes the image of \<open>front\<close>.\<close>

function module_map :: "module_template list \<Rightarrow> (module_template \<Rightarrow> module_template)
    \<Rightarrow> module_template list option" where
  "module_map l MetaFunc =
    (if is_empty l then Some l
     else case (pop_front l, front l) of
       (Some tail, Some head) \<Rightarrow> (case module_map tail MetaFunc of
           Some ms \<Rightarrow> Some (push_front ms (MetaFunc head)) | None \<Rightarrow> None)
     | _ \<Rightarrow> None)"
  by pat_completeness auto
termination
  by (relation "measure (length \<circ> fst)") (auto dest: pop_front_length)

fun typelist_front :: "'t list \<Rightarrow> 't option" where
  "typelist_front (Head # Tails) = Some Head"
| "typelist_front [] = None"

fun typelist_pop_front :: "'t list \<Rightarrow> 't list option" where
  "typelist_pop_front (Head # Tails) = Some Tails"
| "typelist_pop_front [] = None"

text \<open>The searches return \<open>void\<close> when nothing matches.\<close>

fun typelist_find :: "inst_module list \<Rightarrow> inst_module \<Rightarrow> inst_module" where
  "typelist_find (Head # Tails) Target = (if Target = Head then Head else typelist_find Tails Target)"
| "typelist_find [] Target = Inst_void"

definition with_map_front :: "type_name \<Rightarrow> module_template \<Rightarrow> module_template" where
  "with_map_front T m = m\<lparr>mt_bound := mt_bound m @ [T]\<rparr>"

definition instantiate :: "module_template \<Rightarrow> type_name list \<Rightarrow> inst_module" where
  "instantiate m Ts = Inst_module (mt_name m) (mt_bound m @ Ts)"

definition file_descriptor_inst_module_list :: "module_template list \<Rightarrow> inst_module list" where
  "file_descriptor_inst_module_list Modules = map (\<lambda>m. instantiate m [''void'']) Modules"

fun module_match :: "inst_module \<Rightarrow> string \<Rightarrow> bool" where
  "module_match (Inst_module n args) R = (n = R)"
| "module_match Inst_void R = False"

fun inst_module_list_match :: "inst_module list \<Rightarrow> string \<Rightarrow> inst_module" where
  "inst_module_list_match (Head # Tails) Target =
    (if module_match Head Target then Head else inst_module_list_match Tails Target)"
| "inst_module_list_match [] Target = Inst_void"

fun get_policy_from_module :: "inst_module \<Rightarrow> type_name option" where
  "get_policy_from_module (Inst_module n [T, v]) = (if v = ''void'' then Some T else None)"
| "get_policy_from_module Inst_void = Some ''void''"
| "get_policy_from_module _ = None"

definition file_descriptor_has_module_v :: "module_template list \<Rightarrow> string \<Rightarrow> bool" where
  "file_descriptor_has_module_v Modules Module \<longleftrightarrow>
    inst_module_list_match (file_descriptor_inst_module_list Modules) Module \<noteq> Inst_void"

definition policy_from_file_descriptor_t :: "module_template list \<Rightarrow> string \<Rightarrow> type_name option" where
  "policy_from_file_descriptor_t Modules Module =
    get_policy_from_module (inst_module_list_match (file_descriptor_inst_module_list Modules) Module)"

declare module_map.simps [simp del]

lemma module_map_map: "module_map l f = Some (map f l)"
  by (induction l) (simp_all add: module_map.simps is_empty_def push_front_def)

lemma has_module_iff: "file_descriptor_has_module_v Modules Module \<longleftrightarrow> Module \<in> mt_name ` set Modules"
  by (induction Modules)
    (auto simp: file_descriptor_has_module_v_def file_descriptor_inst_module_list_def instantiate_def)

lemma no_module_void:
  "\<not> file_descriptor_has_module_v Modules Module \<Longrightarrow>
    policy_from_file_descriptor_t Modules Module = Some ''void''"
  by (simp add: policy_from_file_descriptor_t_def file_descriptor_has_module_v_def)

lemma policy_of_unbound:
  "(\<forall>m \<in> set Modules. mt_bound m = []) \<Longrightarrow> Module \<in> mt_name ` set Modules \<Longrightarrow>
    policy_from_file_descriptor_t (map (with_map_front T) Modules) Module = Some T"
  by (induction Modules)
    (auto simp: policy_from_file_descriptor_t_def file_descriptor_inst_module_list_def
      instantiate_def with_map_front_def)



end
