(* ===== verification/Buffer_Sequence.thy ===== *)
theory Buffer_Sequence
  imports Xy_Prelude
begin

text \<open>
  \<open>include/xynet/buffer.h\<close>: scatter/gather buffers. A buffer sequence owns an array of
  \<open>iovec\<close>s and an iterator into it; \<open>commit\<close> advances past the bytes a transfer moved. The
  model keeps the array, the iterator as an index and all sizes as 64-bit words. The abstract
  view of a sequence is the list of byte addresses still to be transferred, \<open>pending\<close>, and
  \<open>commit\<close> is shown to be \<open>drop\<close> on it.
\<close>

section \<open>Data\<close>

record iovec =
  iov_base :: addr
  iov_len :: size_t

text \<open>A \<open>std::span\<close>: data pointer, number of elements and \<open>sizeof\<close> of an element.\<close>

record span =
  sp_data :: addr
  sp_size :: size_t
  sp_elem :: size_t

definition size_bytes :: "span \<Rightarrow> size_t" where
  "size_bytes s = sp_size s * sp_elem s"

record buffer_sequence =
  m_sequence :: "iovec list"
  m_iterator :: nat

section \<open>Operations\<close>

text \<open>Both storages build one \<open>iovec\<close> per span or per element of the range, in order.\<close>

definition buffer_sequence_storage :: "span list \<Rightarrow> iovec list" where
  "buffer_sequence_storage spans =
     map (\<lambda>s. \<lparr>iov_base = sp_data s, iov_len = size_bytes s\<rparr>) spans"

definition buffer_sequence_base :: "span list \<Rightarrow> buffer_sequence" where
  "buffer_sequence_base spans =
     \<lparr>m_sequence = buffer_sequence_storage spans, m_iterator = 0\<rparr>"

text \<open>
  A pointer to an \<open>iovec\<close> of the sequence is its index; \<open>None\<close> is the null pointer.
\<close>

definition get_iov_ptr :: "buffer_sequence \<Rightarrow> nat option" where
  "get_iov_ptr b =
     (if m_iterator b = length (m_sequence b) then None else Some (m_iterator b))"

definition get_iov_cnt :: "buffer_sequence \<Rightarrow> size_t" where
  "get_iov_cnt b =
     (if m_iterator b = length (m_sequence b) then 0
      else of_nat (length (m_sequence b) - m_iterator b))"

definition get_iov_span :: "buffer_sequence \<Rightarrow> nat option \<times> size_t" where
  "get_iov_span b =
     (if m_iterator b = length (m_sequence b) then (None, 0)
      else (Some (m_iterator b), of_nat (length (m_sequence b) - m_iterator b)))"

text \<open>
  The loop of \<open>commit\<close>. The source tests \<open>m_iterator != end\<close>; the iterator never passes the
  end (\<open>buffer_wf\<close>), so this is the test \<open>m_iterator < end\<close> that makes the loop terminate for
  every argument.
\<close>

function commit_loop :: "size_t \<Rightarrow> iovec list \<Rightarrow> nat \<Rightarrow> iovec list \<times> nat" where
  "commit_loop len seq it =
     (if 0 < len \<and> it < length seq then
        (let v = seq ! it in
         if iov_len v \<le> len then commit_loop (len - iov_len v) seq (it + 1)
         else (seq[it := v\<lparr>iov_base := iov_base v + len, iov_len := iov_len v - len\<rparr>], it))
      else (seq, it))"
  by pat_completeness auto
termination
  by (relation "measure (\<lambda>(len, seq, it). length seq - it)") auto

declare commit_loop.simps [simp del]

definition commit :: "size_t \<Rightarrow> buffer_sequence \<Rightarrow> buffer_sequence" where
  "commit len b =
     (let (seq, it) = commit_loop len (m_sequence b) (m_iterator b)
      in b\<lparr>m_sequence := seq, m_iterator := it\<rparr>)"

section \<open>Abstract view\<close>

definition buffer_wf :: "buffer_sequence \<Rightarrow> bool" where
  "buffer_wf b \<longleftrightarrow> m_iterator b \<le> length (m_sequence b)"

definition iov_bytes :: "iovec \<Rightarrow> addr list" where
  "iov_bytes v = map (\<lambda>k. iov_base v + of_nat k) [0..<unat (iov_len v)]"

definition pending :: "buffer_sequence \<Rightarrow> addr list" where
  "pending b = concat (map iov_bytes (drop (m_iterator b) (m_sequence b)))"

text \<open>No empty \<open>iovec\<close> is left in front of the iterator's end.\<close>

definition no_empty_iov :: "buffer_sequence \<Rightarrow> bool" where
  "no_empty_iov b \<longleftrightarrow> list_all (\<lambda>v. 0 < iov_len v) (drop (m_iterator b) (m_sequence b))"

section \<open>Lemmas\<close>

lemma length_iov_bytes [simp]: "length (iov_bytes v) = unat (iov_len v)"
  by (simp add: iov_bytes_def)

lemma iov_bytes_advance:
  assumes "len < iov_len v"
  shows "iov_bytes (v\<lparr>iov_base := iov_base v + len, iov_len := iov_len v - len\<rparr>)
       = drop (unat len) (iov_bytes v)"
proof (rule nth_equalityI)
  from assms show "length (iov_bytes (v\<lparr>iov_base := iov_base v + len, iov_len := iov_len v - len\<rparr>))
      = length (drop (unat len) (iov_bytes v))"
    by (simp add: unat_minus_le)
next
  fix i
  assume "i < length (iov_bytes (v\<lparr>iov_base := iov_base v + len, iov_len := iov_len v - len\<rparr>))"
  with assms have "unat len + i < unat (iov_len v)"
    by (simp add: unat_minus_le)
  then show "iov_bytes (v\<lparr>iov_base := iov_base v + len, iov_len := iov_len v - len\<rparr>) ! i
      = drop (unat len) (iov_bytes v) ! i"
    using assms by (simp add: iov_bytes_def unat_minus_le)
qed

lemma commit_loop_stop:
  "len = 0 \<or> length seq \<le> it \<Longrightarrow> commit_loop len seq it = (seq, it)"
  by (subst commit_loop.simps) auto

lemma commit_loop_skip:
  "0 < len \<Longrightarrow> it < length seq \<Longrightarrow> iov_len (seq ! it) \<le> len \<Longrightarrow>
   commit_loop len seq it = commit_loop (len - iov_len (seq ! it)) seq (it + 1)"
  by (subst commit_loop.simps) (simp add: Let_def)

lemma commit_loop_part:
  "0 < len \<Longrightarrow> it < length seq \<Longrightarrow> len < iov_len (seq ! it) \<Longrightarrow>
   commit_loop len seq it =
     (seq[it := (seq ! it)\<lparr>iov_base := iov_base (seq ! it) + len,
                            iov_len := iov_len (seq ! it) - len\<rparr>], it)"
  by (subst commit_loop.simps) (simp add: Let_def not_le [symmetric])

lemmas commit_loop_eqs = commit_loop_stop commit_loop_skip commit_loop_part

text \<open>Computation induction on the loop, one case per branch of its body.\<close>

lemma commit_loop_cases [case_names Stop Skip Part]:
  fixes P :: "size_t \<Rightarrow> iovec list \<Rightarrow> nat \<Rightarrow> bool"
  assumes "\<And>len seq it. len = 0 \<or> length seq \<le> it \<Longrightarrow> P len seq it"
    and "\<And>len seq it. 0 < len \<Longrightarrow> it < length seq \<Longrightarrow> iov_len (seq ! it) \<le> len \<Longrightarrow>
          P (len - iov_len (seq ! it)) seq (it + 1) \<Longrightarrow> P len seq it"
    and "\<And>len seq it. 0 < len \<Longrightarrow> it < length seq \<Longrightarrow> len < iov_len (seq ! it) \<Longrightarrow> P len seq it"
  shows "P len seq it"
proof (induction len seq it rule: commit_loop.induct)
  case (1 len seq it)
  then show ?case
    using assms by (cases "0 < len \<and> it < length seq"; cases "iov_len (seq ! it) \<le> len")
      (auto simp: word_gt_0)
qed

lemma commit_loop_length [simp]: "length (fst (commit_loop len seq it)) = length seq"
  by (induction len seq it rule: commit_loop_cases) (simp_all add: commit_loop_eqs)

lemma commit_loop_bounds:
  "it \<le> length seq \<Longrightarrow> it \<le> snd (commit_loop len seq it) \<and> snd (commit_loop len seq it) \<le> length seq"
  by (induction len seq it rule: commit_loop_cases) (auto simp: commit_loop_eqs)

lemma commit_loop_pending:
  "concat (map iov_bytes (drop (snd (commit_loop len seq it)) (fst (commit_loop len seq it))))
   = drop (unat len) (concat (map iov_bytes (drop it seq)))"
proof (induction len seq it rule: commit_loop_cases)
  case (Stop len seq it)
  then show ?case by (auto simp: commit_loop_eqs)
next
  case (Skip len seq it)
  then have "unat (iov_len (seq ! it)) \<le> unat len"
    by (simp add: word_le_nat_alt)
  with Skip show ?case
    by (simp add: commit_loop_eqs unat_minus_le drop_nth_Cons)
next
  case (Part len seq it)
  then have "unat len < unat (iov_len (seq ! it))"
    by (simp add: word_less_nat_alt)
  with Part show ?case
    by (simp add: commit_loop_eqs iov_bytes_advance drop_nth_Cons drop_update_Cons)
qed

lemma commit_loop_no_empty:
  "list_all (\<lambda>v. 0 < iov_len v) (drop it seq) \<Longrightarrow>
   list_all (\<lambda>v. 0 < iov_len v)
     (drop (snd (commit_loop len seq it)) (fst (commit_loop len seq it)))"
proof (induction len seq it rule: commit_loop_cases)
  case (Part len seq it)
  then have "0 < iov_len (seq ! it) - len"
    by (auto simp: word_gt_0)
  with Part show ?case
    by (simp add: commit_loop_eqs drop_nth_Cons drop_update_Cons)
next
  case (Skip len seq it)
  then show ?case by (simp add: commit_loop_eqs drop_nth_Cons)
qed (auto simp: commit_loop_eqs)

lemma commit_wf [wf_intros]: "buffer_wf b \<Longrightarrow> buffer_wf (commit len b)"
  using commit_loop_bounds [of "m_iterator b" "m_sequence b" len]
  by (simp add: buffer_wf_def commit_def split_beta)

lemma buffer_sequence_base_wf [wf_intros]: "buffer_wf (buffer_sequence_base spans)"
  by (simp add: buffer_wf_def buffer_sequence_base_def)

lemma pending_commit [abs_simps]: "pending (commit len b) = drop (unat len) (pending b)"
  using commit_loop_pending [of len "m_sequence b" "m_iterator b"]
  by (simp add: pending_def commit_def split_beta)

lemma commit_no_empty [wf_intros]: "no_empty_iov b \<Longrightarrow> no_empty_iov (commit len b)"
  using commit_loop_no_empty [of "m_iterator b" "m_sequence b" len]
  by (simp add: no_empty_iov_def commit_def split_beta)

lemma get_iov_span_eq: "get_iov_span b = (get_iov_ptr b, get_iov_cnt b)"
  by (simp add: get_iov_span_def get_iov_ptr_def get_iov_cnt_def)

lemma get_iov_ptr_None_iff:
  assumes "buffer_wf b" and "no_empty_iov b"
  shows "get_iov_ptr b = None \<longleftrightarrow> pending b = []"
proof (cases "m_iterator b = length (m_sequence b)")
  case True
  then show ?thesis by (simp add: get_iov_ptr_def pending_def)
next
  case False
  with assms(1) have "drop (m_iterator b) (m_sequence b) =
      m_sequence b ! m_iterator b # drop (m_iterator b + 1) (m_sequence b)"
    by (simp add: buffer_wf_def Cons_nth_drop_Suc)
  moreover from this assms(2) have "0 < unat (iov_len (m_sequence b ! m_iterator b))"
    by (simp add: no_empty_iov_def word_gt_0_unat)
  then have "iov_bytes (m_sequence b ! m_iterator b) \<noteq> []"
    by (metis length_0_conv length_iov_bytes less_numeral_extra(3))
  ultimately show ?thesis
    using False by (simp add: get_iov_ptr_def pending_def)
qed

section \<open>The interface the transfer operations use\<close>

text \<open>
  \<open>async_recvmsg\<close> and \<open>async_sendmsg\<close> see a buffer sequence through \<open>commit\<close> and through
  whether \<open>get_iov_span\<close> returns a null pointer. The laws they rely on, and what follows for a
  whole series of partial transfers.
\<close>

locale transfer_buffer =
  fixes remaining :: "'b \<Rightarrow> addr list"
    and advance :: "size_t \<Rightarrow> 'b \<Rightarrow> 'b"
    and at_end :: "'b \<Rightarrow> bool"
    and ok :: "'b \<Rightarrow> bool"
  assumes remaining_advance: "ok b \<Longrightarrow> remaining (advance n b) = drop (unat n) (remaining b)"
    and ok_advance: "ok b \<Longrightarrow> ok (advance n b)"
    and at_end_iff: "ok b \<Longrightarrow> at_end b \<longleftrightarrow> remaining b = []"
begin

lemma ok_fold: "ok b \<Longrightarrow> ok (fold advance ns b)"
  by (induction ns arbitrary: b) (auto intro: ok_advance)

lemma remaining_fold:
  "ok b \<Longrightarrow> remaining (fold advance ns b) = drop (sum_list (map unat ns)) (remaining b)"
proof (induction ns arbitrary: b)
  case (Cons n ns)
  then show ?case
    by (simp add: ok_advance remaining_advance add.commute)
qed simp

lemma at_end_fold:
  "ok b \<Longrightarrow> at_end (fold advance ns b) \<longleftrightarrow> length (remaining b) \<le> sum_list (map unat ns)"
  by (simp add: at_end_iff ok_fold remaining_fold)

end

definition buffer_ok :: "buffer_sequence \<Rightarrow> bool" where
  "buffer_ok b \<longleftrightarrow> buffer_wf b \<and> no_empty_iov b"

definition buffer_done :: "buffer_sequence \<Rightarrow> bool" where
  "buffer_done b \<longleftrightarrow> fst (get_iov_span b) = None"

interpretation iov: transfer_buffer pending commit buffer_done buffer_ok
  by unfold_locales
    (simp_all add: pending_commit buffer_ok_def buffer_done_def commit_wf commit_no_empty
      get_iov_span_eq get_iov_ptr_None_iff)

lemma length_pending_base:
  "length (pending (buffer_sequence_base spans)) = (\<Sum>s\<leftarrow>spans. unat (size_bytes s))"
  by (induction spans)
    (simp_all add: pending_def buffer_sequence_base_def buffer_sequence_storage_def)

lemma buffer_ok_base:
  "list_all (\<lambda>s. size_bytes s \<noteq> 0) spans \<Longrightarrow> buffer_ok (buffer_sequence_base spans)"
  by (simp add: buffer_ok_def buffer_wf_def no_empty_iov_def buffer_sequence_base_def
      buffer_sequence_storage_def list_all_iff word_gt_0)

section \<open>Properties\<close>

text \<open>
  C4: \<open>commit(n)\<close> refines dropping \<open>n\<close> bytes: for every well-formed sequence the bytes still to
  be transferred afterwards are exactly those before it less the first \<open>n\<close>, in order and at the
  same addresses, however \<open>n\<close> falls across the \<open>iovec\<close>s, and the iterator stays in range.
\<close>

theorem commit_refines_drop:
  assumes "buffer_wf b"
  shows "buffer_wf (commit n b) \<and> pending (commit n b) = drop (unat n) (pending b)"
  using assms by (simp add: commit_wf pending_commit)

theorem commit_refines_drop_witness:
  "pending (commit 5 (buffer_sequence_base
     [\<lparr>sp_data = 100, sp_size = 3, sp_elem = 1\<rparr>, \<lparr>sp_data = 200, sp_size = 2, sp_elem = 4\<rparr>]))
   = [202, 203, 204, 205, 206, 207]"
proof -
  let ?b = "buffer_sequence_base
     [\<lparr>sp_data = 100, sp_size = 3, sp_elem = 1\<rparr>, \<lparr>sp_data = 200, sp_size = 2, sp_elem = 4\<rparr>]"
  have "pending ?b = [100, 101, 102, 200, 201, 202, 203, 204, 205, 206, 207]"
    by (simp add: pending_def buffer_sequence_base_def buffer_sequence_storage_def size_bytes_def
        iov_bytes_def upt_rec)
  with commit_refines_drop [of ?b 5] show ?thesis
    by (simp add: buffer_sequence_base_wf)
qed

text \<open>
  completion is detected exactly. For a sequence built from non-empty buffers, after any
  series of partial transfers \<open>get_iov_span\<close> returns the null pointer if and only if the
  transfers moved at least as many bytes as the buffers hold.
\<close>

theorem transfer_complete_iff:
  assumes "list_all (\<lambda>s. size_bytes s \<noteq> 0) spans"
  shows "fst (get_iov_span (fold commit ns (buffer_sequence_base spans))) = None \<longleftrightarrow>
    (\<Sum>s\<leftarrow>spans. unat (size_bytes s)) \<le> (\<Sum>n\<leftarrow>ns. unat n)"
  using iov.at_end_fold [OF buffer_ok_base [OF assms], of ns]
  by (simp add: buffer_done_def length_pending_base)

theorem transfer_complete_iff_witness:
  "fst (get_iov_span (fold commit [2, 1, 5] (buffer_sequence_base
     [\<lparr>sp_data = 100, sp_size = 3, sp_elem = 1\<rparr>, \<lparr>sp_data = 200, sp_size = 5, sp_elem = 1\<rparr>])))
   = None"
  using transfer_complete_iff [of
     "[\<lparr>sp_data = 100, sp_size = 3, sp_elem = 1\<rparr>, \<lparr>sp_data = 200, sp_size = 5, sp_elem = 1\<rparr>]"
     "[2, 1, 5]"]
  by (simp add: size_bytes_def)

text \<open>
  an empty trailing buffer defeats that detection: once every byte of a sequence that ends
  in an empty buffer has been transferred, \<open>get_iov_span\<close> still returns a non-null pointer, to
  an \<open>iovec\<close> of length 0, whatever the non-empty buffer in front of it.
\<close>

theorem trailing_empty_buffer_not_done:
  assumes "size_bytes s \<noteq> 0" and "size_bytes e = 0"
  shows "pending (commit (size_bytes s) (buffer_sequence_base [s, e])) = [] \<and>
    fst (get_iov_span (commit (size_bytes s) (buffer_sequence_base [s, e]))) = Some 1"
proof
  show "pending (commit (size_bytes s) (buffer_sequence_base [s, e])) = []"
    using assms by (simp add: pending_commit length_pending_base)
next
  have "commit_loop (size_bytes s) (buffer_sequence_storage [s, e]) 0
      = (buffer_sequence_storage [s, e], 1)"
    using assms
    by (simp add: commit_loop_skip commit_loop_stop buffer_sequence_storage_def word_gt_0)
  then show "fst (get_iov_span (commit (size_bytes s) (buffer_sequence_base [s, e]))) = Some 1"
    by (simp add: commit_def buffer_sequence_base_def get_iov_span_def buffer_sequence_storage_def)
qed

theorem trailing_empty_buffer_not_done_witness:
  "fst (get_iov_span (commit 4 (buffer_sequence_base
     [\<lparr>sp_data = 100, sp_size = 4, sp_elem = 1\<rparr>, \<lparr>sp_data = 200, sp_size = 0, sp_elem = 1\<rparr>])))
   = Some 1"
  using trailing_empty_buffer_not_done [of "\<lparr>sp_data = 100, sp_size = 4, sp_elem = 1\<rparr>"
      "\<lparr>sp_data = 200, sp_size = 0, sp_elem = 1\<rparr>"]
  by (simp add: size_bytes_def)

end
