(* ===== verification/Async_Operation.thy ===== *)
theory Async_Operation
  imports Descriptor Buffer_Sequence "HOL-Library.Signed_Division"
begin

text \<open>
  What every asynchronous operation shares (\<open>async_operation_base.h\<close>, \<open>detail/async_operation.h\<close>,
  \<open>detail/timeout_storage.h\<close>, and \<open>try_submit_io\<close> of \<open>io_service.h\<close>): the result fields, the
  pointer to the error code, the policies chosen by the arguments, and the submission to the
  ring, with or without a linked timeout.

  An operation runs by completions: the kernel completes its submission with a result, the
  service stores it with \<open>set_value\<close> and calls the callback, and the callback either resumes
  the awaiting coroutine or submits again. This outcome is an \<open>effect\<close>.
\<close>

section \<open>Timeouts\<close>

record timespec =
  tv_sec :: int
  tv_nsec :: int

text \<open>\<open>timeout_storage<true>\<close>: C++ division truncates towards zero.\<close>

definition timeout_storage :: "int \<Rightarrow> timespec" where
  "timeout_storage duration_ns =
    \<lparr> tv_sec = duration_ns sdiv 1000000000, tv_nsec = duration_ns smod 1000000000 \<rparr>"

definition is_zero_timeout :: "timespec \<Rightarrow> bool" where
  "is_zero_timeout ts \<longleftrightarrow> tv_sec ts = 0 \<and> tv_nsec ts = 0"

text \<open>\<open>timeout_storage<false>\<close> has no timespec; its pointer is null.\<close>

definition get_timespec_ptr :: "timespec option \<Rightarrow> timespec option" where
  "get_timespec_ptr m_timeout = m_timeout"

text \<open>
  A timeout survives its conversion to a kernel timespec exactly, and is a valid timespec (a
  nanosecond part in range) if and only if the duration is not a negative number of
  nanoseconds with a fractional second; only the zero duration is a zero timeout.
\<close>

theorem timeout_storage_exact:
  "tv_sec (timeout_storage ns) * 1000000000 + tv_nsec (timeout_storage ns) = ns \<and>
   (0 \<le> tv_nsec (timeout_storage ns) \<and> tv_nsec (timeout_storage ns) < 1000000000 \<longleftrightarrow>
     0 \<le> ns \<or> 1000000000 dvd ns) \<and>
   (is_zero_timeout (timeout_storage ns) \<longleftrightarrow> ns = 0)"
proof (cases "0 \<le> ns")
  case True
  then have "ns sdiv 1000000000 = ns div 1000000000" "ns smod 1000000000 = ns mod 1000000000"
    by (auto simp: signed_divide_int_def signed_modulo_int_def sgn_if)
  with True show ?thesis
    by (auto simp: timeout_storage_def is_zero_timeout_def)
next
  case False
  then have "ns sdiv 1000000000 = - (- ns div 1000000000)" "ns smod 1000000000 = - (- ns mod 1000000000)"
    by (auto simp: signed_divide_int_def signed_modulo_int_def sgn_if minus_div_mult_eq_mod [symmetric])
  then have *: "tv_sec (timeout_storage ns) = - (m div 1000000000)"
      "tv_nsec (timeout_storage ns) = - (m mod 1000000000)" if "m = - ns" for m
    using that by (simp_all add: timeout_storage_def)
  obtain m where m: "m = - ns" "0 < m" using False by simp
  have "- (m div 1000000000) * 1000000000 + - (m mod 1000000000) = ns"
    using div_mult_mod_eq [of m 1000000000] m(1) by linarith
  moreover have "\<not> (m div 1000000000 = 0 \<and> m mod 1000000000 = 0)"
    using div_mult_mod_eq [of m 1000000000] m(2) by auto
  moreover have "0 \<le> - (m mod 1000000000) \<and> - (m mod 1000000000) < 1000000000 \<longleftrightarrow> m mod 1000000000 = 0"
    using pos_mod_sign [of 1000000000 m] by linarith
  moreover have "m mod 1000000000 = 0 \<longleftrightarrow> 1000000000 dvd ns"
    using m by (simp add: mod_eq_0_iff_dvd)
  moreover have "ns \<noteq> 0" using False by simp
  ultimately show ?thesis
    using False unfolding * [OF m(1)] is_zero_timeout_def neg_equal_0_iff_equal by metis
qed

section \<open>Policies\<close>

record async_operation_policy =
  timeout_type :: bool
  error_code_type :: bool

datatype arg_kind = A_duration | A_error_code | A_other

text \<open>The policy the argument types select; an argument list without a specialisation is ill-formed.\<close>

fun async_operation_traits :: "arg_kind list \<Rightarrow> async_operation_policy option" where
  "async_operation_traits [P1, P2] = Some \<lparr> timeout_type = True, error_code_type = True \<rparr>"
| "async_operation_traits [] = Some \<lparr> timeout_type = False, error_code_type = False \<rparr>"
| "async_operation_traits [A_duration] = Some \<lparr> timeout_type = True, error_code_type = False \<rparr>"
| "async_operation_traits [A_error_code] = Some \<lparr> timeout_type = False, error_code_type = True \<rparr>"
| "async_operation_traits _ = None"

definition is_duration :: "arg_kind \<Rightarrow> bool" where
  "is_duration T \<longleftrightarrow> T = A_duration"

section \<open>Submission queue entries\<close>

record msghdr =
  msg_iov :: "nat option"
  msg_iovlen :: size_t
  msg_flags :: int

datatype prep =
    Prep_recvmsg int msghdr
  | Prep_sendmsg int msghdr
  | Prep_recv int int
  | Prep_accept int
  | Prep_connect int sockaddr_in
  | Prep_splice int int size_t
  | Prep_openat string int nat
  | Prep_readv int "nat option" size_t int
  | Prep_statx int int int
  | Prep_timeout timespec
  | Prep_link_timeout timespec
  | Prep_poll_add int

text \<open>User data 0 marks a linked timeout; any other value is the address of an operation.\<close>

record sqe =
  sqe_prep :: prep
  sqe_user_data :: nat
  sqe_link :: bool

definition try_submit_io :: "sqe \<Rightarrow> sqe list" where
  "try_submit_io io_sqe = [io_sqe]"

definition try_submit_io_timeout :: "sqe \<Rightarrow> timespec \<Rightarrow> sqe list" where
  "try_submit_io_timeout io_sqe ts =
    [io_sqe\<lparr>sqe_link := True\<rparr>,
     \<lparr> sqe_prep = Prep_link_timeout ts, sqe_user_data = 0, sqe_link = False \<rparr>]"

section \<open>The operation base\<close>

text \<open>
  \<open>mp_error\<close> points to the operation's own error code, to the caller's, or nowhere. Both cells
  are fields, so that an operation's effect on the caller's error code is visible.
\<close>

datatype error_ref = Own_error | Caller_error

datatype callback = On_operation_completed | On_own_completion

record async_operation =
  m_res :: int
  m_flags :: int
  mp_error :: "error_ref option"
  m_error_code :: error_code
  caller_error :: error_code
  mp_service :: "nat option"
  m_callback :: callback
  m_awaiting_coroutine :: "nat option"
  m_timeout :: "timespec option"
  op_policy :: async_operation_policy
  op_address :: nat

definition get_error_code :: "'a async_operation_scheme \<Rightarrow> error_code" where
  "get_error_code base = (case mp_error base of
      Some Own_error \<Rightarrow> m_error_code base
    | Some Caller_error \<Rightarrow> caller_error base
    | None \<Rightarrow> no_error)"

definition assign_error :: "error_code \<Rightarrow> 'a async_operation_scheme \<Rightarrow> 'a async_operation_scheme" where
  "assign_error e base = (case mp_error base of
      Some Own_error \<Rightarrow> base\<lparr>m_error_code := e\<rparr>
    | Some Caller_error \<Rightarrow> base\<lparr>caller_error := e\<rparr>
    | None \<Rightarrow> base)"

definition set_value :: "int \<Rightarrow> int \<Rightarrow> 'a async_operation_scheme \<Rightarrow> 'a async_operation_scheme" where
  "set_value res flags base =
    (let base = base\<lparr>m_res := res, m_flags := flags\<rparr> in
     if m_res base < 0 then assign_error (system_code (- m_res base)) base else base)"

definition set_callback :: "callback \<Rightarrow> 'a async_operation_scheme \<Rightarrow> 'a async_operation_scheme" where
  "set_callback cb base = base\<lparr>m_callback := cb\<rparr>"

definition set_awaiting_coroutine :: "nat \<Rightarrow> 'a async_operation_scheme \<Rightarrow> 'a async_operation_scheme" where
  "set_awaiting_coroutine h base = base\<lparr>m_awaiting_coroutine := Some h\<rparr>"

definition no_error_in_result :: "'a async_operation_scheme \<Rightarrow> bool" where
  "no_error_in_result base \<longleftrightarrow> mp_service base \<noteq> None \<and> m_res base \<ge> 0"

text \<open>\<open>error_code_storage<enable_error_code>::ptr()\<close>.\<close>

definition error_code_storage_ptr :: "bool \<Rightarrow> error_ref option" where
  "error_code_storage_ptr enable_error_code = (if enable_error_code then None else Some Own_error)"

text \<open>
  The constructors: each of the callback, the duration and the caller's error code may be
  given or not, which are the eight overloads.
\<close>

definition async_operation_new ::
  "nat option \<Rightarrow> async_operation_policy \<Rightarrow> callback option \<Rightarrow> int option \<Rightarrow> error_code option \<Rightarrow> nat
    \<Rightarrow> async_operation" where
  "async_operation_new thread_service policy cb duration error self =
    \<lparr> m_res = 0, m_flags = 0,
      mp_error = (case error of Some e \<Rightarrow> Some Caller_error
        | None \<Rightarrow> error_code_storage_ptr (error_code_type policy)),
      m_error_code = no_error,
      caller_error = (case error of Some e \<Rightarrow> e | None \<Rightarrow> no_error),
      mp_service = thread_service,
      m_callback = (case cb of Some c \<Rightarrow> c | None \<Rightarrow> On_operation_completed),
      m_awaiting_coroutine = None,
      m_timeout = map_option timeout_storage duration,
      op_policy = policy,
      op_address = self \<rparr>"

text \<open>What a callback, or an \<open>await_suspend\<close>, does next; a submission through a null service crashes.\<close>

datatype effect = Resume "nat option" | Submit "sqe list" | Crash

definition on_operation_completed :: "'a async_operation_scheme \<Rightarrow> effect" where
  "on_operation_completed base = Resume (m_awaiting_coroutine base)"

definition submit :: "prep \<Rightarrow> 'a async_operation_scheme \<Rightarrow> effect" where
  "submit start base =
    (let entry = \<lparr> sqe_prep = start, sqe_user_data = op_address base, sqe_link = False \<rparr> in
     case mp_service base of None \<Rightarrow> Crash
     | Some service \<Rightarrow>
       if \<not> timeout_type (op_policy base) then Submit (try_submit_io entry)
       else (case get_timespec_ptr (m_timeout base) of
           Some ts \<Rightarrow> Submit (try_submit_io_timeout entry ts)
         | None \<Rightarrow> Crash))"

definition await_ready :: "bool \<Rightarrow> 'a async_operation_scheme \<Rightarrow> bool" where
  "await_ready initial_check base \<longleftrightarrow> mp_service base = None \<and> \<not> initial_check"

definition await_suspend ::
  "('a async_operation_scheme \<Rightarrow> prep) \<Rightarrow> nat \<Rightarrow> 'a async_operation_scheme
    \<Rightarrow> 'a async_operation_scheme \<times> effect" where
  "await_suspend try_start h base =
    (let base = set_awaiting_coroutine h base in (base, submit (try_start base) base))"

section \<open>Facts about operations\<close>

lemma assign_error_simps [simp]:
  "mp_error (assign_error e b) = mp_error b"
  "m_res (assign_error e b) = m_res b"
  "mp_service (assign_error e b) = mp_service b"
  "op_policy (assign_error e b) = op_policy b"
  "m_callback (assign_error e b) = m_callback b"
  "m_timeout (assign_error e b) = m_timeout b"
  "op_address (assign_error e b) = op_address b"
  "m_awaiting_coroutine (assign_error e b) = m_awaiting_coroutine b"
  by (simp_all add: assign_error_def split: option.split error_ref.split)

lemma more_assign_error [simp]: "async_operation.more (assign_error e b) = async_operation.more b"
  by (simp add: assign_error_def split: option.split error_ref.split)

lemma get_assign_error [simp]:
  "mp_error b \<noteq> None \<Longrightarrow> get_error_code (assign_error e b) = e"
  by (auto simp: assign_error_def get_error_code_def split: option.splits error_ref.splits)

lemma set_value_simps [simp]:
  "mp_error (set_value r f b) = mp_error b"
  "m_res (set_value r f b) = r"
  "mp_service (set_value r f b) = mp_service b"
  "op_policy (set_value r f b) = op_policy b"
  "m_callback (set_value r f b) = m_callback b"
  "m_timeout (set_value r f b) = m_timeout b"
  "op_address (set_value r f b) = op_address b"
  "m_awaiting_coroutine (set_value r f b) = m_awaiting_coroutine b"
  "async_operation.more (set_value r f b) = async_operation.more b"
  by (simp_all add: set_value_def Let_def)

lemma get_error_set_value:
  assumes "mp_error b \<noteq> None"
  shows "get_error_code (set_value r f b) = (if r < 0 then system_code (- r) else get_error_code b)"
  using assms by (auto simp: set_value_def Let_def) (simp add: get_error_code_def split: error_ref.split)

text \<open>An operation built with the policy its arguments select has an error code to report to.\<close>

definition api_policy :: "int option \<Rightarrow> error_code option \<Rightarrow> async_operation_policy" where
  "api_policy duration error =
    \<lparr> timeout_type = duration \<noteq> None, error_code_type = error \<noteq> None \<rparr>"

lemma api_policy_traits:
  "async_operation_traits ((if duration = None then [] else [A_duration]) @
     (if error = None then [] else [A_error_code])) = Some (api_policy duration error)"
  by (simp add: api_policy_def)

definition api_operation :: "nat option \<Rightarrow> callback option \<Rightarrow> int option \<Rightarrow> error_code option \<Rightarrow> nat \<Rightarrow> async_operation" where
  "api_operation service cb duration error self =
    async_operation_new service (api_policy duration error) cb duration error self"

lemma api_operation_simps [simp]:
  "mp_error (api_operation s cb d e a) = Some (if e = None then Own_error else Caller_error)"
  "mp_service (api_operation s cb d e a) = s"
  "op_policy (api_operation s cb d e a) = api_policy d e"
  "m_timeout (api_operation s cb d e a) = map_option timeout_storage d"
  "m_awaiting_coroutine (api_operation s cb d e a) = None"
  "get_error_code (api_operation s cb d e a) = (case e of None \<Rightarrow> no_error | Some c \<Rightarrow> c)"
  by (simp_all add: api_operation_def async_operation_new_def api_policy_def error_code_storage_ptr_def
      get_error_code_def split: option.split)

text \<open>An operation is ready to be submitted: it has a service, and a timespec if its policy wants one.\<close>

definition submittable :: "'a async_operation_scheme \<Rightarrow> bool" where
  "submittable b \<longleftrightarrow> mp_service b \<noteq> None \<and> (timeout_type (op_policy b) \<longrightarrow> m_timeout b \<noteq> None)"

lemma submit_submittable: "submittable b \<Longrightarrow> \<exists>es. submit p b = Submit es \<and> sqe_prep (hd es) = p \<and> sqe_user_data (hd es) = op_address b"
  by (auto simp: submittable_def submit_def Let_def try_submit_io_def try_submit_io_timeout_def get_timespec_ptr_def)

lemma submittable_api [simp]: "submittable (api_operation s cb d e a) \<longleftrightarrow> s \<noteq> None"
  by (auto simp: submittable_def api_policy_def)

text \<open>
  Awaiting an operation on a thread that runs no service. The guard that should complete the
  operation at once tests \<open>service == null && !initial_check\<close>, so for every operation whose
  initial check passes, which is all of them but a close of an invalid descriptor, the
  coroutine is suspended and the submission goes through the null service; the error code
  \<open>no_service\<close> made for this case is not reported: the error code keeps the value it had.
\<close>

theorem await_without_service_crashes:
  "let op = api_operation None cb duration error self in
    \<not> await_ready True op \<and> snd (await_suspend try_start h op) = Crash \<and>
    get_error_code (fst (await_suspend try_start h op)) = (case error of None \<Rightarrow> no_error | Some e \<Rightarrow> e)"
  by (simp add: Let_def await_ready_def await_suspend_def set_awaiting_coroutine_def submit_def)
    (simp add: get_error_code_def api_operation_def async_operation_new_def error_code_storage_ptr_def
      api_policy_def split: option.split)

end
