(* ===== verification/Stream_Transfer.thy ===== *)
theory Stream_Transfer
  imports Async_Operation
begin

text \<open>
  Receiving and sending on a socket (\<open>socket/impl/recv_all.h\<close>, \<open>socket/impl/send_all.h\<close>): one
  awaitable operation that issues as many kernel transfers as it takes to fill, or to send,
  all its buffers.

  \<open>m_bytes_transferred\<close> is a C++ \<open>int\<close>, whose overflow is undefined; it is an unbounded integer
  here, and the theorems that speak of it are for buffers of less than \<open>2\<^sup>31\<close> bytes in all.
\<close>

record stream_operation = async_operation +
  m_buffers :: buffer_sequence
  m_bytes_transferred :: int
  m_msghdr :: msghdr

definition stream_operation_new ::
  "nat option \<Rightarrow> int option \<Rightarrow> error_code option \<Rightarrow> span list \<Rightarrow> nat \<Rightarrow> stream_operation" where
  "stream_operation_new service duration error args self =
    (let bufs = buffer_sequence_base args in
     async_operation.extend
       (api_operation service (Some On_own_completion) duration error self)
       \<lparr> m_buffers = bufs, m_bytes_transferred = 0,
         m_msghdr = \<lparr> msg_iov = get_iov_ptr bufs, msg_iovlen = get_iov_cnt bufs, msg_flags = 0 \<rparr> \<rparr>)"

section \<open>Receiving\<close>

definition async_recvmsg ::
  "nat option \<Rightarrow> int option \<Rightarrow> error_code option \<Rightarrow> span list \<Rightarrow> nat \<Rightarrow> stream_operation" where
  "async_recvmsg service duration error args self =
    stream_operation_new service duration error args self"

definition recv_initial_check :: bool where
  "recv_initial_check = True"

definition recv_try_start :: "int \<Rightarrow> stream_operation \<Rightarrow> prep" where
  "recv_try_start fd op = Prep_recvmsg fd (m_msghdr op)"

definition recv_update_result :: "int \<Rightarrow> stream_operation \<Rightarrow> stream_operation \<times> effect" where
  "recv_update_result fd op =
    (if ec_set (get_error_code op) \<or> m_res op = 0 then (op, Resume (m_awaiting_coroutine op))
     else
       (let op = op\<lparr>m_bytes_transferred := m_bytes_transferred op + m_res op\<rparr>;
            op = op\<lparr>m_buffers := commit (word_of_int (m_res op)) (m_buffers op)\<rparr>;
            (iov, iovlen) = get_iov_span (m_buffers op);
            op = op\<lparr>m_msghdr := (m_msghdr op)\<lparr>msg_iov := iov, msg_iovlen := iovlen\<rparr>\<rparr>
        in if iov = None then (op, Resume (m_awaiting_coroutine op))
           else (op, submit (recv_try_start fd op) op)))"

definition on_recv_completed :: "bool \<Rightarrow> int \<Rightarrow> stream_operation \<Rightarrow> stream_operation \<times> effect" where
  "on_recv_completed recv_once fd op =
    (if recv_once then
       (let ret = m_res op; op = op\<lparr>m_bytes_transferred := (if ret \<ge> 0 then ret else 0)\<rparr>
        in (op, on_operation_completed op))
     else recv_update_result fd op)"

definition recv_get_result :: "stream_operation \<Rightarrow> stream_operation \<times> (cpp_exn + size_t)" where
  "recv_get_result op =
    (let op = (if m_res op = 0 then assign_error (make_error_code Eof) op else op) in
     (op, if \<not> error_code_type (op_policy op) \<and> ec_set (get_error_code op)
          then Inl (System_error (get_error_code op))
          else Inr (word_of_int (m_bytes_transferred op))))"

text \<open>
  \<open>recv\<close> and \<open>recv_some\<close>: the four overloads of each give the duration and the error code or
  not. The pair is the operation and whether it stops after the first transfer.
\<close>

definition recv ::
  "nat option \<Rightarrow> int option \<Rightarrow> error_code option \<Rightarrow> span list \<Rightarrow> nat \<Rightarrow> stream_operation \<times> bool" where
  "recv service duration error args self = (async_recvmsg service duration error args self, False)"

definition recv_some ::
  "nat option \<Rightarrow> int option \<Rightarrow> error_code option \<Rightarrow> span list \<Rightarrow> nat \<Rightarrow> stream_operation \<times> bool" where
  "recv_some service duration error args self = (async_recvmsg service duration error args self, True)"

section \<open>Sending\<close>

definition async_sendmsg ::
  "nat option \<Rightarrow> int option \<Rightarrow> error_code option \<Rightarrow> span list \<Rightarrow> nat \<Rightarrow> stream_operation" where
  "async_sendmsg service duration error args self =
    stream_operation_new service duration error args self"

definition send_initial_check :: bool where
  "send_initial_check = True"

definition send_try_start :: "int \<Rightarrow> stream_operation \<Rightarrow> prep" where
  "send_try_start fd op = Prep_sendmsg fd (m_msghdr op)"

definition send_update_result :: "int \<Rightarrow> stream_operation \<Rightarrow> stream_operation \<times> effect" where
  "send_update_result fd op =
    (if ec_set (get_error_code op) \<or> m_res op = 0 then (op, Resume (m_awaiting_coroutine op))
     else
       (let op = op\<lparr>m_bytes_transferred := m_bytes_transferred op + m_res op\<rparr>;
            op = op\<lparr>m_buffers := commit (word_of_int (m_res op)) (m_buffers op)\<rparr>;
            (iov, iovlen) = get_iov_span (m_buffers op);
            op = op\<lparr>m_msghdr := (m_msghdr op)\<lparr>msg_iov := iov, msg_iovlen := iovlen\<rparr>\<rparr>
        in if iov = None then (op, Resume (m_awaiting_coroutine op))
           else (op, submit (send_try_start fd op) op)))"

definition on_send_completed :: "int \<Rightarrow> stream_operation \<Rightarrow> stream_operation \<times> effect" where
  "on_send_completed fd op = send_update_result fd op"

definition send_get_result :: "stream_operation \<Rightarrow> cpp_exn + size_t" where
  "send_get_result op =
    (if error_code_type (op_policy op) then Inr (word_of_int (m_bytes_transferred op))
     else if \<not> ec_set (get_error_code op) then Inr (word_of_int (m_bytes_transferred op))
     else Inl (System_error (get_error_code op)))"

definition send ::
  "nat option \<Rightarrow> int option \<Rightarrow> error_code option \<Rightarrow> span list \<Rightarrow> nat \<Rightarrow> stream_operation" where
  "send service duration error args self = async_sendmsg service duration error args self"

section \<open>Completions\<close>

text \<open>
  The service hands a completion to an operation by \<open>set_value\<close> and its callback. \<open>drive\<close> feeds
  a series of completions to an operation, until it resumes its coroutine; it also collects
  the addresses the kernel transferred to or from, as the message header submitted for each
  completion describes them.
\<close>

definition recv_complete :: "bool \<Rightarrow> int \<Rightarrow> int \<Rightarrow> stream_operation \<Rightarrow> stream_operation \<times> effect" where
  "recv_complete once fd res op = on_recv_completed once fd (set_value res 0 op)"

definition send_complete :: "int \<Rightarrow> int \<Rightarrow> stream_operation \<Rightarrow> stream_operation \<times> effect" where
  "send_complete fd res op = on_send_completed fd (set_value res 0 op)"

definition msg_addrs :: "stream_operation \<Rightarrow> addr list" where
  "msg_addrs op = (case msg_iov (m_msghdr op) of None \<Rightarrow> []
    | Some i \<Rightarrow> concat (map iov_bytes (take (unat (msg_iovlen (m_msghdr op))) (drop i (m_sequence (m_buffers op))))))"

fun drive ::
  "(int \<Rightarrow> stream_operation \<Rightarrow> stream_operation \<times> effect) \<Rightarrow> int list \<Rightarrow> stream_operation
    \<Rightarrow> stream_operation \<times> bool \<times> addr list" where
  "drive complete [] op = (op, False, [])"
| "drive complete (r # rs) op =
    (let moved = take (nat r) (msg_addrs op); (op', eff) = complete r op in
     case eff of
       Submit es \<Rightarrow> (let (op'', resumed, moved') = drive complete rs op' in (op'', resumed, moved @ moved'))
     | _ \<Rightarrow> (op', True, moved))"

text \<open>
  What the kernel promises of the results: it never transfers more than the submitted buffers
  hold. 0 is the end of the stream and a negative result an error.
\<close>

fun kernel_moves :: "nat \<Rightarrow> int list \<Rightarrow> bool" where
  "kernel_moves remaining [] = True"
| "kernel_moves remaining (r # rs) \<longleftrightarrow>
    r \<le> int remaining \<and> (0 < r \<longrightarrow> kernel_moves (remaining - nat r) rs)"

definition total_moved :: "int list \<Rightarrow> nat" where
  "total_moved rs = nat (sum_list (takeWhile (\<lambda>r. 0 < r) rs))"

definition stop_result :: "int list \<Rightarrow> int option" where
  "stop_result rs = find (\<lambda>r. r \<le> 0) rs"

section \<open>One contract for both\<close>

text \<open>
  The state in which an operation waits for its next completion: the header it submitted is the
  span of its buffers, and it has an error code to report to, still clear.
\<close>

definition in_flight :: "stream_operation \<Rightarrow> bool" where
  "in_flight op \<longleftrightarrow> buffer_ok (m_buffers op) \<and> length (m_sequence (m_buffers op)) < 2 ^ 64 \<and>
    (msg_iov (m_msghdr op), msg_iovlen (m_msghdr op)) = get_iov_span (m_buffers op) \<and>
    mp_error op \<noteq> None \<and> submittable op \<and> \<not> ec_set (get_error_code op)"

lemma commit_length [simp]: "length (m_sequence (commit n b)) = length (m_sequence b)"
  by (simp add: commit_def split_beta)

lemma in_flight_addrs:
  assumes "in_flight op"
  shows "msg_addrs op = pending (m_buffers op)"
proof -
  from assms have hdr: "(msg_iov (m_msghdr op), msg_iovlen (m_msghdr op)) = get_iov_span (m_buffers op)"
    and len: "length (m_sequence (m_buffers op)) < 2 ^ 64"
    by (simp_all add: in_flight_def)
  let ?n = "length (m_sequence (m_buffers op)) - m_iterator (m_buffers op)"
  from len have "unat (of_nat ?n :: size_t) = ?n"
    by (simp add: unsigned_of_nat take_bit_nat_eq_self)
  with hdr show ?thesis
    by (auto simp: msg_addrs_def get_iov_span_def pending_def split: if_splits)
qed

lemma total_moved_simps [simp]:
  "total_moved [] = 0"
  "r \<le> 0 \<Longrightarrow> total_moved (r # rs) = 0"
  "0 < r \<Longrightarrow> total_moved (r # rs) = nat r + total_moved rs"
proof -
  have "0 \<le> sum_list (takeWhile (\<lambda>r. 0 < r) rs)"
    by (rule sum_list_nonneg) (auto dest: set_takeWhileD)
  then show "0 < r \<Longrightarrow> total_moved (r # rs) = nat r + total_moved rs"
    by (simp add: total_moved_def nat_add_distrib)
qed (simp_all add: total_moved_def)

lemma stop_result_simps [simp]:
  "stop_result [] = None"
  "r \<le> 0 \<Longrightarrow> stop_result (r # rs) = Some r"
  "0 < r \<Longrightarrow> stop_result (r # rs) = stop_result rs"
  by (simp_all add: stop_result_def)

lemma total_moved_le: "kernel_moves n rs \<Longrightarrow> total_moved rs \<le> n"
proof (induction n rs rule: kernel_moves.induct)
  case (2 n r rs)
  then show ?case by (cases "0 < r") (auto simp: nat_le_iff)
qed simp

lemma kernel_moves_0: "kernel_moves 0 rs \<Longrightarrow> total_moved rs = 0"
  using total_moved_le [of 0 rs] by simp

lemma length_le_total_moved: "stop_result rs = None \<Longrightarrow> length rs \<le> total_moved rs"
proof (induction rs)
  case (Cons r rs)
  then show ?case by (cases "0 < r") (auto simp: Suc_le_eq)
qed simp

locale stream_completion =
  fixes complete :: "int \<Rightarrow> stream_operation \<Rightarrow> stream_operation \<times> effect"
  assumes on_transfer: "in_flight op \<Longrightarrow> 0 < r \<Longrightarrow> complete r op = (op', eff) \<Longrightarrow>
      in_flight op' \<and> m_buffers op' = commit (word_of_int r) (m_buffers op) \<and>
      m_bytes_transferred op' = m_bytes_transferred op + r \<and> m_res op' = r \<and>
      (if buffer_done (m_buffers op') then (\<exists>h. eff = Resume h) else (\<exists>es. eff = Submit es))"
    and on_stop: "in_flight op \<Longrightarrow> r \<le> 0 \<Longrightarrow> complete r op = (op', eff) \<Longrightarrow>
      (\<exists>h. eff = Resume h) \<and> m_bytes_transferred op' = m_bytes_transferred op \<and> m_res op' = r \<and>
      get_error_code op' = (if r < 0 then system_code (- r) else get_error_code op)"
    and keeps_policy: "complete r op = (op', eff) \<Longrightarrow> op_policy op' = op_policy op \<and> mp_error op' = mp_error op"
begin

lemma drive_policy:
  "drive complete rs op = (op', resumed, moved) \<Longrightarrow> op_policy op' = op_policy op \<and> mp_error op' = mp_error op"
proof (induction rs arbitrary: op moved)
  case (Cons r rs)
  obtain op1 eff where "complete r op = (op1, eff)" by fastforce
  with Cons show ?case
    using keeps_policy [of r op op1 eff]
    by (auto simp: Let_def split: effect.splits prod.splits)
qed simp

lemma drive_moves:
  assumes "in_flight op" and "pending (m_buffers op) \<noteq> []" and "length (pending (m_buffers op)) < 2 ^ 31"
    and "kernel_moves (length (pending (m_buffers op))) rs"
    and "drive complete rs op = (op', resumed, moved)"
  shows "moved = take (total_moved rs) (pending (m_buffers op))
    \<and> m_bytes_transferred op' = m_bytes_transferred op + int (total_moved rs)
    \<and> (if total_moved rs = length (pending (m_buffers op))
       then resumed \<and> 0 < m_res op' \<and> \<not> ec_set (get_error_code op')
       else case stop_result rs of None \<Rightarrow> \<not> resumed
         | Some r \<Rightarrow> resumed \<and> m_res op' = r \<and>
             (if r < 0 then get_error_code op' = system_code (- r) else \<not> ec_set (get_error_code op')))"
  using assms
proof (induction rs arbitrary: op moved)
  case Nil
  then show ?case by simp
next
  case (Cons r rs)
  let ?p = "pending (m_buffers op)"
  obtain op1 eff where c: "complete r op = (op1, eff)" by fastforce
  show ?case
  proof (cases "0 < r")
    case False
    from on_stop [OF Cons.prems(1) _ c] False obtain h where eff: "eff = Resume h"
      and op1: "m_bytes_transferred op1 = m_bytes_transferred op" "m_res op1 = r"
        "get_error_code op1 = (if r < 0 then system_code (- r) else get_error_code op)" by auto
    from Cons.prems(5) eff c have "op' = op1" "resumed" "moved = []"
      using False by (auto simp: Let_def)
    with op1 Cons.prems(1,2) False show ?thesis by (simp add: in_flight_def)
  next
    case True
    from on_transfer [OF Cons.prems(1) True c]
    have fl: "in_flight op1" and bufs: "m_buffers op1 = commit (word_of_int r) (m_buffers op)"
      and bytes: "m_bytes_transferred op1 = m_bytes_transferred op + r" and res: "m_res op1 = r"
      and eff: "if buffer_done (m_buffers op1) then (\<exists>h. eff = Resume h) else (\<exists>es. eff = Submit es)"
      by auto
    from Cons.prems(3,4) True have r: "r \<le> int (length ?p)" "unat (word_of_int r :: size_t) = nat r"
      by (auto simp: unat_of_int_size)
    with bufs Cons.prems(1) have p1: "pending (m_buffers op1) = drop (nat r) ?p"
      by (simp add: pending_commit)
    have done1: "buffer_done (m_buffers op1) \<longleftrightarrow> nat r = length ?p"
      using fl r True by (simp add: in_flight_def iov.at_end_iff p1) linarith
    from in_flight_addrs [OF Cons.prems(1)] have addrs: "msg_addrs op = ?p" .
    show ?thesis
    proof (cases "nat r = length ?p")
      case True
      with eff done1 obtain h where "eff = Resume h" by auto
      with Cons.prems(5) c addrs have "op' = op1" "resumed" "moved = ?p"
        using True by (auto simp: Let_def)
      moreover from Cons.prems(4) True \<open>0 < r\<close> have "total_moved rs = 0"
        by (intro kernel_moves_0) simp
      ultimately show ?thesis
        using True \<open>0 < r\<close> bytes res fl by (simp add: in_flight_def)
    next
      case False
      with eff done1 obtain es where "eff = Submit es" by auto
      with Cons.prems(5) c addrs obtain moved1 where d: "drive complete rs op1 = (op', resumed, moved1)"
        and moved: "moved = take (nat r) ?p @ moved1"
        by (auto simp: Let_def split: prod.splits)
      have km: "kernel_moves (length (pending (m_buffers op1))) rs"
        using Cons.prems(4) \<open>0 < r\<close> p1 by simp
      have "pending (m_buffers op1) \<noteq> []" "length (pending (m_buffers op1)) < 2 ^ 31"
        using False r Cons.prems(3) p1 by auto
      from Cons.IH [OF fl this km d] show ?thesis
        using \<open>0 < r\<close> False r bytes moved p1 total_moved_le [OF km]
        by (auto simp: take_add split: option.splits if_splits)
    qed
  qed
qed

lemma drive_resumes:
  assumes "in_flight op" and "pending (m_buffers op) \<noteq> []" and "length (pending (m_buffers op)) < 2 ^ 31"
    and "kernel_moves (length (pending (m_buffers op))) rs"
    and "length (pending (m_buffers op)) \<le> length rs"
  shows "fst (snd (drive complete rs op))"
proof -
  obtain op' resumed moved where d: "drive complete rs op = (op', resumed, moved)"
    by (metis prod_cases3)
  from drive_moves [OF assms(1-4) d] show ?thesis
    using d length_le_total_moved [of rs] total_moved_le [OF assms(4)] assms(5)
    by (cases "stop_result rs") (auto split: if_splits)
qed

end

section \<open>Receiving and sending satisfy it\<close>

lemma in_flight_set_value:
  "in_flight op \<Longrightarrow> 0 \<le> r \<Longrightarrow> in_flight (set_value r f op)"
  by (simp add: in_flight_def set_value_def Let_def submittable_def get_error_code_def
      split: option.splits error_ref.splits)

lemma stream_fields_set_value [simp]:
  "m_buffers (set_value r f op) = m_buffers op"
  "m_bytes_transferred (set_value r f op) = m_bytes_transferred op"
  "m_msghdr (set_value r f op) = m_msghdr op"
  by (simp_all add: set_value_def Let_def assign_error_def split: option.split error_ref.split)

lemma stream_fields_assign_error [simp]:
  "m_bytes_transferred (assign_error e op) = m_bytes_transferred op"
  "get_error_code (op\<lparr>m_bytes_transferred := n\<rparr>) = get_error_code op"
  by (simp_all add: assign_error_def get_error_code_def split: option.split error_ref.split)

lemma in_flight_update:
  assumes "in_flight op"
  shows "in_flight (op\<lparr>m_bytes_transferred := n, m_buffers := commit k (m_buffers op),
    m_msghdr := (m_msghdr op)\<lparr>msg_iov := fst (get_iov_span (commit k (m_buffers op))),
      msg_iovlen := snd (get_iov_span (commit k (m_buffers op)))\<rparr>\<rparr>)"
  using assms iov.ok_advance [of "m_buffers op" k]
  by (auto simp: in_flight_def submittable_def get_error_code_def split: option.splits error_ref.splits)

text \<open>The two \<open>update_result\<close> members differ only in what they submit.\<close>

definition update_stream ::
  "(int \<Rightarrow> stream_operation \<Rightarrow> prep) \<Rightarrow> int \<Rightarrow> stream_operation \<Rightarrow> stream_operation \<times> effect" where
  "update_stream try_start fd op =
    (if ec_set (get_error_code op) \<or> m_res op = 0 then (op, Resume (m_awaiting_coroutine op))
     else
       (let b = commit (word_of_int (m_res op)) (m_buffers op);
            op = op\<lparr>m_bytes_transferred := m_bytes_transferred op + m_res op, m_buffers := b,
              m_msghdr := (m_msghdr op)\<lparr>msg_iov := fst (get_iov_span b), msg_iovlen := snd (get_iov_span b)\<rparr>\<rparr>
        in if fst (get_iov_span b) = None then (op, Resume (m_awaiting_coroutine op))
           else (op, submit (try_start fd op) op)))"

lemma recv_update_stream: "recv_update_result = update_stream recv_try_start"
  by (simp add: fun_eq_iff recv_update_result_def update_stream_def Let_def split_beta)

lemma send_update_stream: "send_update_result = update_stream send_try_start"
  by (simp add: fun_eq_iff send_update_result_def update_stream_def Let_def split_beta)

lemma update_stream_completion:
  "stream_completion (\<lambda>r op. update_stream try_start fd (set_value r 0 op))"
proof
  fix op r op' eff
  assume fl: "in_flight op" and r: "0 < r"
    and c: "update_stream try_start fd (set_value r 0 op) = (op', eff)"
  let ?o = "set_value r 0 op" and ?b = "commit (word_of_int r) (m_buffers op)"
  let ?n = "?o\<lparr>m_bytes_transferred := m_bytes_transferred op + r, m_buffers := ?b,
    m_msghdr := (m_msghdr op)\<lparr>msg_iov := fst (get_iov_span ?b), msg_iovlen := snd (get_iov_span ?b)\<rparr>\<rparr>"
  from fl r have fo: "in_flight ?o" by (simp add: in_flight_set_value)
  then have err: "\<not> ec_set (get_error_code ?o)" by (simp add: in_flight_def)
  from in_flight_update [OF fo, where n = "m_bytes_transferred op + r" and k = "word_of_int r"]
  have fn: "in_flight ?n" by simp
  from c err r have op': "op' = ?n"
    and eff: "eff = (if fst (get_iov_span ?b) = None then Resume (m_awaiting_coroutine ?n) else submit (try_start fd ?n) ?n)"
    by (auto simp: update_stream_def Let_def split: if_splits)
  have "\<exists>es. submit (try_start fd ?n) ?n = Submit es"
    using fn submit_submittable [of ?n] by (auto simp: in_flight_def)
  with fn op' eff show "in_flight op' \<and> m_buffers op' = commit (word_of_int r) (m_buffers op) \<and>
      m_bytes_transferred op' = m_bytes_transferred op + r \<and> m_res op' = r \<and>
      (if buffer_done (m_buffers op') then (\<exists>h. eff = Resume h) else (\<exists>es. eff = Submit es))"
    by (simp add: buffer_done_def)
next
  fix op r op' eff
  assume "in_flight op" and "r \<le> 0" and "update_stream try_start fd (set_value r 0 op) = (op', eff)"
  then show "(\<exists>h. eff = Resume h) \<and> m_bytes_transferred op' = m_bytes_transferred op \<and> m_res op' = r \<and>
      get_error_code op' = (if r < 0 then system_code (- r) else get_error_code op)"
    by (cases "r = 0") (auto simp: update_stream_def in_flight_def get_error_set_value)
next
  fix op r op' eff
  assume "update_stream try_start fd (set_value r 0 op) = (op', eff)"
  then show "op_policy op' = op_policy op \<and> mp_error op' = mp_error op"
    by (auto simp: update_stream_def Let_def split: if_splits)
qed

interpretation recv_all: stream_completion "recv_complete False fd" for fd
  using update_stream_completion [of recv_try_start fd]
  by (simp add: recv_complete_def [abs_def] on_recv_completed_def recv_update_stream)

interpretation send_all: stream_completion "send_complete fd" for fd
  using update_stream_completion [of send_try_start fd]
  by (simp add: send_complete_def [abs_def] on_send_completed_def send_update_stream)

lemma stream_new_simps [simp]:
  "m_buffers (stream_operation_new s d e args a) = buffer_sequence_base args"
  "m_bytes_transferred (stream_operation_new s d e args a) = 0"
  "op_policy (stream_operation_new s d e args a) = api_policy d e"
  "mp_error (stream_operation_new s d e args a) = Some (if e = None then Own_error else Caller_error)"
  "get_error_code (stream_operation_new s d e args a) = (case e of None \<Rightarrow> no_error | Some c \<Rightarrow> c)"
  by (simp_all add: stream_operation_new_def Let_def async_operation.defs get_error_code_def
      api_operation_def async_operation_new_def api_policy_def error_code_storage_ptr_def
      split: option.split)

lemma msghdr_new [simp]:
  "m_msghdr (stream_operation_new s d e args a) =
    \<lparr> msg_iov = get_iov_ptr (buffer_sequence_base args), msg_iovlen = get_iov_cnt (buffer_sequence_base args), msg_flags = 0 \<rparr>"
  by (simp add: stream_operation_new_def Let_def async_operation.defs)

lemma in_flight_new:
  assumes "list_all (\<lambda>s. size_bytes s \<noteq> 0) args" and "length args < 2 ^ 64"
    and "case e of None \<Rightarrow> True | Some c \<Rightarrow> \<not> ec_set c"
  shows "in_flight (stream_operation_new (Some s) d e args a)"
proof -
  have "submittable (stream_operation_new (Some s) d e args a)"
    by (simp add: submittable_def stream_operation_new_def Let_def async_operation.defs
        api_operation_def async_operation_new_def api_policy_def)
  moreover have "(msg_iov (m_msghdr (stream_operation_new (Some s) d e args a)),
      msg_iovlen (m_msghdr (stream_operation_new (Some s) d e args a))) =
    get_iov_span (buffer_sequence_base args)"
    by (simp add: stream_operation_new_def Let_def async_operation.defs get_iov_span_eq)
  moreover have "length (m_sequence (buffer_sequence_base args)) = length args"
    by (simp add: buffer_sequence_base_def buffer_sequence_storage_def)
  ultimately show ?thesis
    using assms buffer_ok_base [OF assms(1)]
    by (auto simp: in_flight_def split: option.splits)
qed

section \<open>Properties\<close>

definition args_ok :: "span list \<Rightarrow> bool" where
  "args_ok args \<longleftrightarrow> args \<noteq> [] \<and> list_all (\<lambda>s. size_bytes s \<noteq> 0) args \<and>
    (\<Sum>s\<leftarrow>args. unat (size_bytes s)) < 2 ^ 31"

definition clear_error :: "error_code option \<Rightarrow> bool" where
  "clear_error e \<longleftrightarrow> (case e of None \<Rightarrow> True | Some c \<Rightarrow> \<not> ec_set c)"

lemma length_le_bytes:
  "list_all (\<lambda>s. size_bytes s \<noteq> 0) args \<Longrightarrow> length args \<le> (\<Sum>s\<leftarrow>args. unat (size_bytes s))"
proof (induction args)
  case (Cons s args)
  then have "0 < unat (size_bytes s)" by (simp add: unat_gt_0)
  with Cons show ?case by simp
qed simp

lemma args_ok_new:
  assumes "args_ok args" and "clear_error e"
  shows "in_flight (stream_operation_new (Some s) d e args a)"
    and "pending (buffer_sequence_base args) \<noteq> []"
    and "length (pending (buffer_sequence_base args)) < 2 ^ 31"
proof -
  from assms(1) have "length args < 2 ^ 64" and "0 < length args"
    and le: "length args \<le> length (pending (buffer_sequence_base args))"
    using length_le_bytes [of args] by (auto simp: args_ok_def length_pending_base)
  then show "pending (buffer_sequence_base args) \<noteq> []" by auto
  from assms \<open>length args < 2 ^ 64\<close> show "in_flight (stream_operation_new (Some s) d e args a)"
    by (intro in_flight_new) (auto simp: args_ok_def clear_error_def)
  from assms(1) show "length (pending (buffer_sequence_base args)) < 2 ^ 31"
    by (simp add: args_ok_def length_pending_base)
qed

lemma word_of_moved: "(word_of_int (int n) :: size_t) = of_nat n"
  by simp

text \<open>
  C1: \<open>recv\<close> fills its buffers, in order, or says why not. For any buffers without an empty one
  and any series of kernel completions, the bytes received are stored at the first addresses
  of the buffers, each once and in order; once the buffers are full the operation resumes and
  returns their size without an error; if the stream ends or a transfer fails first, it
  resumes with the end-of-file code or the system's code, as an exception or, with an error
  code argument, together with the number of bytes received so far; otherwise it is waiting.
\<close>

theorem recv_fills_buffers:
  assumes "args_ok args" and "clear_error e"
    and "kernel_moves (length (pending (buffer_sequence_base args))) rs"
    and "drive (recv_complete False fd) rs (fst (recv (Some s) d e args a)) = (op, resumed, moved)"
  shows "moved = take (total_moved rs) (pending (buffer_sequence_base args)) \<and>
    (if total_moved rs = length (pending (buffer_sequence_base args))
     then resumed \<and> recv_get_result op = (op, Inr (of_nat (total_moved rs))) \<and> \<not> ec_set (get_error_code op)
     else case stop_result rs of None \<Rightarrow> \<not> resumed
       | Some r \<Rightarrow> resumed \<and>
          (let code = if r = 0 then make_error_code Eof else system_code (- r); (op', result) = recv_get_result op in
           get_error_code op' = code \<and>
           result = (if e = None then Inl (System_error code) else Inr (of_nat (total_moved rs)))))"
proof -
  note new = args_ok_new(1) [OF assms(1,2), of s d a] args_ok_new(2,3) [OF assms(1,2)]
  have d: "drive (recv_complete False fd) rs (stream_operation_new (Some s) d e args a) = (op, resumed, moved)"
    using assms(4) by (simp add: recv_def async_recvmsg_def)
  have pol: "op_policy op = api_policy d e" "mp_error op \<noteq> None"
    using recv_all.drive_policy [OF d] by auto
  from kernel_moves_0 [of rs] assms(3)
  have *: "stop_result rs = Some r \<Longrightarrow> r \<le> 0" for r
    by (auto simp: stop_result_def find_Some_iff)
  note run = recv_all.drive_moves [OF new(1) _ _ _ d, simplified, OF new(2) new(3) [simplified] assms(3)]
  show ?thesis
  proof (cases "total_moved rs = length (pending (buffer_sequence_base args)) \<or> stop_result rs = None")
    case True
    with run pol show ?thesis
      by (auto simp: recv_get_result_def api_policy_def word_of_moved Let_def)
  next
    case False
    then obtain r where r: "stop_result rs = Some r" by auto
    with False run pol * [OF r] show ?thesis
      by (cases "r = 0") (simp_all add: recv_get_result_def api_policy_def word_of_moved Let_def)
  qed
qed

text \<open>
  C7: \<open>send\<close> sends its buffers, in order: the bytes sent are the bytes at the first addresses of
  the buffers, each once and in order, whatever the sizes of the partial transfers; once all
  are sent the operation resumes and returns their number; a failing transfer is reported
  with its system code.
\<close>

theorem send_sends_buffers:
  assumes "args_ok args" and "clear_error e"
    and "kernel_moves (length (pending (buffer_sequence_base args))) rs"
    and "drive (send_complete fd) rs (send (Some s) d e args a) = (op, resumed, moved)"
  shows "moved = take (total_moved rs) (pending (buffer_sequence_base args)) \<and>
    (if total_moved rs = length (pending (buffer_sequence_base args))
     then resumed \<and> send_get_result op = Inr (of_nat (total_moved rs)) \<and> \<not> ec_set (get_error_code op)
     else case stop_result rs of None \<Rightarrow> \<not> resumed
       | Some r \<Rightarrow> resumed \<and>
          (if r < 0 then get_error_code op = system_code (- r) \<and>
             send_get_result op = (if e = None then Inl (System_error (system_code (- r))) else Inr (of_nat (total_moved rs)))
           else send_get_result op = Inr (of_nat (total_moved rs)) \<and> \<not> ec_set (get_error_code op)))"
proof -
  note new = args_ok_new(1) [OF assms(1,2), of s d a] args_ok_new(2,3) [OF assms(1,2)]
  have d: "drive (send_complete fd) rs (stream_operation_new (Some s) d e args a) = (op, resumed, moved)"
    using assms(4) by (simp add: send_def async_sendmsg_def)
  have "op_policy op = api_policy d e"
    using send_all.drive_policy [OF d] by auto
  with send_all.drive_moves [OF new(1) _ _ _ d] new(2,3) assms(3) show ?thesis
    by (auto simp: send_get_result_def api_policy_def word_of_moved split: option.splits if_splits)
qed

text \<open>
  C34: Progress: neither operation can be kept waiting by small transfers. However the kernel cuts
  the stream, \<open>recv\<close> and \<open>send\<close> have resumed their coroutine after at most as many completions
  as the buffers have bytes.
\<close>

theorem transfer_terminates:
  assumes "args_ok args" and "clear_error e"
    and "kernel_moves (length (pending (buffer_sequence_base args))) rs"
    and "length (pending (buffer_sequence_base args)) \<le> length rs"
  shows "fst (snd (drive (recv_complete False fd) rs (fst (recv (Some s) d e args a)))) \<and>
    fst (snd (drive (send_complete fd) rs (send (Some s) d e args a)))"
  using recv_all.drive_resumes [OF args_ok_new(1) [OF assms(1,2)]]
    send_all.drive_resumes [OF args_ok_new(1) [OF assms(1,2)]]
    args_ok_new(2,3) [OF assms(1,2)] assms(3,4)
  by (simp add: recv_def async_recvmsg_def send_def async_sendmsg_def)

definition two_spans :: "span list" where
  "two_spans = [\<lparr> sp_data = 100, sp_size = 3, sp_elem = 1 \<rparr>, \<lparr> sp_data = 200, sp_size = 5, sp_elem = 1 \<rparr>]"

lemma two_spans_ok [simp]:
  "args_ok two_spans" "clear_error (Some no_error)" "clear_error None"
  "length (pending (buffer_sequence_base two_spans)) = 8"
  by (simp_all add: args_ok_def clear_error_def two_spans_def size_bytes_def length_pending_base)

theorem recv_fills_buffers_witness:
  "\<exists>op moved. drive (recv_complete False 7) [2, 4, 0] (fst (recv (Some 1) None (Some no_error) two_spans 64))
      = (op, True, moved) \<and>
    moved = take 6 (pending (buffer_sequence_base two_spans)) \<and>
    get_error_code (fst (recv_get_result op)) = make_error_code Eof \<and>
    snd (recv_get_result op) = Inr 6"
proof -
  obtain op resumed moved where
    d: "drive (recv_complete False 7) [2, 4, 0] (fst (recv (Some 1) None (Some no_error) two_spans 64))
      = (op, resumed, moved)"
    by (metis prod_cases3)
  with recv_fills_buffers [OF two_spans_ok(1,2) _ d] show ?thesis by auto
qed

theorem send_sends_buffers_witness:
  "\<exists>op moved. drive (send_complete 7) [2, 6] (send (Some 1) None None two_spans 64) = (op, True, moved) \<and>
    moved = pending (buffer_sequence_base two_spans) \<and> send_get_result op = Inr 8"
proof -
  obtain op resumed moved where
    d: "drive (send_complete 7) [2, 6] (send (Some 1) None None two_spans 64) = (op, resumed, moved)"
    by (metis prod_cases3)
  with send_sends_buffers [OF two_spans_ok(1,3) _ d] show ?thesis by auto
qed

theorem transfer_terminates_witness:
  "fst (snd (drive (recv_complete False 7) [1, 1, 1, 1, 1, 1, 1, 1] (fst (recv (Some 1) None None two_spans 64))))"
  using transfer_terminates [OF two_spans_ok(1,3), of "[1, 1, 1, 1, 1, 1, 1, 1]" 7 1 None 64] by simp

text \<open>
  An error code that is still set from an earlier operation is not cleared, contrary to the
  documentation, and makes \<open>recv\<close> lose data: the first successful transfer has stored its bytes
  in the buffers, but the operation resumes at once, returns 0 bytes, and leaves the old code
  in place.
\<close>

theorem recv_stale_error_loses_data:
  assumes "args_ok args" and "ec_set c"
    and "0 < r" and "r \<le> int (length (pending (buffer_sequence_base args)))"
  shows "let (op, resumed, moved) = drive (recv_complete False fd) (r # rs) (fst (recv (Some s) d (Some c) args a)) in
    resumed \<and> moved = take (nat r) (pending (buffer_sequence_base args)) \<and>
    recv_get_result op = (op, Inr 0) \<and> get_error_code op = c"
proof -
  let ?op = "stream_operation_new (Some s) d (Some c) args a"
  let ?o = "set_value r 0 ?op"
  have err: "get_error_code ?o = c"
    using assms(3) by (simp add: get_error_set_value)
  have addrs: "msg_addrs ?op = pending (buffer_sequence_base args)"
    using in_flight_addrs [OF args_ok_new(1) [OF assms(1), of "None" s d a]]
    by (simp add: clear_error_def msg_addrs_def cong: option.case_cong)
  from assms err addrs show ?thesis
    by (simp add: recv_def async_recvmsg_def Let_def recv_complete_def on_recv_completed_def
        recv_update_result_def recv_get_result_def api_policy_def)
qed

theorem recv_stale_error_loses_data_witness:
  "let (op, resumed, moved) = drive (recv_complete False 7) [4]
      (fst (recv (Some 1) None (Some (make_error_code Eof)) two_spans 64)) in
    resumed \<and> length moved = 4 \<and> recv_get_result op = (op, Inr 0) \<and> get_error_code op = make_error_code Eof"
  using recv_stale_error_loses_data [OF two_spans_ok(1), of "make_error_code Eof" 4 7 "[]" 1 None 64]
  by (auto simp: Let_def split: prod.splits)

text \<open>
  \<open>recv_some\<close> makes exactly one transfer: it resumes on the first completion, whatever it is,
  having transferred that many bytes, and reports 0 as the end of the stream and a negative
  result as the system's code.
\<close>

theorem recv_some_single_transfer:
  assumes "clear_error e"
  shows "let (op, resumed, moved) = drive (recv_complete True fd) (r # rs) (fst (recv_some (Some s) d e args a));
      code = (if r = 0 then make_error_code Eof else if r < 0 then system_code (- r) else get_error_code op);
      (op', result) = recv_get_result op in
    resumed \<and> get_error_code op' = code \<and> (0 < r \<longrightarrow> \<not> ec_set code) \<and>
    result = (if r \<le> 0 \<and> e = None then Inl (System_error code) else Inr (word_of_int (max r 0)))"
  using assms
  by (auto simp: recv_some_def async_recvmsg_def Let_def recv_complete_def on_recv_completed_def
      on_operation_completed_def recv_get_result_def get_error_set_value api_policy_def max_def
      clear_error_def split: option.splits)

theorem recv_some_single_transfer_witness:
  "let (op, resumed, moved) = drive (recv_complete True 7) [3] (fst (recv_some (Some 1) None None two_spans 64)) in
    resumed \<and> snd (recv_get_result op) = Inr 3"
  using recv_some_single_transfer [OF two_spans_ok(3), of 7 3 "[]" 1 None two_spans 64]
  by (auto simp: Let_def split: prod.splits)

end
