(* ===== verification/Socket_Sync.thy ===== *)
theory Socket_Sync
  imports Descriptor
begin

text \<open>
  Socket addresses and the synchronous socket operations (\<open>detail/endian.h\<close>,
  \<open>socket/impl/address.h\<close>, \<open>socket_init.h\<close>, \<open>setsockopt.h\<close>, \<open>listen.h\<close>, \<open>bind.h\<close>,
  \<open>shutdown.h\<close>, \<open>socket/socket.h\<close>). The \<open>sin_zero\<close> padding of \<open>sockaddr_in\<close> is left out: no
  operation reads it. \<open>inet_pton\<close>, \<open>inet_ntop\<close> and \<open>snprintf\<close> are the C library's and are
  written out for the one use made of them.
\<close>

section \<open>Byte order\<close>

definition htons :: "u16 \<Rightarrow> u16" where
  "htons x = push_bit 8 x OR drop_bit 8 x"

definition htonl :: "u32 \<Rightarrow> u32" where
  "htonl x = push_bit 24 x OR (push_bit 8 x AND 0xFF0000) OR (drop_bit 8 x AND 0xFF00) OR drop_bit 24 x"

definition host_to_network_u32 :: "u32 \<Rightarrow> u32" where
  "host_to_network_u32 host = htonl host"

definition host_to_network_u16 :: "u16 \<Rightarrow> u16" where
  "host_to_network_u16 host = htons host"

definition network_to_host_u16 :: "u16 \<Rightarrow> u16" where
  "network_to_host_u16 net = htons net"

lemma htons_htons [simp]: "htons (htons x) = x"
  by (rule bit_word_eqI) (auto simp: htons_def bit_push_bit_iff bit_drop_bit_eq bit_or_iff dest: bit_imp_le_length)

lemma htons_eq_iff [simp]: "htons x = htons y \<longleftrightarrow> x = y"
  by (metis htons_htons)

section \<open>Textual addresses\<close>

text \<open>
  \<open>inet_pton\<close> for IPv4: four decimal octets without leading zeros, separated by dots. The scan
  keeps the octets finished so far, the current one, whether a digit of it was seen, and the
  number of octets begun.
\<close>

fun inet_pton4 :: "string \<Rightarrow> nat list \<Rightarrow> nat \<Rightarrow> bool \<Rightarrow> nat \<Rightarrow> nat list option" where
  "inet_pton4 [] done cur saw_digit octets = (if octets < 4 then None else Some (done @ [cur]))"
| "inet_pton4 (ch # src) done cur saw_digit octets =
    (if 48 \<le> (of_char ch :: nat) \<and> (of_char ch :: nat) \<le> 57 then
       (let new = cur * 10 + (of_char ch - 48) in
        if saw_digit \<and> cur = 0 then None
        else if new > 255 then None
        else if \<not> saw_digit then
          (if octets + 1 > 4 then None else inet_pton4 src done new True (octets + 1))
        else inet_pton4 src done new True octets)
     else if ch = CHR ''.'' \<and> saw_digit then
       (if octets = 4 then None else inet_pton4 src (done @ [cur]) 0 False octets)
     else None)"

text \<open>An \<open>in_addr\<close> holds the octets in memory order, read as a little-endian integer.\<close>

definition octets_to_addr :: "nat list \<Rightarrow> u32" where
  "octets_to_addr bs = of_nat (foldr (\<lambda>b n. b + 256 * n) bs 0)"

definition addr_octets :: "u32 \<Rightarrow> nat list" where
  "addr_octets a = (let n = unat a in [n mod 256, n div 256 mod 256, n div 65536 mod 256, n div 16777216])"

definition ip_str_to_in_addr :: "string \<Rightarrow> u32" where
  "ip_str_to_in_addr str =
    (case inet_pton4 str [] 0 False 0 of Some bs \<Rightarrow> octets_to_addr bs | None \<Rightarrow> 0)"

fun dec :: "nat \<Rightarrow> string" where
  "dec n = (if n < 10 then [char_of (48 + n)] else dec (n div 10) @ [char_of (48 + n mod 10)])"

declare dec.simps [simp del]

definition inet_ntop :: "u32 \<Rightarrow> string" where
  "inet_ntop a = (case map dec (addr_octets a) of
      [s1, s2, s3, s4] \<Rightarrow> s1 @ ''.'' @ s2 @ ''.'' @ s3 @ ''.'' @ s4 | _ \<Rightarrow> [])"

text \<open>\<open>snprintf\<close> writes at most \<open>n - 1\<close> characters.\<close>

definition sockaddr_in_to_c_str :: "nat \<Rightarrow> sockaddr_in \<Rightarrow> string" where
  "sockaddr_in_to_c_str n addr =
    (let host = inet_ntop (s_addr addr); port = network_to_host_u16 (sin_port addr) in
     take (n - 1) (host @ '':'' @ dec (unat port)))"

section \<open>Socket addresses\<close>

definition AF_INET :: u16 where "AF_INET = 2"
definition INADDR_ANY :: u32 where "INADDR_ANY = 0"

definition zero_sockaddr :: sockaddr_in where
  "zero_sockaddr = \<lparr> sin_family = 0, sin_port = 0, s_addr = 0 \<rparr>"

definition socket_address_default :: sockaddr_in where
  "socket_address_default = \<lparr> sin_family = AF_INET, sin_port = 0, s_addr = 0 \<rparr>"

definition socket_address_port :: "u16 \<Rightarrow> sockaddr_in" where
  "socket_address_port port =
    \<lparr> sin_family = AF_INET, sin_port = host_to_network_u16 port,
      s_addr = host_to_network_u32 INADDR_ANY \<rparr>"

definition socket_address_of :: "sockaddr_in \<Rightarrow> sockaddr_in" where
  "socket_address_of addr = addr"

definition socket_address_ip :: "string \<Rightarrow> u16 \<Rightarrow> sockaddr_in" where
  "socket_address_ip ip port =
    \<lparr> sin_family = AF_INET, sin_port = host_to_network_u16 port, s_addr = ip_str_to_in_addr ip \<rparr>"

text \<open>The move constructor and the move assignment: the target, and the zeroed source.\<close>

definition socket_address_move :: "sockaddr_in \<Rightarrow> sockaddr_in \<times> sockaddr_in" where
  "socket_address_move other = (other, zero_sockaddr)"

definition socket_address_move_assign :: "sockaddr_in \<Rightarrow> sockaddr_in \<Rightarrow> sockaddr_in \<times> sockaddr_in" where
  "socket_address_move_assign this other = (other, zero_sockaddr)"

definition to_str :: "sockaddr_in \<Rightarrow> string" where
  "to_str a = sockaddr_in_to_c_str 32 a"

definition port :: "sockaddr_in \<Rightarrow> u16" where
  "port a = htons (sin_port a)"

datatype strong_ordering = Less | Equal | Greater

definition cmp :: "'a::linorder \<Rightarrow> 'a \<Rightarrow> strong_ordering" where
  "cmp a b = (if a < b then Less else if a = b then Equal else Greater)"

text \<open>\<open>operator<=>\<close> also compares the addresses \<open>this\<close> and \<open>rhs\<close> of the two objects.\<close>

definition socket_address_compare :: "addr \<Rightarrow> addr \<Rightarrow> sockaddr_in \<Rightarrow> sockaddr_in \<Rightarrow> strong_ordering" where
  "socket_address_compare this rhs a b =
    (if cmp this rhs = Equal then cmp this rhs
     else if cmp (s_addr a) (s_addr b) = Equal then cmp (s_addr a) (s_addr b)
     else cmp (sin_port a) (sin_port b))"

text \<open>
  The comparison of two distinct address objects answers "equal" whenever the IP addresses
  agree, whatever the ports, and otherwise orders them by the stored (network order) port
  alone: two different endpoints on one host compare equal, and so do two different hosts with
  the same port.
\<close>

theorem socket_address_compare_defect:
  "(\<forall>this rhs a b. socket_address_compare this rhs a b =
      (if this = rhs \<or> s_addr a = s_addr b then Equal else cmp (sin_port a) (sin_port b)))
   \<and> socket_address_compare 0 16 (socket_address_ip ''127.0.0.1'' 80) (socket_address_ip ''127.0.0.1'' 443) = Equal
   \<and> socket_address_ip ''127.0.0.1'' 80 \<noteq> socket_address_ip ''127.0.0.1'' 443
   \<and> socket_address_compare 0 16 (socket_address_ip ''10.0.0.1'' 80) (socket_address_ip ''10.0.0.2'' 80) = Equal
   \<and> socket_address_ip ''10.0.0.1'' 80 \<noteq> socket_address_ip ''10.0.0.2'' 80"
proof -
  have *: "socket_address_compare this rhs a b =
      (if this = rhs \<or> s_addr a = s_addr b then Equal else cmp (sin_port a) (sin_port b))"
    for this rhs a b
    by (simp add: socket_address_compare_def cmp_def)
  have "s_addr (socket_address_ip ''10.0.0.1'' 80) \<noteq> s_addr (socket_address_ip ''10.0.0.2'' 80)"
    by (simp add: socket_address_ip_def ip_str_to_in_addr_def octets_to_addr_def)
  moreover have "sin_port (socket_address_ip ''127.0.0.1'' 80) \<noteq> sin_port (socket_address_ip ''127.0.0.1'' 443)"
    by (simp add: socket_address_ip_def host_to_network_u16_def)
  ultimately show ?thesis
    by (auto simp: * cmp_def) (simp_all add: socket_address_ip_def)
qed

section \<open>Addresses and text\<close>

definition digit_char :: "nat \<Rightarrow> char" where
  "digit_char d = char_of (48 + d)"

lemma of_digit_char [simp]: "d < 10 \<Longrightarrow> (of_char (digit_char d) :: nat) = 48 + d"
  by (simp add: digit_char_def)

lemma dec_small: "n < 10 \<Longrightarrow> dec n = [digit_char n]"
  by (simp add: dec.simps digit_char_def)

lemma dec_big: "10 \<le> n \<Longrightarrow> dec n = dec (n div 10) @ [digit_char (n mod 10)]"
  by (simp add: dec.simps [of n] digit_char_def)

lemma dec_digits:
  "n < 10 \<Longrightarrow> dec n = [digit_char n]"
  "10 \<le> n \<Longrightarrow> n < 100 \<Longrightarrow> dec n = [digit_char (n div 10), digit_char (n mod 10)]"
  "100 \<le> n \<Longrightarrow> n < 1000 \<Longrightarrow>
    dec n = [digit_char (n div 100), digit_char (n div 10 mod 10), digit_char (n mod 10)]"
  by (auto simp: dec_small dec_big [of n] dec_big [of "n div 10"] div_mult2_eq [of n 10 10, simplified]
      less_mult_imp_div_less)

lemma length_dec: "n < 10 ^ Suc k \<Longrightarrow> length (dec n) \<le> Suc k"
proof (induction k arbitrary: n)
  case 0
  then show ?case by (simp add: dec.simps)
next
  case (Suc k)
  then have "n div 10 < 10 ^ Suc k" by (simp add: less_mult_imp_div_less)
  from Suc.IH [OF this] show ?case by (simp add: dec.simps [of n])
qed

lemma inet_pton4_digit:
  "d < 10 \<Longrightarrow> cur * 10 + d \<le> 255 \<Longrightarrow> (saw \<longrightarrow> cur \<noteq> 0) \<Longrightarrow> (saw \<or> octets < 4) \<Longrightarrow>
    inet_pton4 (digit_char d # src) acc cur saw octets =
    inet_pton4 src acc (cur * 10 + d) True (if saw then octets else octets + 1)"
  by (auto simp: Let_def)

lemma inet_pton4_dec:
  assumes "n < 256" "octets < 4"
  shows "inet_pton4 (dec n @ src) acc 0 False octets = inet_pton4 src acc n True (octets + 1)"
proof -
  consider "n < 10" | "10 \<le> n" "n < 100" | "100 \<le> n" by linarith
  then show ?thesis
  proof cases
    case 1
    with assms show ?thesis by (simp add: dec_digits inet_pton4_digit del: inet_pton4.simps)
  next
    case 2
    then have "n div 10 < 10" "n div 10 \<noteq> 0" "n div 10 * 10 + n mod 10 = n" by auto
    with assms 2 show ?thesis
      by (simp add: dec_digits inet_pton4_digit del: inet_pton4.simps)
  next
    case 3
    with assms have *: "n div 100 < 10" "n div 100 \<noteq> 0" "n div 10 \<noteq> 0" "n < 1000"
      "n div 100 * 10 + n div 10 mod 10 = n div 10" "n div 10 * 10 + n mod 10 = n"
      "n div 10 \<le> 255"
      by (simp_all add: div_mult2_eq [of n 10 10, simplified])
    with assms 3 show ?thesis
      by (simp add: dec_digits inet_pton4_digit del: inet_pton4.simps)
  qed
qed

lemma inet_pton4_dot:
  "octets \<noteq> 4 \<Longrightarrow>
    inet_pton4 (CHR ''.'' # src) acc cur True octets = inet_pton4 src (acc @ [cur]) 0 False octets"
  by simp

definition dotted :: "nat \<Rightarrow> nat \<Rightarrow> nat \<Rightarrow> nat \<Rightarrow> string" where
  "dotted a b c d = dec a @ ''.'' @ dec b @ ''.'' @ dec c @ ''.'' @ dec d"

lemma length_to_str: "length (to_str a) \<le> 21"
proof -
  have o: "length (dec n) \<le> 3" if "n < 256" for n
    using length_dec [of n 2] that by simp
  have q: "unat (s_addr a) div 16777216 < 256"
    using unsigned_less [of "s_addr a", where 'a = nat] by (simp add: less_mult_imp_div_less)
  have "length (dec (unat x)) \<le> 5" for x :: u16
    using length_dec [of "unat x" 4] unsigned_less [of x, where 'a = nat] by simp
  from this [of "network_to_host_u16 (sin_port a)"] o [OF q] o [of "unat (s_addr a) mod 256"]
    o [of "unat (s_addr a) div 256 mod 256"] o [of "unat (s_addr a) div 65536 mod 256"]
  have "length (inet_ntop (s_addr a) @ '':'' @ dec (unat (network_to_host_u16 (sin_port a)))) \<le> 21"
    by (simp add: inet_ntop_def addr_octets_def Let_def)
  then show ?thesis
    unfolding to_str_def sockaddr_in_to_c_str_def Let_def length_take by linarith
qed

lemma inet_pton4_dotted:
  assumes "a < 256" "b < 256" "c < 256" "d < 256"
  shows "inet_pton4 (dotted a b c d) [] 0 False 0 = Some [a, b, c, d]"
  using assms inet_pton4_dec [of d 3 "[]" "[a, b, c]"]
  by (simp add: dotted_def inet_pton4_dec inet_pton4_dot numeral_eq_Suc del: inet_pton4.simps(2))

lemma addr_octets_octets:
  assumes "a < 256" "b < 256" "c < 256" "d < 256"
  shows "addr_octets (octets_to_addr [a, b, c, d]) = [a, b, c, d]"
proof -
  let ?n = "a + 256 * (b + 256 * (c + 256 * d))"
  have "?n < 2 ^ 32" using assms by simp
  then have "unat (octets_to_addr [a, b, c, d]) = ?n"
    unfolding octets_to_addr_def unsigned_of_nat
    by (simp add: take_bit_nat_eq_self del: of_nat_add of_nat_mult)
  moreover have "?n mod 256 = a" using assms by (simp only: mod_mult_self2 mod_less)
  moreover have "(b + 256 * (c + 256 * d)) mod 256 = b" using assms by (simp only: mod_mult_self2 mod_less)
  moreover have "?n div 256 = b + 256 * (c + 256 * d)"
    "?n div 65536 = c + 256 * d" "?n div 16777216 = d"
    using assms by simp_all
  ultimately show ?thesis using assms by (simp add: addr_octets_def Let_def)
qed

text \<open>
  An address built from a dotted quad and a port prints as that quad and that port, without
  being cut by the 32-byte buffer, and gives the port back; an address whose text is not a
  dotted quad is silently \<open>0.0.0.0\<close>.
\<close>

theorem socket_address_roundtrip:
  assumes "a < 256" "b < 256" "c < 256" "d < 256"
  shows "to_str (socket_address_ip (dotted a b c d) p) = dotted a b c d @ '':'' @ dec (unat p)
    \<and> port (socket_address_ip (dotted a b c d) p) = p
    \<and> (inet_pton4 s [] 0 False 0 = None \<longrightarrow> socket_address_ip s p = socket_address_port p)"
proof -
  let ?s = "dotted a b c d @ '':'' @ dec (unat p)"
  have "unat p < 10 ^ Suc 4" using unsigned_less [of p, where 'a = nat] by simp
  then have "length ?s \<le> 31"
    using assms length_dec [of a 2] length_dec [of b 2] length_dec [of c 2] length_dec [of d 2]
      length_dec [of "unat p" 4]
    by (simp add: dotted_def)
  then have cut: "take 31 ?s = ?s" by (rule take_all)
  from assms have "inet_ntop (ip_str_to_in_addr (dotted a b c d)) = dotted a b c d"
    by (simp add: inet_ntop_def ip_str_to_in_addr_def inet_pton4_dotted addr_octets_octets)
      (simp add: dotted_def)
  then have "to_str (socket_address_ip (dotted a b c d) p) = take 31 ?s"
    by (simp add: to_str_def sockaddr_in_to_c_str_def socket_address_ip_def
        network_to_host_u16_def host_to_network_u16_def Let_def)
  with cut show ?thesis
    by (simp add: socket_address_ip_def port_def socket_address_port_def ip_str_to_in_addr_def
        host_to_network_u16_def host_to_network_u32_def INADDR_ANY_def htonl_def del: take_append)
qed

theorem socket_address_roundtrip_witness:
  "to_str (socket_address_ip (dotted 127 0 0 1) 25565) = dotted 127 0 0 1 @ '':'' @ dec (unat (25565 :: u16))
   \<and> socket_address_ip ''256.0.0.1'' 80 = socket_address_port 80"
  using socket_address_roundtrip [of 127 0 0 1 25565 "''''"]
    socket_address_roundtrip [of 127 0 0 1 80 "''256.0.0.1''"]
  by simp

section \<open>Sockets\<close>

text \<open>\<open>socket_t\<close>: the descriptor with the \<open>address\<close> module's two members, and its modules.\<close>

record socket_t = file_descriptor_base +
  m_local_address :: sockaddr_in
  m_peer_address :: sockaddr_in

definition socket_t_modules :: "module_template list" where
  "socket_t_modules = map (\<lambda>n. \<lparr> mt_name = n, mt_bound = [] \<rparr>)
    [''socket_init'', ''address'', ''operation_shutdown'', ''operation_set_options'',
     ''operation_bind'', ''operation_listen'', ''operation_accept'', ''operation_connect'',
     ''operation_send'', ''operation_recv'', ''operation_close'']"

definition set_local_address :: "sockaddr_in \<Rightarrow> socket_t \<Rightarrow> socket_t" where
  "set_local_address a f = f\<lparr>m_local_address := a\<rparr>"

definition set_peer_address :: "sockaddr_in \<Rightarrow> socket_t \<Rightarrow> socket_t" where
  "set_peer_address a f = f\<lparr>m_peer_address := a\<rparr>"

definition get_local_address :: "socket_t \<Rightarrow> sockaddr_in" where
  "get_local_address f = m_local_address f"

definition get_peer_address :: "socket_t \<Rightarrow> sockaddr_in" where
  "get_peer_address f = m_peer_address f"

definition socket_new :: socket_t where
  "socket_new = \<lparr> m_fd = -1, m_local_address = socket_address_default,
    m_peer_address = socket_address_default \<rparr>"

text \<open>Values of the platform headers.\<close>

definition SOCK_STREAM :: int where "SOCK_STREAM = 1"
definition IPPROTO_IP :: int where "IPPROTO_IP = 0"
definition SOL_SOCKET :: int where "SOL_SOCKET = 1"
definition SO_REUSEADDR :: int where "SO_REUSEADDR = 2"
definition SOMAXCONN :: int where "SOMAXCONN = 4096"
definition SHUT_WR :: int where "SHUT_WR = 1"

definition socket_call :: syscall where
  "socket_call = Sys_socket (uint AF_INET) SOCK_STREAM IPPROTO_IP"

definition init_ec :: "kernel \<Rightarrow> socket_t \<Rightarrow> trace \<Rightarrow> socket_t \<times> error_code \<times> trace" where
  "init_ec k f tr =
    (let fd = fd_get f;
         tr = (if fd \<noteq> -1 then tr @ [Sys_close fd] else tr)
     in sync_operation k socket_call (\<lambda>fd f tr. (fd_set fd f, tr)) f tr)"

definition init_throw :: "kernel \<Rightarrow> socket_t \<Rightarrow> trace \<Rightarrow> socket_t \<times> (cpp_exn + unit) \<times> trace" where
  "init_throw k f tr = throwing (init_ec k) f tr"

definition setsockopt_ec ::
  "kernel \<Rightarrow> int \<Rightarrow> int \<Rightarrow> u8 list \<Rightarrow> socket_t \<Rightarrow> trace \<Rightarrow> socket_t \<times> error_code \<times> trace" where
  "setsockopt_ec k level optname optval f tr =
    sync_operation k (Sys_setsockopt (fd_get f) level optname optval) ignore_ret f tr"

definition setsockopt_throw ::
  "kernel \<Rightarrow> int \<Rightarrow> int \<Rightarrow> u8 list \<Rightarrow> socket_t \<Rightarrow> trace \<Rightarrow> socket_t \<times> (cpp_exn + unit) \<times> trace" where
  "setsockopt_throw k level optname optval f tr = throwing (setsockopt_ec k level optname optval) f tr"

text \<open>\<open>int optval = 1\<close> as it lies in memory.\<close>

definition reuse_address_ec :: "kernel \<Rightarrow> socket_t \<Rightarrow> trace \<Rightarrow> socket_t \<times> error_code \<times> trace" where
  "reuse_address_ec k f tr = setsockopt_ec k SOL_SOCKET SO_REUSEADDR [1, 0, 0, 0] f tr"

definition reuse_address_throw :: "kernel \<Rightarrow> socket_t \<Rightarrow> trace \<Rightarrow> socket_t \<times> (cpp_exn + unit) \<times> trace" where
  "reuse_address_throw k f tr = setsockopt_throw k SOL_SOCKET SO_REUSEADDR [1, 0, 0, 0] f tr"

definition listen_ec :: "kernel \<Rightarrow> int \<Rightarrow> socket_t \<Rightarrow> trace \<Rightarrow> socket_t \<times> error_code \<times> trace" where
  "listen_ec k backlog f tr = sync_operation k (Sys_listen (fd_get f) backlog) ignore_ret f tr"

definition listen_default_ec :: "kernel \<Rightarrow> socket_t \<Rightarrow> trace \<Rightarrow> socket_t \<times> error_code \<times> trace" where
  "listen_default_ec k f tr = listen_ec k SOMAXCONN f tr"

definition listen_throw :: "kernel \<Rightarrow> int \<Rightarrow> socket_t \<Rightarrow> trace \<Rightarrow> socket_t \<times> (cpp_exn + unit) \<times> trace" where
  "listen_throw k backlog f tr = throwing (listen_ec k backlog) f tr"

definition listen_default_throw :: "kernel \<Rightarrow> socket_t \<Rightarrow> trace \<Rightarrow> socket_t \<times> (cpp_exn + unit) \<times> trace" where
  "listen_default_throw k f tr = listen_throw k SOMAXCONN f tr"

text \<open>
  \<open>bind\<close>: after a bind to port 0 the address the kernel chose is asked for; a failing
  \<open>getsockname\<close> leaves the zero-initialised \<open>addr2\<close>.
\<close>

definition bind_success ::
  "kernel \<Rightarrow> module_template list \<Rightarrow> sockaddr_in \<Rightarrow> int \<Rightarrow> socket_t \<Rightarrow> trace \<Rightarrow> socket_t \<times> trace" where
  "bind_success k Modules addr ret f tr =
    (if file_descriptor_has_module_v Modules ''address'' then
       (if port addr = 0 then
          (let c = Sys_getsockname (fd_get f);
               addr2 = (if sys_ret k c tr \<ge> 0 then k_sockname k tr (fd_get f) else zero_sockaddr)
           in (set_local_address (socket_address_of addr2) f, tr @ [c]))
        else (set_local_address addr f, tr))
     else (f, tr))"

definition bind_ec ::
  "kernel \<Rightarrow> module_template list \<Rightarrow> sockaddr_in \<Rightarrow> socket_t \<Rightarrow> trace \<Rightarrow> socket_t \<times> error_code \<times> trace" where
  "bind_ec k Modules address f tr =
    sync_operation k (Sys_bind (fd_get f) address) (bind_success k Modules address) f tr"

definition bind_throw ::
  "kernel \<Rightarrow> module_template list \<Rightarrow> sockaddr_in \<Rightarrow> socket_t \<Rightarrow> trace \<Rightarrow> socket_t \<times> (cpp_exn + unit) \<times> trace" where
  "bind_throw k Modules address f tr = throwing (bind_ec k Modules address) f tr"

definition shutdown_ec :: "kernel \<Rightarrow> int \<Rightarrow> socket_t \<Rightarrow> trace \<Rightarrow> socket_t \<times> error_code \<times> trace" where
  "shutdown_ec k flags f tr = sync_operation k (Sys_shutdown (fd_get f) flags) ignore_ret f tr"

definition shutdown_throw :: "kernel \<Rightarrow> int \<Rightarrow> socket_t \<Rightarrow> trace \<Rightarrow> socket_t \<times> (cpp_exn + unit) \<times> trace" where
  "shutdown_throw k flags f tr = throwing (shutdown_ec k flags) f tr"

text \<open>\<open>shutdown(error)\<close> calls the throwing overload and does not pass its argument on.\<close>

definition shutdown_default_ec ::
  "kernel \<Rightarrow> error_code \<Rightarrow> socket_t \<Rightarrow> trace \<Rightarrow> (socket_t \<times> (cpp_exn + unit) \<times> trace) \<times> error_code" where
  "shutdown_default_ec k error f tr = (shutdown_throw k SHUT_WR f tr, error)"

section \<open>The contract of the synchronous operations\<close>

datatype sync_op =
    Op_init
  | Op_setsockopt int int "u8 list"
  | Op_reuse_address
  | Op_listen int
  | Op_listen_default
  | Op_bind sockaddr_in
  | Op_shutdown int

primrec run_ec :: "kernel \<Rightarrow> sync_op \<Rightarrow> socket_t \<Rightarrow> trace \<Rightarrow> socket_t \<times> error_code \<times> trace" where
  "run_ec k Op_init = init_ec k"
| "run_ec k (Op_setsockopt level optname optval) = setsockopt_ec k level optname optval"
| "run_ec k Op_reuse_address = reuse_address_ec k"
| "run_ec k (Op_listen backlog) = listen_ec k backlog"
| "run_ec k Op_listen_default = listen_default_ec k"
| "run_ec k (Op_bind address) = bind_ec k socket_t_modules address"
| "run_ec k (Op_shutdown flags) = shutdown_ec k flags"

primrec run_throw :: "kernel \<Rightarrow> sync_op \<Rightarrow> socket_t \<Rightarrow> trace \<Rightarrow> socket_t \<times> (cpp_exn + unit) \<times> trace" where
  "run_throw k Op_init = init_throw k"
| "run_throw k (Op_setsockopt level optname optval) = setsockopt_throw k level optname optval"
| "run_throw k Op_reuse_address = reuse_address_throw k"
| "run_throw k (Op_listen backlog) = listen_throw k backlog"
| "run_throw k Op_listen_default = listen_default_throw k"
| "run_throw k (Op_bind address) = bind_throw k socket_t_modules address"
| "run_throw k (Op_shutdown flags) = shutdown_throw k flags"

text \<open>The system call that decides the outcome, and the calls made before it.\<close>

primrec deciding_call :: "sync_op \<Rightarrow> socket_t \<Rightarrow> syscall" where
  "deciding_call Op_init f = socket_call"
| "deciding_call (Op_setsockopt level optname optval) f = Sys_setsockopt (m_fd f) level optname optval"
| "deciding_call Op_reuse_address f = Sys_setsockopt (m_fd f) SOL_SOCKET SO_REUSEADDR [1, 0, 0, 0]"
| "deciding_call (Op_listen backlog) f = Sys_listen (m_fd f) backlog"
| "deciding_call Op_listen_default f = Sys_listen (m_fd f) SOMAXCONN"
| "deciding_call (Op_bind address) f = Sys_bind (m_fd f) address"
| "deciding_call (Op_shutdown flags) f = Sys_shutdown (m_fd f) flags"

definition calls_before :: "sync_op \<Rightarrow> socket_t \<Rightarrow> trace" where
  "calls_before operation f = (if operation = Op_init \<and> m_fd f \<noteq> -1 then [Sys_close (m_fd f)] else [])"

lemmas sync_op_defs = init_ec_def setsockopt_ec_def reuse_address_ec_def listen_ec_def
  listen_default_ec_def bind_ec_def shutdown_ec_def

lemma run_throw_throwing: "run_throw k operation f tr = throwing (run_ec k operation) f tr"
  by (cases operation)
    (simp_all add: init_throw_def setsockopt_throw_def reuse_address_throw_def listen_throw_def
      listen_default_throw_def bind_throw_def shutdown_throw_def throwing_def
      reuse_address_ec_def listen_default_ec_def)

lemma run_ec_sync:
  obtains g where "\<And>f tr. run_ec k operation f tr =
      sync_operation k (deciding_call operation f) g f (tr @ calls_before operation f)"
    and "\<And>ret f tr. \<exists>cs. snd (g ret f tr) = tr @ cs"
proof (cases operation)
  case Op_init
  then show ?thesis
    by (intro that [of "\<lambda>fd f tr. (fd_set fd f, tr)"])
      (simp_all add: init_ec_def calls_before_def fd_get_def)
next
  case (Op_bind address)
  then show ?thesis
    by (intro that [of "bind_success k socket_t_modules address"])
      (simp_all add: bind_ec_def calls_before_def fd_get_def bind_success_def Let_def)
qed (auto intro!: that [of ignore_ret] simp: sync_op_defs calls_before_def fd_get_def ignore_ret_def)

interpretation sock: sync_call k "run_ec k operation" "calls_before operation" "deciding_call operation"
  for k operation
proof
  fix f tr
  obtain g where g: "\<And>f tr. run_ec k operation f tr =
      sync_operation k (deciding_call operation f) g f (tr @ calls_before operation f)"
    and cs: "\<And>ret f tr. \<exists>cs. snd (g ret f tr) = tr @ cs"
    using run_ec_sync [of k operation] by blast
  show "run_ec k operation f tr = (f, system_code (sys_errno k (deciding_call operation f)
      (tr @ calls_before operation f)), tr @ calls_before operation f @ [deciding_call operation f])"
    if "sys_fails k (deciding_call operation f) (tr @ calls_before operation f)"
    using that by (simp add: g sync_operation_fails)
  show "\<exists>f' tr'. run_ec k operation f tr = (f', no_error, tr') \<and>
      (\<exists>cs. tr' = tr @ calls_before operation f @ deciding_call operation f # cs)"
    if "\<not> sys_fails k (deciding_call operation f) (tr @ calls_before operation f)"
  proof -
    let ?tr = "tr @ calls_before operation f @ [deciding_call operation f]"
    obtain cs where "snd (g (sys_ret k (deciding_call operation f) (tr @ calls_before operation f)) f ?tr)
        = ?tr @ cs"
      using cs by blast
    with that show ?thesis by (simp add: g sync_operation_succeeds)
  qed
qed

text \<open>\<open>shutdown(error)\<close> is the overload outside this contract: it does what \<open>shutdown()\<close> does and leaves its argument alone.\<close>

lemma shutdown_default_ec_effect:
  assumes "kernel_ok k"
  shows "shutdown_default_ec k error f tr =
    (let c = Sys_shutdown (m_fd f) SHUT_WR in
     ((f, if sys_fails k c tr then Inl (System_error (system_code (sys_errno k c tr))) else Inr (), tr @ [c]), error))"
  using errno_nonzero [OF assms, of "Sys_shutdown (m_fd f) SHUT_WR" tr]
  by (cases "sys_fails k (Sys_shutdown (m_fd f) SHUT_WR) tr")
    (simp_all add: shutdown_default_ec_def shutdown_throw_def throwing_def shutdown_ec_def fd_get_def Let_def ignore_ret_def
      sync_operation_fails sync_operation_succeeds)

text \<open>
  C12: Every synchronous socket operation (\<open>init\<close>, \<open>setsockopt\<close>, \<open>reuse_address\<close>, \<open>listen\<close>, \<open>bind\<close>, \<open>shutdown\<close>) in
  its throwing form, and in its error-code form with one exception, reports exactly the failure of
  its system call: if the call fails, the error-code form returns the call's \<open>errno\<close> in the
  system category, the throwing form throws a \<open>system_error\<close> with that code, and the socket is
  unchanged; if it succeeds, the error code is cleared, whatever it was, and nothing is thrown. The
  exception is \<open>shutdown(std::error_code&)\<close>, which is documented like the others: it throws the failure of \<open>shutdown(fd, SHUT_WR)\<close> and
  leaves its argument as it was, on success too.
\<close>

theorem sync_operations_report_errno:
  assumes "kernel_ok k"
  shows "(let c = deciding_call operation f; before = tr @ calls_before operation f;
             code = system_code (sys_errno k c before) in
    if sys_fails k c before
    then run_ec k operation f tr = (f, code, before @ [c]) \<and> ec_set code
      \<and> run_throw k operation f tr = (f, Inl (System_error code), before @ [c])
    else fst (snd (run_ec k operation f tr)) = no_error
      \<and> fst (snd (run_throw k operation f tr)) = Inr ()) \<and>
    shutdown_default_ec k error f tr =
      (let c = Sys_shutdown (m_fd f) SHUT_WR in
       ((f, if sys_fails k c tr then Inl (System_error (system_code (sys_errno k c tr))) else Inr (), tr @ [c]), error))"
proof
  show "let c = deciding_call operation f; before = tr @ calls_before operation f;
             code = system_code (sys_errno k c before) in
    if sys_fails k c before
    then run_ec k operation f tr = (f, code, before @ [c]) \<and> ec_set code
      \<and> run_throw k operation f tr = (f, Inl (System_error code), before @ [c])
    else fst (snd (run_ec k operation f tr)) = no_error
      \<and> fst (snd (run_throw k operation f tr)) = Inr ()"
    using assms sock.on_failure [of k operation f tr] sock.throws_iff_fails [OF assms, of operation f tr]
      sock.on_success [of k operation f tr] errno_nonzero [OF assms]
    by (auto simp: Let_def run_throw_throwing throwing_def)
qed (rule shutdown_default_ec_effect [OF assms])

definition refusing_kernel :: kernel where
  "refusing_kernel = \<lparr> k_reply = (\<lambda>tr c. (-1, 24)), k_sockname = (\<lambda>tr fd. zero_sockaddr) \<rparr>"

lemma refusing_kernel_ok [simp]: "kernel_ok refusing_kernel"
  by (simp add: kernel_ok_def refusing_kernel_def)

lemma refusing_kernel_fails [simp]:
  "sys_fails refusing_kernel c tr" "sys_errno refusing_kernel c tr = 24"
  by (simp_all add: refusing_kernel_def sys_fails_def sys_ret_def sys_errno_def)

theorem sync_operations_report_errno_witness:
  "run_ec refusing_kernel Op_listen_default (fd_set 3 socket_new) [] =
      (fd_set 3 socket_new, system_code 24, [Sys_listen 3 4096]) \<and>
    shutdown_default_ec refusing_kernel no_error (fd_set 3 socket_new) [] =
      ((fd_set 3 socket_new, Inl (System_error (system_code 24)), [Sys_shutdown 3 1]), no_error)"
  using sync_operations_report_errno [OF refusing_kernel_ok, of Op_listen_default "fd_set 3 socket_new" "[]" no_error]
  by (simp add: calls_before_def fd_set_def SOMAXCONN_def SHUT_WR_def Let_def)

text \<open>
  Initialising a socket again. On success the old descriptor is closed once and replaced by
  the new one; if \<open>socket(2)\<close> fails, the object keeps the number of the descriptor it has just
  closed, so that its destructor closes a descriptor that is not open, or, once the number is
  reused, somebody else's.
\<close>

theorem init_failure_double_close:
  assumes "valid f"
  shows "if sys_fails k socket_call [Sys_close (m_fd f)]
    then bad_closes (fd_destroy (fst (init_ec k f [])) (snd (snd (init_ec k f [])))) {m_fd f} = [m_fd f]
    else m_fd (fst (init_ec k f [])) = sys_ret k socket_call [Sys_close (m_fd f)]
      \<and> bad_closes (snd (snd (init_ec k f []))) {m_fd f} = []"
  using assms
  by (auto simp: init_ec_def fd_get_def valid_def sync_operation_fails sync_operation_succeeds
      socket_call_def fd_destroy_def fd_close_def fd_set_def Let_def)

theorem init_failure_double_close_witness:
  "bad_closes (fd_destroy (fst (init_ec refusing_kernel (fd_set 3 socket_new) []))
      (snd (snd (init_ec refusing_kernel (fd_set 3 socket_new) [])))) {3} = [3]"
  using init_failure_double_close [of "fd_set 3 socket_new" refusing_kernel]
  by (simp add: valid_def fd_set_def)

text \<open>
  A successful bind records the address the socket really has: the one asked for, or, for
  port 0, the one \<open>getsockname\<close> reports; a failing bind leaves it alone; the peer address and the
  descriptor never change.
\<close>

theorem bind_records_local_address:
  "let (f', error, tr') = bind_ec k socket_t_modules a f tr in
    m_fd f' = m_fd f \<and> get_peer_address f' = get_peer_address f \<and>
    get_local_address f' =
      (if sys_fails k (Sys_bind (m_fd f) a) tr then get_local_address f
       else if port a \<noteq> 0 then a
       else if sys_fails k (Sys_getsockname (m_fd f)) (tr @ [Sys_bind (m_fd f) a]) then zero_sockaddr
       else k_sockname k (tr @ [Sys_bind (m_fd f) a]) (m_fd f))"
proof -
  have has: "file_descriptor_has_module_v socket_t_modules ''address''"
    by (simp add: has_module_iff socket_t_modules_def)
  show ?thesis
    by (cases "sys_fails k (Sys_bind (m_fd f) a) tr")
      (auto simp: bind_ec_def fd_get_def sync_operation_fails sync_operation_succeeds bind_success_def
        has set_local_address_def get_local_address_def get_peer_address_def socket_address_of_def
        sys_fails_def Let_def)
qed

end
