(* ===== verification/Socket_Async.thy ===== *)
theory Socket_Async
  imports Socket_Sync Async_Operation
begin

text \<open>
  The remaining asynchronous operations: accepting, connecting and closing a socket
  (\<open>socket/impl/accept.h\<close>, \<open>connect.h\<close>, \<open>close.h\<close>), splicing (\<open>socket/impl/splice.h\<close>) and the
  file operations (\<open>file/impl/openat.h\<close>, \<open>preadv.h\<close>, \<open>statx.h\<close>, \<open>file/file.h\<close>). References to
  sockets and files held by an operation are arguments of the definitions, and come back
  changed.
\<close>

section \<open>Accepting\<close>

record async_accept = async_operation +
  m_peer_addr :: sockaddr_in
  m_addrlen :: nat

definition accept :: "nat option \<Rightarrow> int option \<Rightarrow> error_code option \<Rightarrow> nat \<Rightarrow> async_accept" where
  "accept service duration error self =
    async_operation.extend (api_operation service None duration error self)
      \<lparr> m_peer_addr = zero_sockaddr, m_addrlen = 16 \<rparr>"

definition accept_initial_check :: bool where
  "accept_initial_check = True"

definition accept_try_start :: "socket_t \<Rightarrow> prep" where
  "accept_try_start listen_socket = Prep_accept (fd_get listen_socket)"

definition accept_get_result ::
  "module_template list \<Rightarrow> async_accept \<Rightarrow> socket_t \<Rightarrow> socket_t \<times> (cpp_exn + unit)" where
  "accept_get_result Modules op peer_socket =
    (if \<not> ec_set (get_error_code op) then
       (let peer_socket = fd_set (m_res op) peer_socket in
        (if file_descriptor_has_module_v Modules ''address''
         then set_peer_address (socket_address_of (m_peer_addr op)) peer_socket else peer_socket, Inr ()))
     else (peer_socket,
       if \<not> error_code_type (op_policy op) then Inl (System_error (get_error_code op)) else Inr ()))"

text \<open>The completion of an accept: the kernel has filled in the peer's address when it succeeds.\<close>

definition accept_complete :: "int \<Rightarrow> sockaddr_in \<Rightarrow> async_accept \<Rightarrow> async_accept" where
  "accept_complete res peer op =
    set_value res 0 (if res \<ge> 0 then op\<lparr>m_peer_addr := peer\<rparr> else op)"

lemma accept_new_simps [simp]:
  "mp_error (accept s d e a) = Some (if e = None then Own_error else Caller_error)"
  "op_policy (accept s d e a) = api_policy d e"
  "get_error_code (accept s d e a) = (case e of None \<Rightarrow> no_error | Some c \<Rightarrow> c)"
  by (simp_all add: accept_def async_operation.defs get_error_code_def api_operation_def
      async_operation_new_def api_policy_def error_code_storage_ptr_def split: option.split)

lemma accept_addr_update [simp]:
  "mp_error (op\<lparr>m_peer_addr := p\<rparr>) = mp_error op"
  "get_error_code (op\<lparr>m_peer_addr := p\<rparr>) = get_error_code op"
  by (simp_all add: get_error_code_def split: option.split error_ref.split)

lemma m_peer_addr_set_value [simp]: "m_peer_addr (set_value r f op) = m_peer_addr op"
  by (simp add: set_value_def Let_def assign_error_def split: option.split error_ref.split)

lemma socket_t_has_address [simp]: "file_descriptor_has_module_v socket_t_modules ''address''"
  by (simp add: has_module_iff socket_t_modules_def)

text \<open>
  Accepting a connection. If the kernel accepts one, the peer socket owns its descriptor and
  carries its address; if the kernel reports an error, the peer socket is unchanged and the
  error is thrown or stored. But an error code that the caller passes still set is taken for
  a failure: the accepted descriptor is stored nowhere and leaks, and the stale error is what
  the caller sees.
\<close>

theorem accept_result:
  "let op = accept_complete r p (accept s d e a); (peer', result) = accept_get_result socket_t_modules op peer in
    if r < 0
    then peer' = peer \<and> get_error_code op = system_code (- r) \<and>
      result = (if e = None then Inl (System_error (system_code (- r))) else Inr ())
    else case e of
        None \<Rightarrow> m_fd peer' = r \<and> get_peer_address peer' = p \<and> result = Inr ()
      | Some c \<Rightarrow> if ec_set c then peer' = peer \<and> result = Inr () \<and> get_error_code op = c
          else m_fd peer' = r \<and> get_peer_address peer' = p \<and> result = Inr ()"
  by (cases e)
    (auto simp: accept_get_result_def get_error_set_value api_policy_def fd_set_def
      set_peer_address_def get_peer_address_def socket_address_of_def accept_complete_def Let_def)

section \<open>Connecting\<close>

record async_connect = async_operation +
  m_addr :: sockaddr_in

definition connect :: "nat option \<Rightarrow> int option \<Rightarrow> error_code option \<Rightarrow> sockaddr_in \<Rightarrow> nat \<Rightarrow> async_connect" where
  "connect service duration error address self =
    async_operation.extend (api_operation service None duration error self) \<lparr> m_addr = address \<rparr>"

definition connect_initial_check :: bool where
  "connect_initial_check = True"

definition connect_try_start :: "socket_t \<Rightarrow> async_connect \<Rightarrow> prep" where
  "connect_try_start f op = Prep_connect (fd_get f) (m_addr op)"

definition connect_get_result ::
  "module_template list \<Rightarrow> async_connect \<Rightarrow> socket_t \<Rightarrow> socket_t \<times> (cpp_exn + unit)" where
  "connect_get_result Modules op f =
    (if \<not> ec_set (get_error_code op) then
       (if file_descriptor_has_module_v Modules ''address''
        then set_peer_address (socket_address_of (m_addr op)) f else f, Inr ())
     else (f, if \<not> error_code_type (op_policy op) then Inl (System_error (get_error_code op)) else Inr ()))"

lemma connect_new_simps [simp]:
  "mp_error (connect s d e p a) = Some (if e = None then Own_error else Caller_error)"
  "op_policy (connect s d e p a) = api_policy d e"
  "get_error_code (connect s d e p a) = (case e of None \<Rightarrow> no_error | Some c \<Rightarrow> c)"
  "m_addr (connect s d e p a) = p"
  by (simp_all add: connect_def async_operation.defs get_error_code_def api_operation_def
      async_operation_new_def api_policy_def error_code_storage_ptr_def split: option.split)

lemma m_addr_set_value [simp]: "m_addr (set_value r f op) = m_addr op"
  by (simp add: set_value_def Let_def assign_error_def split: option.split error_ref.split)

lemma connect_result:
  assumes "case e of None \<Rightarrow> True | Some c \<Rightarrow> \<not> ec_set c"
  shows "let op = set_value r 0 (connect s d e p a); (f', result) = connect_get_result socket_t_modules op f in
    if r < 0
    then f' = f \<and> result = (if e = None then Inl (System_error (system_code (- r))) else Inr ())
      \<and> get_error_code op = system_code (- r)
    else m_fd f' = m_fd f \<and> get_peer_address f' = p \<and> result = Inr ()"
  using assms
  by (auto simp: connect_get_result_def get_error_set_value api_policy_def set_peer_address_def
      get_peer_address_def socket_address_of_def Let_def split: option.splits)

section \<open>Closing\<close>

text \<open>
  \<open>async_close\<close> reads into a shared scratch buffer until it reads 0 and then calls \<open>::close\<close>,
  whose return value it stores as the result.
\<close>

definition null_buffer_size :: int where
  "null_buffer_size = 1024"

definition close_new :: "nat option \<Rightarrow> int option \<Rightarrow> error_code option \<Rightarrow> nat \<Rightarrow> async_operation" where
  "close_new service duration error self = api_operation service (Some On_own_completion) duration error self"

definition close_initial_check :: "socket_t \<Rightarrow> bool" where
  "close_initial_check f \<longleftrightarrow> valid f"

definition close_try_start :: "socket_t \<Rightarrow> prep" where
  "close_try_start f = Prep_recv (fd_get f) null_buffer_size"

definition close_update_result ::
  "kernel \<Rightarrow> socket_t \<Rightarrow> async_operation \<Rightarrow> trace \<Rightarrow> async_operation \<times> effect \<times> trace" where
  "close_update_result k f op tr =
    (if ec_set (get_error_code op) then (op, Resume (m_awaiting_coroutine op), tr)
     else if m_res op = 0 then
       (let c = Sys_close (fd_get f); op = set_value (sys_ret k c tr) (m_flags op) op in
        (op, Resume (m_awaiting_coroutine op), tr @ [c]))
     else (op, submit (close_try_start f) op, tr))"

definition close_on_recv_completed ::
  "kernel \<Rightarrow> socket_t \<Rightarrow> async_operation \<Rightarrow> trace \<Rightarrow> async_operation \<times> effect \<times> trace" where
  "close_on_recv_completed k f op tr = close_update_result k f op tr"

definition close_get_result :: "async_operation \<Rightarrow> cpp_exn + unit" where
  "close_get_result op =
    (if error_code_type (op_policy op) then Inr ()
     else if ec_set (get_error_code op) then Inl (System_error (get_error_code op)) else Inr ())"

fun close_drive ::
  "kernel \<Rightarrow> socket_t \<Rightarrow> int list \<Rightarrow> async_operation \<Rightarrow> trace \<Rightarrow> async_operation \<times> bool \<times> trace" where
  "close_drive k f [] op tr = (op, False, tr)"
| "close_drive k f (r # rs) op tr =
    (case close_on_recv_completed k f (set_value r 0 op) tr of
       (op, Submit es, tr) \<Rightarrow> close_drive k f rs op tr
     | (op, _, tr) \<Rightarrow> (op, True, tr))"

lemma submittable_set_value [simp]: "submittable (set_value r f op) = submittable op"
  by (simp add: submittable_def)

lemma close_drive_reads:
  assumes "submittable op" "mp_error op \<noteq> None" "\<not> ec_set (get_error_code op)" "list_all (\<lambda>r. 0 < r) rs"
  shows "\<exists>op'. close_drive k f (rs @ rs') op tr = close_drive k f rs' op' tr \<and> submittable op' \<and>
    mp_error op' = mp_error op \<and> get_error_code op' = get_error_code op \<and> op_policy op' = op_policy op"
  using assms
proof (induction rs arbitrary: op)
  case (Cons r rs)
  let ?o = "set_value r 0 op"
  from Cons.prems have err: "get_error_code ?o = get_error_code op"
    by (simp add: get_error_set_value)
  from Cons.prems obtain es where "submit (close_try_start f) ?o = Submit es"
    using submit_submittable [of ?o] by auto
  with Cons.prems err have "close_drive k f ((r # rs) @ rs') op tr = close_drive k f (rs @ rs') ?o tr"
    by (simp add: close_on_recv_completed_def close_update_result_def)
  with Cons.IH [of ?o] Cons.prems err show ?case by auto
qed auto

text \<open>
  C40: Closing. The operation drains the socket and then closes it: after any number of reads and
  an end of stream it makes exactly one \<open>close\<close> call, on the socket's descriptor, and resumes;
  if a read fails it resumes with the error and makes no call. If \<open>close\<close> fails its \<open>errno\<close> is
  lost: the result \<open>-1\<close> is taken for error number 1. The socket object still holds the closed
  descriptor, so its destructor closes it again.
\<close>

theorem close_drains_then_closes:
  assumes "list_all (\<lambda>r. 0 < r) rs" and "valid f" and "r \<le> 0"
    and "close_drive k f (rs @ [r]) (close_new (Some s) d None a) tr = (op, resumed, tr')"
    and "sys_ret k (Sys_close (m_fd f)) tr \<in> {-1, 0}"
  shows "resumed \<and>
    (if r < 0 then tr' = tr \<and> close_get_result op = Inl (System_error (system_code (- r)))
     else tr' = tr @ [Sys_close (m_fd f)] \<and>
       close_get_result op = (if sys_fails k (Sys_close (m_fd f)) tr
         then Inl (System_error (system_code 1)) else Inr ()) \<and>
       bad_closes (drop (length tr) (fd_destroy f tr')) {m_fd f} = [m_fd f])"
proof -
  have new: "submittable (close_new (Some s) d None a)" "mp_error (close_new (Some s) d None a) \<noteq> None"
    "\<not> ec_set (get_error_code (close_new (Some s) d None a))"
    "op_policy (close_new (Some s) d None a) = api_policy d None"
    by (simp_all add: close_new_def)
  from close_drive_reads [OF new(1-3) assms(1), of k f "[r]" tr] new assms(4) obtain op1
    where d: "close_drive k f [r] op1 tr = (op, resumed, tr')"
      and op1: "submittable op1" "mp_error op1 \<noteq> None" "\<not> ec_set (get_error_code op1)"
        "op_policy op1 = api_policy d None"
    by auto
  show ?thesis
  proof (cases "r = 0")
    case True
    with d op1 assms(2,5) show ?thesis
      by (auto simp: close_on_recv_completed_def close_update_result_def get_error_set_value
          fd_get_def close_get_result_def api_policy_def sys_fails_def valid_def fd_destroy_def fd_close_def Let_def)
  next
    case False
    with d op1 assms(3) show ?thesis
      by (auto simp: close_on_recv_completed_def close_update_result_def get_error_set_value
          close_get_result_def api_policy_def)
  qed
qed

definition friendly_kernel :: kernel where
  "friendly_kernel = \<lparr> k_reply = (\<lambda>tr c. (0, 0)), k_sockname = (\<lambda>tr fd. zero_sockaddr) \<rparr>"

theorem close_drains_then_closes_witness:
  "\<exists>op tr'. close_drive friendly_kernel (fd_set 3 socket_new) [10, 20, 0] (close_new (Some 1) None None 64) []
      = (op, True, tr') \<and> tr' = [Sys_close 3] \<and> close_get_result op = Inr () \<and>
    bad_closes (fd_destroy (fd_set 3 socket_new) tr') {3} = [3]"
proof -
  obtain op resumed tr' where
    d: "close_drive friendly_kernel (fd_set 3 socket_new) ([10, 20] @ [0]) (close_new (Some 1) None None 64) []
      = (op, resumed, tr')"
    by (metis prod_cases3)
  have "resumed \<and> tr' = [Sys_close 3] \<and> close_get_result op = Inr () \<and>
      bad_closes (fd_destroy (fd_set 3 socket_new) tr') {3} = [3]"
    using close_drains_then_closes [OF _ _ _ d]
    by (simp add: valid_def fd_set_def friendly_kernel_def sys_ret_def sys_fails_def) (metis)
  with d show ?thesis by auto
qed

section \<open>Splicing and files\<close>

text \<open>
  These operations take their results through \<open>async_throw_or_return\<close>. \<open>async_splice\<close> does not
  initialise its byte count, so the constructor takes the indeterminate value as an argument,
  and it is constructed with the default callback.
\<close>

record async_splice = async_operation +
  sp_bytes_transferred :: size_t
  sp_len :: size_t
  sp_flags :: nat

definition splice :: "nat option \<Rightarrow> size_t \<Rightarrow> int \<Rightarrow> nat \<Rightarrow> async_splice" where
  "splice service indeterminate len self =
    async_operation.extend (api_operation service None None None self)
      \<lparr> sp_bytes_transferred = indeterminate, sp_len = word_of_int len, sp_flags = 0 \<rparr>"

definition splice_try_start :: "int \<Rightarrow> int \<Rightarrow> async_splice \<Rightarrow> prep" where
  "splice_try_start file_fd socket_fd op = Prep_splice file_fd socket_fd (sp_len op)"

definition splice_update_result :: "int \<Rightarrow> int \<Rightarrow> async_splice \<Rightarrow> async_splice \<times> effect" where
  "splice_update_result file_fd socket_fd op =
    (if \<not> no_error_in_result op \<or> m_res op = 0 then (op, Resume (m_awaiting_coroutine op))
     else (let op = op\<lparr>sp_bytes_transferred := sp_bytes_transferred op + word_of_int (m_res op)\<rparr> in
       (op, submit (splice_try_start file_fd socket_fd op) op)))"

definition on_splice_completed :: "int \<Rightarrow> int \<Rightarrow> async_splice \<Rightarrow> async_splice \<times> effect" where
  "on_splice_completed file_fd socket_fd op = splice_update_result file_fd socket_fd op"

text \<open>What the service runs for a completion: the callback the operation was constructed with.\<close>

definition splice_execute :: "int \<Rightarrow> int \<Rightarrow> async_splice \<Rightarrow> async_splice \<times> effect" where
  "splice_execute file_fd socket_fd op =
    (case m_callback op of
       On_operation_completed \<Rightarrow> (op, on_operation_completed op)
     | On_own_completion \<Rightarrow> on_splice_completed file_fd socket_fd op)"

definition splice_get_result :: "bool \<Rightarrow> async_splice \<Rightarrow> cpp_exn + size_t cpp_value" where
  "splice_get_result use_ec op =
    async_throw_or_return use_ec (get_error_code op) [V_arg 0 (sp_bytes_transferred op)]"

record async_openat = async_operation +
  m_path :: string
  m_file_flags :: int
  m_file_mode :: nat

definition openat :: "nat option \<Rightarrow> string \<Rightarrow> int \<Rightarrow> nat \<Rightarrow> nat \<Rightarrow> async_openat" where
  "openat service path flags mode self =
    async_operation.extend (api_operation service None None None self)
      \<lparr> m_path = path, m_file_flags = flags, m_file_mode = mode \<rparr>"

definition openat_try_start :: "async_openat \<Rightarrow> prep" where
  "openat_try_start op = Prep_openat (m_path op) (m_file_flags op) (m_file_mode op)"

definition openat_get_result ::
  "bool \<Rightarrow> async_openat \<Rightarrow> file_descriptor_base \<Rightarrow> file_descriptor_base \<times> (cpp_exn + unit cpp_value)" where
  "openat_get_result use_ec op file =
    (if no_error_in_result op then fd_set (m_res op) file else file,
     async_throw_or_return use_ec (get_error_code op) [])"

record async_read = async_operation +
  rd_buffers :: buffer_sequence
  rd_offset :: int

definition read_some_offset :: "nat option \<Rightarrow> int \<Rightarrow> span list \<Rightarrow> nat \<Rightarrow> async_read" where
  "read_some_offset service offset args self =
    async_operation.extend (api_operation service None None None self)
      \<lparr> rd_buffers = buffer_sequence_base args, rd_offset = offset \<rparr>"

definition read_some :: "nat option \<Rightarrow> span list \<Rightarrow> nat \<Rightarrow> async_read" where
  "read_some service args self = read_some_offset service 0 args self"

definition read_try_start :: "int \<Rightarrow> async_read \<Rightarrow> prep" where
  "read_try_start file_fd op =
    Prep_readv file_fd (get_iov_ptr (rd_buffers op)) (get_iov_cnt (rd_buffers op)) (rd_offset op)"

definition read_get_result :: "bool \<Rightarrow> async_read \<Rightarrow> cpp_exn + size_t cpp_value" where
  "read_get_result use_ec op =
    async_throw_or_return use_ec (get_error_code op) [V_arg 0 (word_of_int (m_res op))]"

text \<open>The kernel's bits for an empty path and the basic statistics.\<close>

definition AT_EMPTY_PATH :: int where "AT_EMPTY_PATH = 0x1000"
definition STATX_BASIC_STATS :: int where "STATX_BASIC_STATS = 0x7ff"

record async_statx = async_operation +
  m_statx_flags :: int
  m_statx_mask :: int

definition update_statx :: "nat option \<Rightarrow> nat \<Rightarrow> async_statx" where
  "update_statx service self =
    async_operation.extend (api_operation service None None None self)
      \<lparr> m_statx_flags = 0, m_statx_mask = 0 \<rparr>"

definition statx_try_start :: "int \<Rightarrow> async_statx \<Rightarrow> prep" where
  "statx_try_start file_fd op =
    Prep_statx file_fd (m_statx_flags op OR AT_EMPTY_PATH) (m_statx_mask op OR STATX_BASIC_STATS)"

definition statx_get_result :: "bool \<Rightarrow> async_statx \<Rightarrow> cpp_exn + unit cpp_value" where
  "statx_get_result use_ec op = async_throw_or_return use_ec (get_error_code op) []"

definition file_t_modules :: "module_template list option" where
  "file_t_modules = module_map
    (map (\<lambda>n. \<lparr> mt_name = n, mt_bound = [] \<rparr>) [''file_statx'', ''operation_openat'', ''operation_read''])
    (with_map_front ''exception_policy'')"

lemma file_t_policy:
  "\<exists>Ms. file_t_modules = Some Ms \<and> policy_from_file_descriptor_t Ms ''operation_openat'' = Some ''exception_policy''"
  by (simp add: file_t_modules_def module_map_map policy_from_file_descriptor_t_def
      file_descriptor_inst_module_list_def instantiate_def with_map_front_def)

lemma openat_result:
  assumes "0 \<le> r"
  shows "openat_get_result use_ec (set_value r 0 (openat (Some s) path flags mode a)) f =
    (fd_set r f, async_throw_or_return use_ec no_error [])"
  using assms
  by (simp add: openat_get_result_def no_error_in_result_def get_error_set_value)
    (simp add: openat_def async_operation.defs get_error_code_def api_operation_def
      async_operation_new_def api_policy_def error_code_storage_ptr_def set_value_def)

text \<open>
  \<open>splice\<close> reports garbage: its completion never reaches \<open>update_result\<close>, because the operation is
  constructed with the default callback, and the byte count it then returns is the
  indeterminate value the object was created with.
\<close>

theorem splice_result_indeterminate:
  assumes "0 \<le> r"
  shows "let op = set_value r 0 (splice (Some s) indeterminate len a);
             (op', eff) = splice_execute file_fd socket_fd op in
    eff = Resume None \<and> splice_get_result False op' = Inr (V_arg 0 indeterminate)"
  using assms
  by (simp add: splice_def async_operation.defs api_operation_def async_operation_new_def api_policy_def
      error_code_storage_ptr_def splice_execute_def on_operation_completed_def splice_get_result_def
      set_value_def get_error_code_def async_throw_or_return_def)

theorem splice_result_indeterminate_witness:
  "splice_get_result False (fst (splice_execute 3 4 (set_value 512 0 (splice (Some 1) 0xDEAD 512 64))))
    = Inr (V_arg 0 0xDEAD)"
  using splice_result_indeterminate [of 512 1 "0xDEAD" 512 64 3 4]
  by (simp add: Let_def split: prod.splits)

end
