(* ===== verification/IO_Service.thy ===== *)
theory IO_Service
  imports Async_Operation "HOL-Library.Sublist"
begin

text \<open>
  The event loop (\<open>io_service.h\<close>): one thread runs \<open>run()\<close>; any thread may hand it operations
  through the mutex-protected remote queue, and wakes it with an eventfd the loop polls
  through the ring.

  The member functions are state transformers on the service. The loop and the producers are
  then put together as a step relation whose steps are the atomic actions of the code: the
  two halves of \<open>schedule_remote\<close> (the push under the mutex, the write to the eventfd
  afterwards), one completion at a time, the swap of the remote queue, one callback at a time.

  The ring is modelled by what has been submitted and what has completed; its fixed number of
  entries, which the source does not check either, is not modelled. Callbacks are logged.
\<close>

section \<open>The service and its member functions\<close>

record io_service =
  m_ring :: "sqe list"
  m_local_queue :: "nat list"
  ma_is_stop_requested :: bool
  m_remote_queue_eventfd :: int
  m_remote_queue_eventfd_poll_sqe_submitted :: bool
  m_remote_queue :: "nat list"
  svc_address :: nat

text \<open>The constructor takes the result of \<open>::eventfd\<close>; it returns the new thread-local service pointer too.\<close>

definition io_service_new :: "nat \<Rightarrow> int \<Rightarrow> nat option \<Rightarrow> io_service \<times> nat option" where
  "io_service_new this eventfd_ret thread_io_service =
    (\<lparr> m_ring = [], m_local_queue = [], ma_is_stop_requested = False,
       m_remote_queue_eventfd = (if eventfd_ret < 0 then -1 else eventfd_ret),
       m_remote_queue_eventfd_poll_sqe_submitted = False, m_remote_queue = [], svc_address = this \<rparr>,
     if thread_io_service = None then Some this else thread_io_service)"

definition io_service_destroy :: "io_service \<Rightarrow> trace \<Rightarrow> nat option \<times> trace" where
  "io_service_destroy svc tr = (None, tr @ [Sys_close (m_remote_queue_eventfd svc)])"

text \<open>
  \<open>request_stop\<close>: the weak compare-exchange may fail spuriously. The boolean says whether the
  eventfd is to be written.
\<close>

definition request_stop :: "bool \<Rightarrow> io_service \<Rightarrow> io_service \<times> bool" where
  "request_stop spurious svc =
    (if \<not> ma_is_stop_requested svc \<and> \<not> spurious
     then (svc\<lparr>ma_is_stop_requested := True\<rparr>, True) else (svc, False))"

definition remote_queue_eventfd_user_data :: "io_service \<Rightarrow> nat" where
  "remote_queue_eventfd_user_data svc = svc_address svc + 1"

definition submit_eventfd_poll_sqe :: "io_service \<Rightarrow> io_service \<times> bool" where
  "submit_eventfd_poll_sqe svc =
    (svc\<lparr>m_ring := m_ring svc @ try_submit_io \<lparr> sqe_prep = Prep_poll_add (m_remote_queue_eventfd svc),
        sqe_user_data = remote_queue_eventfd_user_data svc, sqe_link = False \<rparr>\<rparr>, True)"

definition schedule_local :: "nat \<Rightarrow> io_service \<Rightarrow> io_service" where
  "schedule_local operation svc = svc\<lparr>m_local_queue := m_local_queue svc @ [operation]\<rparr>"

definition schedule_local_list :: "nat list \<Rightarrow> io_service \<Rightarrow> io_service" where
  "schedule_local_list operations svc = svc\<lparr>m_local_queue := m_local_queue svc @ operations\<rparr>"

text \<open>The critical section of \<open>schedule_remote\<close>; the boolean is \<open>need_enable_eventfd\<close>.\<close>

definition schedule_remote :: "nat \<Rightarrow> io_service \<Rightarrow> io_service \<times> bool" where
  "schedule_remote operation svc =
    (svc\<lparr>m_remote_queue := m_remote_queue svc @ [operation]\<rparr>, m_remote_queue svc = [])"

definition is_same_io_service_thread :: "nat option \<Rightarrow> io_service \<Rightarrow> bool" where
  "is_same_io_service_thread thread_io_service svc \<longleftrightarrow> thread_io_service = Some (svc_address svc)"

definition schedule_impl :: "nat option \<Rightarrow> nat option \<Rightarrow> io_service \<Rightarrow> io_service \<times> bool" where
  "schedule_impl thread_io_service operation svc =
    (case operation of None \<Rightarrow> (svc, False)
     | Some a \<Rightarrow> if is_same_io_service_thread thread_io_service svc
         then (schedule_local a svc, False) else schedule_remote a svc)"

text \<open>\<open>execute_pending_local\<close> swaps the local queue out; the list returned is then executed in order.\<close>

definition execute_pending_local :: "io_service \<Rightarrow> io_service \<times> nat list" where
  "execute_pending_local svc =
    (if m_local_queue svc = [] then (svc, [])
     else (svc\<lparr>m_local_queue := []\<rparr>, m_local_queue svc))"

definition get_remote_queue_operation_bases :: "io_service \<Rightarrow> io_service" where
  "get_remote_queue_operation_bases svc =
    (let remote = m_remote_queue svc in schedule_local_list remote (svc\<lparr>m_remote_queue := []\<rparr>))"

record cqe =
  cqe_user_data :: nat
  cqe_res :: int
  cqe_flags :: int

text \<open>An eventfd: \<open>write\<close> adds 1 to its counter, \<open>read\<close> resets it.\<close>

definition enable_remote_queue_eventfd :: "nat \<Rightarrow> nat" where
  "enable_remote_queue_eventfd counter = counter + 1"

definition disable_remote_queue_eventfd :: "nat \<Rightarrow> nat" where
  "disable_remote_queue_eventfd counter = 0"

definition on_remote_queue_eventfd_poll_complete :: "io_service \<Rightarrow> nat \<Rightarrow> io_service \<times> nat" where
  "on_remote_queue_eventfd_poll_complete svc counter =
    (svc\<lparr>m_remote_queue_eventfd_poll_sqe_submitted := False\<rparr>, disable_remote_queue_eventfd counter)"

text \<open>
  The body of the loop over the completions: the service, the eventfd counter, and the
  operations collected so far (with the value each is given).
\<close>

definition on_cqe :: "cqe \<Rightarrow> io_service \<Rightarrow> nat \<Rightarrow> io_service \<times> nat \<times> (nat \<times> int \<times> int) list" where
  "on_cqe c svc counter =
    (if cqe_user_data c = remote_queue_eventfd_user_data svc then
       (let (svc, counter) = on_remote_queue_eventfd_poll_complete svc counter in
        (svc\<lparr>m_remote_queue_eventfd_poll_sqe_submitted := False\<rparr>, counter, []))
     else if cqe_user_data c = 0 then (svc, counter, [])
     else (svc, counter, [(cqe_user_data c, cqe_res c, cqe_flags c)]))"

text \<open>The first statement of an iteration of \<open>run\<close>.\<close>

definition run_top :: "io_service \<Rightarrow> io_service" where
  "run_top svc =
    (if \<not> m_remote_queue_eventfd_poll_sqe_submitted svc
     then (let (svc, ok) = submit_eventfd_poll_sqe svc in
       svc\<lparr>m_remote_queue_eventfd_poll_sqe_submitted := ok\<rparr>)
     else svc)"

section \<open>Scheduling operations\<close>

text \<open>\<open>schedule()\<close> and \<open>schedule(duration)\<close>: awaiting moves the coroutine to the service's thread.\<close>

definition schedule_operation :: "nat \<Rightarrow> int option \<Rightarrow> nat \<Rightarrow> async_operation" where
  "schedule_operation service duration self =
    api_operation (Some service) (Some On_own_completion) duration None self"

definition schedule_await_ready :: "bool \<Rightarrow> nat option \<Rightarrow> async_operation \<Rightarrow> bool" where
  "schedule_await_ready enable_timeout thread_io_service op \<longleftrightarrow>
    \<not> enable_timeout \<and> mp_service op = thread_io_service"

definition schedule_await_suspend :: "nat \<Rightarrow> async_operation \<Rightarrow> io_service \<Rightarrow> async_operation \<times> io_service \<times> bool" where
  "schedule_await_suspend h op svc =
    (let op = set_awaiting_coroutine h op in (op, schedule_remote (op_address op) svc))"

definition submit_timeout :: "async_operation \<Rightarrow> timespec \<Rightarrow> sqe list" where
  "submit_timeout op ts = try_submit_io
    \<lparr> sqe_prep = Prep_timeout ts, sqe_user_data = op_address op, sqe_link = False \<rparr>"

definition on_schedule_remote_complete :: "async_operation \<Rightarrow> async_operation \<times> effect" where
  "on_schedule_remote_complete op =
    (case get_timespec_ptr (m_timeout op) of
       Some ts \<Rightarrow> (set_callback On_operation_completed op, Submit (submit_timeout op ts))
     | None \<Rightarrow> (op, on_operation_completed op))"

definition schedule_execute :: "async_operation \<Rightarrow> async_operation \<times> effect" where
  "schedule_execute op =
    (case m_callback op of
       On_operation_completed \<Rightarrow> (op, on_operation_completed op)
     | On_own_completion \<Rightarrow> on_schedule_remote_complete op)"

section \<open>The running service\<close>

datatype loop_point =
    Top
  | Waiting
  | Draining "nat list"
  | Fetching
  | Executing "nat list"
  | Stopped

record world =
  w_svc :: io_service
  w_pc :: loop_point
  w_event :: nat
  w_armed :: bool
  w_cq :: "cqe list"
  w_writers :: nat
  w_stop_token :: bool
  w_scheduled :: "nat list"
  w_fetched :: "nat list"
  w_arrived :: "nat list"
  w_executed :: "nat list"

text \<open>
  \<open>w_event\<close> is the eventfd's counter, \<open>w_armed\<close> whether the kernel holds a poll request on it,
  \<open>w_writers\<close> the number of threads between the push and the write. The last four are logs: the
  operations pushed to the remote queue, taken from it, put into the local queue, executed.
\<close>

definition w_init :: "world \<Rightarrow> bool" where
  "w_init w \<longleftrightarrow> (\<exists>this fd. w = \<lparr> w_svc = fst (io_service_new this fd None), w_pc = Top, w_event = 0,
    w_armed = False, w_cq = [], w_writers = 0, w_stop_token = False,
    w_scheduled = [], w_fetched = [], w_arrived = [], w_executed = [] \<rparr>)"

definition poll_cqe :: "world \<Rightarrow> cqe" where
  "poll_cqe w = \<lparr> cqe_user_data = remote_queue_eventfd_user_data (w_svc w), cqe_res = 1, cqe_flags = 0 \<rparr>"

text \<open>\<open>io_uring_submit_and_wait\<close> hands the prepared entries to the kernel; a poll entry arms the poll.\<close>

definition flush_ring :: "io_service \<Rightarrow> bool \<Rightarrow> io_service \<times> bool" where
  "flush_ring svc armed =
    (svc\<lparr>m_ring := []\<rparr>,
     armed \<or> (\<exists>e \<in> set (m_ring svc). sqe_user_data e = remote_queue_eventfd_user_data svc))"

text \<open>Steps of the loop itself, of the pending writers and of the kernel's poll.\<close>

inductive internal_step :: "world \<Rightarrow> world \<Rightarrow> bool" where
  loop_top: "w_pc w = Top \<Longrightarrow> \<not> w_stop_token w \<Longrightarrow> flush_ring (run_top (w_svc w)) (w_armed w) = (svc, armed) \<Longrightarrow>
    internal_step w (w\<lparr>w_svc := svc, w_armed := armed, w_pc := Waiting\<rparr>)"
| loop_stop: "w_pc w = Top \<Longrightarrow> w_stop_token w \<Longrightarrow> internal_step w (w\<lparr>w_pc := Stopped\<rparr>)"
| loop_wake: "w_pc w = Waiting \<Longrightarrow> w_cq w \<noteq> [] \<Longrightarrow> internal_step w (w\<lparr>w_pc := Draining []\<rparr>)"
| drain_one: "w_pc w = Draining acc \<Longrightarrow> w_cq w = c # cq \<Longrightarrow>
    on_cqe c (w_svc w) (w_event w) = (svc, counter, vs) \<Longrightarrow>
    internal_step w (w\<lparr>w_svc := svc, w_event := counter, w_cq := cq, w_pc := Draining (acc @ map fst vs)\<rparr>)"
| drain_end: "w_pc w = Draining acc \<Longrightarrow> w_cq w = [] \<Longrightarrow>
    internal_step w (w\<lparr>w_svc := schedule_local_list acc (w_svc w), w_arrived := w_arrived w @ acc, w_pc := Fetching\<rparr>)"
| fetch: "w_pc w = Fetching \<Longrightarrow> svc1 = get_remote_queue_operation_bases (w_svc w) \<Longrightarrow>
    execute_pending_local svc1 = (svc2, todo) \<Longrightarrow>
    internal_step w (w\<lparr>w_svc := svc2, w_fetched := w_fetched w @ m_remote_queue (w_svc w),
      w_arrived := w_arrived w @ m_remote_queue (w_svc w), w_pc := Executing todo\<rparr>)"
| exec_one: "w_pc w = Executing (a # todo) \<Longrightarrow>
    internal_step w (w\<lparr>w_executed := w_executed w @ [a], w_pc := Executing todo\<rparr>)"
| exec_end: "w_pc w = Executing [] \<Longrightarrow> internal_step w (w\<lparr>w_pc := Top\<rparr>)"
| write_eventfd: "w_writers w = Suc n \<Longrightarrow>
    internal_step w (w\<lparr>w_writers := n, w_event := enable_remote_queue_eventfd (w_event w)\<rparr>)"
| poll_fires: "w_armed w \<Longrightarrow> 0 < w_event w \<Longrightarrow>
    internal_step w (w\<lparr>w_armed := False, w_cq := w_cq w @ [poll_cqe w]\<rparr>)"

text \<open>
  What happens from outside: an operation is scheduled from some thread, a running callback
  schedules locally or submits, the kernel completes an operation or a linked timeout, a stop
  is requested in one of two ways.
\<close>

inductive external_step :: "world \<Rightarrow> world \<Rightarrow> bool" where
  ext_schedule: "schedule_remote a (w_svc w) = (svc, need) \<Longrightarrow>
    external_step w (w\<lparr>w_svc := svc, w_writers := w_writers w + (if need then 1 else 0),
      w_scheduled := w_scheduled w @ [a]\<rparr>)"
| ext_local: "w_pc w = Executing todo \<Longrightarrow>
    external_step w (w\<lparr>w_svc := schedule_local a (w_svc w), w_arrived := w_arrived w @ [a]\<rparr>)"
| ext_submit: "w_pc w = Executing todo \<Longrightarrow>
    \<forall>e \<in> set es. sqe_user_data e \<noteq> remote_queue_eventfd_user_data (w_svc w) \<Longrightarrow>
    external_step w (w\<lparr>w_svc := (w_svc w)\<lparr>m_ring := m_ring (w_svc w) @ es\<rparr>\<rparr>)"
| ext_complete: "cqe_user_data c \<noteq> remote_queue_eventfd_user_data (w_svc w) \<Longrightarrow>
    external_step w (w\<lparr>w_cq := w_cq w @ [c]\<rparr>)"
| ext_request_stop: "request_stop spurious (w_svc w) = (svc, enable) \<Longrightarrow>
    external_step w (w\<lparr>w_svc := svc, w_writers := w_writers w + (if enable then 1 else 0)\<rparr>)"
| ext_stop_token: "external_step w (w\<lparr>w_stop_token := True\<rparr>)"

definition io_step :: "world \<Rightarrow> world \<Rightarrow> bool" where
  "io_step w w' \<longleftrightarrow> internal_step w w' \<or> external_step w w'"

inductive_cases internal_stepE: "internal_step w w'"
inductive_cases external_stepE: "external_step w w'"

section \<open>The invariant\<close>

abbreviation (input) poll_data :: "world \<Rightarrow> nat" where
  "poll_data w \<equiv> remote_queue_eventfd_user_data (w_svc w)"

primrec running :: "loop_point \<Rightarrow> nat list" where
  "running Top = []"
| "running Waiting = []"
| "running (Draining acc) = []"
| "running Fetching = []"
| "running (Executing todo) = todo"
| "running Stopped = []"

primrec about_to_fetch :: "loop_point \<Rightarrow> bool" where
  "about_to_fetch Top = False"
| "about_to_fetch Waiting = False"
| "about_to_fetch (Draining acc) = True"
| "about_to_fetch Fetching = True"
| "about_to_fetch (Executing todo) = False"
| "about_to_fetch Stopped = False"

definition poll_tracked :: "world \<Rightarrow> bool" where
  "poll_tracked w \<longleftrightarrow>
    (\<forall>e \<in> set (m_ring (w_svc w)). sqe_user_data e \<noteq> poll_data w) \<and>
    (if w_armed w then 1 else 0) + length (filter (\<lambda>c. cqe_user_data c = poll_data w) (w_cq w)) =
      (if m_remote_queue_eventfd_poll_sqe_submitted (w_svc w) then 1 else 0) \<and>
    (w_pc w = Waiting \<longrightarrow> m_remote_queue_eventfd_poll_sqe_submitted (w_svc w))"

definition wakeup_pending :: "world \<Rightarrow> bool" where
  "wakeup_pending w \<longleftrightarrow> (m_remote_queue (w_svc w) \<noteq> [] \<longrightarrow>
    0 < w_writers w \<or> 0 < w_event w \<or> about_to_fetch (w_pc w))"

definition queues_fifo :: "world \<Rightarrow> bool" where
  "queues_fifo w \<longleftrightarrow> w_scheduled w = w_fetched w @ m_remote_queue (w_svc w) \<and>
    w_arrived w = w_executed w @ running (w_pc w) @ m_local_queue (w_svc w) \<and>
    subseq (w_fetched w) (w_arrived w)"

definition io_inv :: "world \<Rightarrow> bool" where
  "io_inv w \<longleftrightarrow> poll_tracked w \<and> wakeup_pending w \<and> queues_fifo w"

lemmas svc_defs = flush_ring_def run_top_def submit_eventfd_poll_sqe_def try_submit_io_def on_cqe_def
  on_remote_queue_eventfd_poll_complete_def disable_remote_queue_eventfd_def
  enable_remote_queue_eventfd_def schedule_local_list_def schedule_local_def schedule_remote_def
  get_remote_queue_operation_bases_def execute_pending_local_def request_stop_def poll_cqe_def
  remote_queue_eventfd_user_data_def

lemma poll_tracked_step: "poll_tracked w \<Longrightarrow> io_step w w' \<Longrightarrow> poll_tracked w'"
  unfolding io_step_def
  by (elim disjE internal_stepE external_stepE)
    (auto simp: poll_tracked_def svc_defs Let_def split: if_splits)

lemma wakeup_pending_step: "wakeup_pending w \<Longrightarrow> io_step w w' \<Longrightarrow> wakeup_pending w'"
  unfolding io_step_def
  by (elim disjE internal_stepE external_stepE)
    (auto simp: wakeup_pending_def svc_defs Let_def split: if_splits)

lemma queues_fifo_step: "queues_fifo w \<Longrightarrow> io_step w w' \<Longrightarrow> queues_fifo w'"
  unfolding io_step_def
  by (elim disjE internal_stepE external_stepE)
    (auto simp: queues_fifo_def svc_defs Let_def intro: list_emb_append2 list_emb_append_mono
      simp flip: append_assoc split: if_splits)

interpretation loop: step_system w_init io_step io_inv
proof
  show "io_inv w" if "w_init w" for w
    using that by (auto simp: w_init_def io_inv_def poll_tracked_def wakeup_pending_def queues_fifo_def
        io_service_new_def)
  show "io_inv t" if "io_inv s" "io_step s t" for s t
    using that by (auto simp: io_inv_def intro: poll_tracked_step wakeup_pending_step queues_fifo_step)
qed

section \<open>Progress\<close>

text \<open>Runs of internal steps only: nothing but the loop, the writers under way and the poll.\<close>

abbreviation (input) internal_run :: "world \<Rightarrow> world \<Rightarrow> bool" where
  "internal_run \<equiv> internal_step\<^sup>*\<^sup>*"

lemma run_executing:
  "w_pc w = Executing todo \<Longrightarrow> internal_run w (w\<lparr>w_executed := w_executed w @ todo, w_pc := Executing []\<rparr>)"
proof (induction todo arbitrary: w)
  case Nil
  then have "w\<lparr>w_executed := w_executed w @ [], w_pc := Executing []\<rparr> = w" by simp
  then show ?case by simp
next
  case (Cons a todo)
  let ?w = "w\<lparr>w_executed := w_executed w @ [a], w_pc := Executing todo\<rparr>"
  from Cons.prems have "internal_step w ?w" by (rule exec_one)
  moreover from Cons.IH [of ?w] have "internal_run ?w (w\<lparr>w_executed := w_executed w @ a # todo, w_pc := Executing []\<rparr>)"
    by simp
  ultimately show ?case by (rule converse_rtranclp_into_rtranclp)
qed

lemma run_fetching:
  assumes "w_pc w = Fetching"
  shows "\<exists>w'. internal_run w w' \<and>
    w_executed w' = w_executed w @ m_local_queue (w_svc w) @ m_remote_queue (w_svc w)"
proof -
  obtain svc2 todo where s: "execute_pending_local (get_remote_queue_operation_bases (w_svc w)) = (svc2, todo)"
    by fastforce
  then have todo: "todo = m_local_queue (w_svc w) @ m_remote_queue (w_svc w)"
    by (auto simp: svc_defs Let_def split: if_splits)
  from internal_step.fetch [OF assms refl s] obtain w1 where "internal_step w w1"
    and w1: "w_pc w1 = Executing todo" "w_executed w1 = w_executed w"
    by force
  with run_executing [OF w1(1)] show ?thesis
    using w1 todo by (metis converse_rtranclp_into_rtranclp world.select_convs(11) world.surjective world.update_convs(11,2))
qed

lemma run_draining:
  "w_pc w = Draining acc \<Longrightarrow>
    \<exists>w'. internal_run w w' \<and> w_pc w' = Fetching \<and> m_remote_queue (w_svc w') = m_remote_queue (w_svc w) \<and>
      w_executed w' = w_executed w"
proof (induction "length (w_cq w)" arbitrary: w acc)
  case 0
  let ?w = "w\<lparr>w_svc := schedule_local_list acc (w_svc w), w_arrived := w_arrived w @ acc, w_pc := Fetching\<rparr>"
  from 0 have "internal_step w ?w" by (intro drain_end) simp_all
  then have "internal_run w ?w" by (rule r_into_rtranclp)
  then show ?case by (intro exI [of _ ?w]) (simp add: schedule_local_list_def)
next
  case (Suc n)
  then obtain c cq where cq: "w_cq w = c # cq" by (cases "w_cq w") auto
  obtain svc counter vs where c: "on_cqe c (w_svc w) (w_event w) = (svc, counter, vs)"
    by (metis prod_cases3)
  let ?w = "w\<lparr>w_svc := svc, w_event := counter, w_cq := cq, w_pc := Draining (acc @ map fst vs)\<rparr>"
  from drain_one [OF Suc.prems cq c] have "internal_step w ?w" .
  moreover have "m_remote_queue svc = m_remote_queue (w_svc w)"
    using c by (auto simp: svc_defs Let_def split: if_splits)
  moreover from Suc.hyps(1) [of ?w] Suc.hyps(2) cq obtain w' where "internal_run ?w w'" "w_pc w' = Fetching"
    "m_remote_queue (w_svc w') = m_remote_queue svc" "w_executed w' = w_executed w" by auto
  ultimately show ?case by (metis converse_rtranclp_into_rtranclp)
qed

text \<open>A world that has woken up, or is about to, executes everything in the remote queue.\<close>

definition executes_remote :: "world \<Rightarrow> bool" where
  "executes_remote w \<longleftrightarrow> (\<exists>w' before after. internal_run w w' \<and>
    w_executed w' = w_executed w @ before @ m_remote_queue (w_svc w) @ after)"

lemma executes_remote_back:
  assumes "internal_run w w1" and "executes_remote w1"
    and "m_remote_queue (w_svc w1) = m_remote_queue (w_svc w)"
    and "w_executed w1 = w_executed w @ xs"
  shows "executes_remote w"
proof -
  from assms(2) obtain w' before after where "internal_run w1 w'"
    "w_executed w' = w_executed w1 @ before @ m_remote_queue (w_svc w1) @ after"
    unfolding executes_remote_def by blast
  with assms have "internal_run w w'"
    "w_executed w' = w_executed w @ (xs @ before) @ m_remote_queue (w_svc w) @ after"
    by (auto intro: rtranclp_trans)
  then show ?thesis unfolding executes_remote_def by blast
qed

lemma fetching_executes: "w_pc w = Fetching \<Longrightarrow> executes_remote w"
  using run_fetching [of w] by (force simp: executes_remote_def)

lemma draining_executes:
  assumes "w_pc w = Draining acc"
  shows "executes_remote w"
proof -
  from run_draining [OF assms] obtain w' where "internal_run w w'" "w_pc w' = Fetching"
    "m_remote_queue (w_svc w') = m_remote_queue (w_svc w)" "w_executed w' = w_executed w @ []" by auto
  with executes_remote_back [of w w' "[]"] fetching_executes [of w'] show ?thesis by simp
qed

lemma waiting_executes_cq:
  assumes "w_pc w = Waiting" and "w_cq w \<noteq> []"
  shows "executes_remote w"
  using executes_remote_back [OF r_into_rtranclp [of internal_step, OF loop_wake [OF assms]], of "[]"]
    draining_executes [of "w\<lparr>w_pc := Draining []\<rparr>"] by simp

lemma waiting_executes_event:
  assumes "poll_tracked w" and "w_pc w = Waiting" and "0 < w_event w"
  shows "executes_remote w"
proof (cases "w_cq w = []")
  case True
  with assms have "w_armed w" by (auto simp: poll_tracked_def split: if_splits)
  from r_into_rtranclp [of internal_step, OF poll_fires [OF this assms(3)]] show ?thesis
    by (rule executes_remote_back [where xs = "[]"]) (use assms in \<open>auto intro: waiting_executes_cq\<close>)
qed (use assms in \<open>auto intro: waiting_executes_cq\<close>)

lemma waiting_executes:
  assumes "io_inv w" and "w_pc w = Waiting" and "m_remote_queue (w_svc w) \<noteq> []"
  shows "executes_remote w"
proof (cases "0 < w_event w")
  case True
  with assms show ?thesis by (auto simp: io_inv_def intro: waiting_executes_event)
next
  case False
  with assms obtain n where n: "w_writers w = Suc n"
    by (auto simp: io_inv_def wakeup_pending_def gr0_conv_Suc)
  let ?w = "w\<lparr>w_writers := n, w_event := enable_remote_queue_eventfd (w_event w)\<rparr>"
  from n have step: "internal_step w ?w" by (rule write_eventfd)
  with assms(1) have "poll_tracked ?w"
    by (auto simp: io_inv_def io_step_def intro: poll_tracked_step)
  with assms(2) have "executes_remote ?w"
    by (intro waiting_executes_event) (simp_all add: enable_remote_queue_eventfd_def)
  with executes_remote_back [OF r_into_rtranclp [of internal_step, OF step], of "[]"] show ?thesis by simp
qed

lemma run_top_simps [simp]:
  "m_remote_queue (fst (flush_ring (run_top svc) armed)) = m_remote_queue svc"
  by (simp add: svc_defs)

lemma top_executes:
  assumes "io_inv w" and "w_pc w = Top" and "\<not> w_stop_token w" and "m_remote_queue (w_svc w) \<noteq> []"
  shows "executes_remote w"
proof -
  obtain svc armed where f: "flush_ring (run_top (w_svc w)) (w_armed w) = (svc, armed)" by fastforce
  let ?w = "w\<lparr>w_svc := svc, w_armed := armed, w_pc := Waiting\<rparr>"
  from loop_top [OF assms(2,3) f] have step: "internal_step w ?w" .
  have q: "m_remote_queue svc = m_remote_queue (w_svc w)"
    using run_top_simps [of "w_svc w" "w_armed w"] f by simp
  from step assms(1) have "io_inv ?w" by (auto simp: io_step_def intro: loop.inv_step)
  with q assms(4) have "executes_remote ?w" by (intro waiting_executes) simp_all
  with q executes_remote_back [OF r_into_rtranclp [of internal_step, OF step], of "[]"] show ?thesis by simp
qed

lemma executing_executes:
  assumes "io_inv w" and "w_pc w = Executing todo" and "\<not> w_stop_token w" and "m_remote_queue (w_svc w) \<noteq> []"
  shows "executes_remote w"
proof -
  let ?w1 = "w\<lparr>w_executed := w_executed w @ todo, w_pc := Executing []\<rparr>"
  let ?w = "?w1\<lparr>w_pc := Top\<rparr>"
  have "internal_run w ?w1" by (rule run_executing [OF assms(2)])
  moreover have "internal_step ?w1 ?w" by (rule exec_end) simp
  ultimately have run: "internal_run w ?w" by (rule rtranclp.rtrancl_into_rtrancl)
  then have "io_step\<^sup>*\<^sup>* w ?w"
    by (rule mono_rtranclp [rule_format, rotated]) (simp add: io_step_def)
  then have "io_inv ?w" by (rule loop.inv_rtranclp [OF assms(1)])
  then have "executes_remote ?w" using assms(3,4) by (intro top_executes) simp_all
  then show ?thesis by (rule executes_remote_back [OF run, where xs = todo]) simp_all
qed

section \<open>Properties\<close>

text \<open>
  C3: No wake-up is lost. Whatever the interleaving of producers, completions and the loop, when
  the loop is blocked in the kernel while the remote queue holds an operation, either a
  producer has yet to write to the eventfd, or the eventfd is readable and the loop's poll on
  it is armed or has already completed.
\<close>

theorem no_lost_wakeup:
  assumes "reaches w_init io_step w" and "w_pc w = Waiting" and "m_remote_queue (w_svc w) \<noteq> []"
  shows "0 < w_writers w \<or> 0 < w_event w \<and>
    (w_armed w \<or> (\<exists>c \<in> set (w_cq w). cqe_user_data c = remote_queue_eventfd_user_data (w_svc w)))"
  using loop.inv_reaches [OF assms(1)] assms(2,3)
  by (cases "w_armed w") (auto simp: io_inv_def poll_tracked_def wakeup_pending_def length_Suc_conv filter_eq_Cons_iff)

text \<open>
  C8: Every scheduled operation runs. From every reachable state of a service that is not being
  stopped, the steps of the loop, of the producers' pending writes and of the kernel's poll
  alone lead to a state in which all operations of the remote queue have been executed, in
  their order: nothing else has to happen first.
\<close>

theorem scheduled_operations_run:
  assumes "reaches w_init io_step w" and "\<not> w_stop_token w" and "w_pc w \<noteq> Stopped"
  shows "\<exists>w' before after. internal_step\<^sup>*\<^sup>* w w' \<and>
    w_executed w' = w_executed w @ before @ m_remote_queue (w_svc w) @ after"
proof -
  note inv = loop.inv_reaches [OF assms(1)]
  have "executes_remote w" if "m_remote_queue (w_svc w) \<noteq> []"
    using inv that assms(2,3)
    by (cases "w_pc w")
      (auto intro: top_executes waiting_executes draining_executes fetching_executes executing_executes)
  moreover have "executes_remote w" if "m_remote_queue (w_svc w) = []"
    unfolding executes_remote_def using that by (intro exI [of _ w] exI [of _ "[]"]) simp
  ultimately show ?thesis unfolding executes_remote_def by blast
qed

text \<open>
  C9: Operations run at most once each time they are queued, and in order: in every reachable
  state what has been executed, is being executed and waits in the local queue is exactly
  what arrived there, in that order, and the operations scheduled from other threads arrive
  in the order they were scheduled, those not yet arrived being exactly the remote queue.
\<close>

theorem operations_run_in_order:
  assumes "reaches w_init io_step w"
  shows "w_arrived w = w_executed w @ running (w_pc w) @ m_local_queue (w_svc w) \<and>
    w_scheduled w = w_fetched w @ m_remote_queue (w_svc w) \<and> subseq (w_fetched w) (w_arrived w)"
  using loop.inv_reaches [OF assms] unfolding io_inv_def queues_fifo_def by blast

definition stopped_by_token :: "world \<Rightarrow> bool" where
  "stopped_by_token w \<longleftrightarrow> (w_pc w = Stopped \<longrightarrow> w_stop_token w)"

interpretation stopping: step_system w_init io_step stopped_by_token
proof
  show "stopped_by_token w" if "w_init w" for w
    using that by (auto simp: w_init_def stopped_by_token_def)
  show "stopped_by_token t" if "stopped_by_token s" "io_step s t" for s t
    using that unfolding io_step_def
    by (elim disjE internal_stepE external_stepE) (auto simp: stopped_by_token_def)
qed

text \<open>
  \<open>request_stop()\<close> does not stop the service: the flag it sets is never read. The loop leaves
  \<open>run\<close> only if the stop token it was given is triggered, however often a stop was requested.
\<close>

theorem request_stop_is_ignored:
  assumes "reaches w_init io_step w" and "ma_is_stop_requested (w_svc w)" and "\<not> w_stop_token w"
  shows "w_pc w \<noteq> Stopped"
  using stopping.inv_reaches [OF assms(1)] assms(3) by (auto simp: stopped_by_token_def)

text \<open>A concrete run: the loop blocks, then another thread schedules an operation, then a stop is requested.\<close>

definition sample_start :: world where
  "sample_start = \<lparr> w_svc = fst (io_service_new 1 5 None), w_pc = Top, w_event = 0, w_armed = False, w_cq = [],
    w_writers = 0, w_stop_token = False, w_scheduled = [], w_fetched = [], w_arrived = [], w_executed = [] \<rparr>"

definition sample_blocked :: world where
  "sample_blocked = sample_start\<lparr>w_svc := (w_svc sample_start)\<lparr>m_remote_queue_eventfd_poll_sqe_submitted := True\<rparr>,
    w_armed := True, w_pc := Waiting\<rparr>"

definition sample_scheduled :: world where
  "sample_scheduled = sample_blocked\<lparr>w_svc := (w_svc sample_blocked)\<lparr>m_remote_queue := [64]\<rparr>,
    w_writers := 1, w_scheduled := [64]\<rparr>"

definition sample_stop_requested :: world where
  "sample_stop_requested = sample_scheduled\<lparr>w_svc := (w_svc sample_scheduled)\<lparr>ma_is_stop_requested := True\<rparr>,
    w_writers := w_writers sample_scheduled + 1\<rparr>"

lemmas sample_defs = sample_start_def sample_blocked_def sample_scheduled_def sample_stop_requested_def io_service_new_def

lemma sample_scheduled_reached: "reaches w_init io_step sample_scheduled"
proof -
  have "reaches w_init io_step sample_start"
    by (rule reaches_init) (auto simp: w_init_def sample_start_def)
  moreover have "internal_step sample_start sample_blocked"
    using loop_top [of sample_start "w_svc sample_blocked" True]
    by (simp add: sample_defs svc_defs)
  moreover have "external_step sample_blocked sample_scheduled"
    using ext_schedule [of 64 sample_blocked "w_svc sample_scheduled" True]
    by (simp add: sample_defs svc_defs)
  ultimately show ?thesis unfolding io_step_def by (blast intro: reaches_step)
qed

lemma sample_stop_requested_reached: "reaches w_init io_step sample_stop_requested"
proof -
  have "external_step sample_scheduled sample_stop_requested"
    using ext_request_stop [of False sample_scheduled "w_svc sample_stop_requested" True]
    by (simp add: sample_defs svc_defs)
  with sample_scheduled_reached show ?thesis unfolding io_step_def by (blast intro: reaches_step)
qed

lemma sample_scheduled_simps [simp]:
  "w_pc sample_scheduled = Waiting" "m_remote_queue (w_svc sample_scheduled) = [64]"
  "w_stop_token sample_scheduled = False" "w_executed sample_scheduled = []" "w_writers sample_scheduled = 1"
  by (simp_all add: sample_defs)

theorem no_lost_wakeup_witness:
  "w_pc sample_scheduled = Waiting \<and> m_remote_queue (w_svc sample_scheduled) = [64] \<and> 0 < w_writers sample_scheduled"
  using no_lost_wakeup [OF sample_scheduled_reached] by simp

theorem scheduled_operations_run_witness:
  "\<exists>w'. internal_step\<^sup>*\<^sup>* sample_scheduled w' \<and> 64 \<in> set (w_executed w')"
  using scheduled_operations_run [OF sample_scheduled_reached] by force

theorem operations_run_in_order_witness:
  "w_scheduled sample_scheduled = w_fetched sample_scheduled @ [64]"
  using operations_run_in_order [OF sample_scheduled_reached] by simp

theorem request_stop_is_ignored_witness:
  "ma_is_stop_requested (w_svc sample_stop_requested) \<and> w_pc sample_stop_requested \<noteq> Stopped"
  using request_stop_is_ignored [OF sample_stop_requested_reached] by (simp add: sample_defs)

text \<open>
  Awaiting \<open>schedule(duration)\<close> suspends even on the service's own thread, is handed over through
  the remote queue, then submits exactly one timer carrying the whole duration, and resumes
  the coroutine on the timer's completion; without a duration it resumes when it is executed
  and does not suspend at all on the service's own thread.
\<close>

theorem schedule_resumes:
  "let op = schedule_operation s duration a; (op1, svc', need) = schedule_await_suspend h op svc;
       (op2, eff) = schedule_execute op1 in
    schedule_await_ready (duration \<noteq> None) (Some s) op = (duration = None) \<and>
    m_remote_queue svc' = m_remote_queue svc @ [a] \<and>
    (case duration of
       None \<Rightarrow> eff = Resume (Some h)
     | Some ns \<Rightarrow> eff = Submit [\<lparr> sqe_prep = Prep_timeout (timeout_storage ns), sqe_user_data = a, sqe_link = False \<rparr>] \<and>
         snd (schedule_execute (set_value r 0 op2)) = Resume (Some h))"
  by (cases duration)
    (simp_all add: schedule_operation_def schedule_await_suspend_def set_awaiting_coroutine_def schedule_remote_def
      schedule_execute_def on_schedule_remote_complete_def get_timespec_ptr_def on_operation_completed_def
      schedule_await_ready_def submit_timeout_def try_submit_io_def set_callback_def Let_def
      api_operation_def async_operation_new_def)

end
