(* ===== verification/Ownership.thy ===== *)
theory Ownership
  imports Socket_Async
begin

text \<open>
  Who owns which descriptor in a program over many descriptor objects, and which operations of
  the library keep that sound. The objects are the \<open>file_descriptor_base\<close> parts of sockets and
  files; the operations are every member function that constructs, moves, sets, closes or
  destroys one (\<open>file_descriptor.h\<close>) and the library's operations that open or close a
  descriptor (\<open>socket/impl/socket_init.h\<close>, \<open>accept.h\<close>, \<open>close.h\<close>, \<open>file/impl/openat.h\<close>), each run
  by its own model and without guards of its own.
\<close>

section \<open>Programs over descriptor objects\<close>

text \<open>
  The state: the live objects, the descriptors the process has open, and the system calls made.
  \<open>Ev_adopt\<close> and \<open>Ev_set\<close> take a number from the caller, who has opened it unless it is negative.
  \<open>Ev_accept a r p e\<close> is an accept into object \<open>a\<close> that completes with result \<open>r\<close> and address
  \<open>p\<close>, called with the error code \<open>e\<close> or without one; \<open>Ev_openat a r\<close> an \<open>openat\<close> that completes
  with \<open>r\<close>; \<open>Ev_async_close a r\<close> the last read of the asynchronous \<open>close\<close>, with result \<open>r\<close>.
\<close>

record fd_state =
  fs_objects :: "nat \<rightharpoonup> file_descriptor_base"
  fs_open :: "int set"
  fs_trace :: trace

datatype fd_event =
    Ev_default nat
  | Ev_adopt nat int
  | Ev_move nat nat
  | Ev_set nat int
  | Ev_close nat
  | Ev_destroy nat
  | Ev_init nat
  | Ev_accept nat int sockaddr_in "error_code option"
  | Ev_openat nat int
  | Ev_async_close nat int

definition fs_object :: "fd_state \<Rightarrow> nat \<Rightarrow> file_descriptor_base" where
  "fs_object s a = (case fs_objects s a of Some f \<Rightarrow> f | None \<Rightarrow> fd_default)"

definition as_socket :: "file_descriptor_base \<Rightarrow> socket_t" where
  "as_socket f = fd_set (fd_get f) socket_new"

definition opened :: "int \<Rightarrow> int set" where
  "opened fd = (if fd \<ge> 0 then {fd} else {})"

definition fs_put :: "nat \<Rightarrow> file_descriptor_base option \<Rightarrow> trace \<Rightarrow> int \<Rightarrow> fd_state \<Rightarrow> fd_state" where
  "fs_put a x tr fd s =
    \<lparr> fs_objects = (fs_objects s)(a := x),
      fs_open = opened fd \<union> closes (drop (length (fs_trace s)) tr) (fs_open s), fs_trace = tr \<rparr>"

definition init_calls :: "file_descriptor_base \<Rightarrow> trace \<Rightarrow> trace" where
  "init_calls f tr = (if m_fd f \<noteq> -1 then tr @ [Sys_close (m_fd f)] else tr)"

definition init_opens :: "kernel \<Rightarrow> nat \<Rightarrow> fd_state \<Rightarrow> int" where
  "init_opens k a s = sys_ret k socket_call (init_calls (fs_object s a) (fs_trace s))"

fun fd_exec :: "kernel \<Rightarrow> fd_event \<Rightarrow> fd_state \<Rightarrow> fd_state" where
  "fd_exec k (Ev_default a) s = fs_put a (Some fd_default) (fs_trace s) (-1) s"
| "fd_exec k (Ev_adopt a fd) s = fs_put a (Some (fd_of fd)) (fs_trace s) fd s"
| "fd_exec k (Ev_move b a) s =
    (let (f, g) = fd_move (fs_object s b) in
     fs_put a (Some f) (fs_trace s) (-1) (fs_put b (Some g) (fs_trace s) (-1) s))"
| "fd_exec k (Ev_set a fd) s = fs_put a (Some (fd_set fd (fs_object s a))) (fs_trace s) fd s"
| "fd_exec k (Ev_close a) s =
    (let (f, tr) = fd_close (fs_object s a) (fs_trace s) in fs_put a (Some f) tr (-1) s)"
| "fd_exec k (Ev_destroy a) s = fs_put a None (fd_destroy (fs_object s a) (fs_trace s)) (-1) s"
| "fd_exec k (Ev_init a) s =
    (let (f, error, tr) = init_ec k (as_socket (fs_object s a)) (fs_trace s) in
     fs_put a (Some (fd_of (fd_get f))) tr (init_opens k a s) s)"
| "fd_exec k (Ev_accept a r p e) s =
    (let op = accept_complete r p (accept (Some 0) None e 0);
         (f, result) = accept_get_result socket_t_modules op (as_socket (fs_object s a)) in
     fs_put a (Some (fd_of (fd_get f))) (fs_trace s) r s)"
| "fd_exec k (Ev_openat a r) s =
    (let op = set_value r 0 (openat (Some 0) [] 0 0 0);
         (f, result) = openat_get_result False op (fs_object s a) in
     fs_put a (Some f) (fs_trace s) r s)"
| "fd_exec k (Ev_async_close a r) s =
    (let (op, resumed, tr) = close_drive k (as_socket (fs_object s a)) [r] (close_new (Some 0) None None 0)
           (fs_trace s) in
     fs_put a (fs_objects s a) tr (-1) s)"

text \<open>
  What can happen: an object is constructed where none is alive and used where one is, the
  asynchronous \<open>close\<close> starts only on a valid object, and the kernel hands out descriptors that
  are not open.
\<close>

definition fs_live :: "nat \<Rightarrow> fd_state \<Rightarrow> bool" where
  "fs_live a s \<longleftrightarrow> fs_objects s a \<noteq> None"

fun fd_enabled :: "kernel \<Rightarrow> fd_event \<Rightarrow> fd_state \<Rightarrow> bool" where
  "fd_enabled k (Ev_default a) s = (\<not> fs_live a s)"
| "fd_enabled k (Ev_adopt a fd) s = (\<not> fs_live a s)"
| "fd_enabled k (Ev_move b a) s = (fs_live b s \<and> \<not> fs_live a s)"
| "fd_enabled k (Ev_set a fd) s = fs_live a s"
| "fd_enabled k (Ev_close a) s = fs_live a s"
| "fd_enabled k (Ev_destroy a) s = fs_live a s"
| "fd_enabled k (Ev_init a) s =
    (fs_live a s \<and> init_opens k a s \<notin> fs_open s - {m_fd (fs_object s a)})"
| "fd_enabled k (Ev_accept a r p e) s = (fs_live a s \<and> r \<notin> fs_open s)"
| "fd_enabled k (Ev_openat a r) s = (fs_live a s \<and> r \<notin> fs_open s)"
| "fd_enabled k (Ev_async_close a r) s = (fs_live a s \<and> close_initial_check (as_socket (fs_object s a)) \<and> r \<le> 0)"

text \<open>The calls that keep ownership sound, event by event.\<close>

definition fresh :: "int \<Rightarrow> fd_state \<Rightarrow> bool" where
  "fresh fd s \<longleftrightarrow> fd < 0 \<or> fd \<notin> fs_open s"

fun fd_careful :: "kernel \<Rightarrow> fd_event \<Rightarrow> fd_state \<Rightarrow> bool" where
  "fd_careful k (Ev_default a) s = True"
| "fd_careful k (Ev_adopt a fd) s = fresh fd s"
| "fd_careful k (Ev_move b a) s = True"
| "fd_careful k (Ev_set a fd) s =
    (if valid (fs_object s a) then fd = m_fd (fs_object s a) else fresh fd s)"
| "fd_careful k (Ev_close a) s = valid (fs_object s a)"
| "fd_careful k (Ev_destroy a) s = True"
| "fd_careful k (Ev_init a) s =
    (m_fd (fs_object s a) = -1 \<or> valid (fs_object s a) \<and> init_opens k a s \<ge> 0)"
| "fd_careful k (Ev_accept a r p e) s =
    (r < 0 \<or> \<not> valid (fs_object s a) \<and> (case e of None \<Rightarrow> True | Some c \<Rightarrow> \<not> ec_set c))"
| "fd_careful k (Ev_openat a r) s = (r < 0 \<or> \<not> valid (fs_object s a))"
| "fd_careful k (Ev_async_close a r) s = (r < 0)"

definition fs_init :: "fd_state \<Rightarrow> bool" where
  "fs_init s \<longleftrightarrow> s = \<lparr> fs_objects = Map.empty, fs_open = {}, fs_trace = [] \<rparr>"

definition fd_step :: "kernel \<Rightarrow> fd_state \<Rightarrow> fd_state \<Rightarrow> bool" where
  "fd_step k s t \<longleftrightarrow> (\<exists>e. fd_enabled k e s \<and> fd_careful k e s \<and> t = fd_exec k e s)"

definition owners :: "fd_state \<Rightarrow> nat \<rightharpoonup> int" where
  "owners s = (\<lambda>a. owned (fs_objects s a))"

definition owned_once :: "fd_state \<Rightarrow> bool" where
  "owned_once s \<longleftrightarrow> one_owner (owners s) (fs_open s)"

definition double_closes :: "fd_state \<Rightarrow> fd_state \<Rightarrow> int list" where
  "double_closes s t = bad_closes (drop (length (fs_trace s)) (fs_trace t)) (fs_open s)"

section \<open>What each event does to the owners\<close>

lemma owners_put: "owners (fs_put a x tr fd s) = (owners s)(a := owned x)"
  by (auto simp: owners_def fs_put_def)

lemma fs_put_sel [simp]:
  "fs_open (fs_put a x tr fd s) = opened fd \<union> closes (drop (length (fs_trace s)) tr) (fs_open s)"
  "fs_trace (fs_put a x tr fd s) = tr"
  by (simp_all add: fs_put_def)

lemma owned_simps [simp]:
  "owned None = None"
  "owned (Some f) = (if m_fd f \<ge> 0 then Some (m_fd f) else None)"
  by (simp_all add: owned_def valid_def)

lemma opened_simps [simp]: "fd < 0 \<Longrightarrow> opened fd = {}" "0 \<le> fd \<Longrightarrow> opened fd = {fd}"
  by (simp_all add: opened_def)

lemma owners_object:
  "fs_live a s \<Longrightarrow> owners s a = (if m_fd (fs_object s a) \<ge> 0 then Some (m_fd (fs_object s a)) else None)"
  "\<not> fs_live a s \<Longrightarrow> owners s a = None"
  by (auto simp: fs_live_def fs_object_def owners_def)

text \<open>Replacing what one object owns while some descriptors are opened and some are closed.\<close>

lemma one_owner_keep:
  "one_owner m opn \<Longrightarrow> m a = x \<Longrightarrow> one_owner (m(a := x)) opn"
  by (metis fun_upd_triv)

lemma one_owner_add_iff:
  assumes "one_owner m opn" "m a = None"
  shows "one_owner (m(a \<mapsto> fd)) (insert fd opn) \<longleftrightarrow> fd \<notin> opn"
proof
  assume new: "one_owner (m(a \<mapsto> fd)) (insert fd opn)"
  show "fd \<notin> opn"
  proof
    assume "fd \<in> opn"
    with assms(1) obtain b where "m b = Some fd" by (auto simp: one_owner_def ran_def)
    with assms(2) have "b \<noteq> a" by auto
    from \<open>m b = Some fd\<close> this have "(m(a \<mapsto> fd)) b = Some fd" "(m(a \<mapsto> fd)) a = Some fd" by simp_all
    with new \<open>b \<noteq> a\<close> show False unfolding one_owner_def by blast
  qed
qed (rule one_owner_add [OF assms])

lemma one_owner_lost:
  "one_owner m opn \<Longrightarrow> m a = Some fd \<Longrightarrow> x \<noteq> Some fd \<Longrightarrow> fd \<in> opn' \<Longrightarrow> \<not> one_owner (m(a := x)) opn'"
  by (auto simp: one_owner_def ran_def)

lemma one_owner_dangling:
  "fd \<notin> opn \<Longrightarrow> \<not> one_owner (m(a \<mapsto> fd)) opn"
  by (simp add: one_owner_def) (metis fun_upd_same ranI)

lemma one_owner_open: "one_owner m opn \<Longrightarrow> m a = Some fd \<Longrightarrow> fd \<in> opn"
  by (auto simp: one_owner_def intro: ranI)

lemma owned_once_open: "owned_once s \<Longrightarrow> fd \<in> fs_open s \<Longrightarrow> 0 \<le> fd"
proof -
  assume "owned_once s" "fd \<in> fs_open s"
  then have "fd \<in> ran (owners s)" by (simp add: owned_once_def one_owner_def)
  then obtain a where "owned (fs_objects s a) = Some fd" by (auto simp: ran_def owners_def)
  then show "0 \<le> fd" by (cases "fs_objects s a") (auto split: if_splits)
qed

section \<open>Event by event\<close>

lemma init_on_object:
  "init_ec k (as_socket f) tr =
    (fd_set (if sys_ret k socket_call (init_calls f tr) \<ge> 0 then sys_ret k socket_call (init_calls f tr)
             else m_fd f) (as_socket f),
     if sys_ret k socket_call (init_calls f tr) \<ge> 0 then no_error
     else system_code (sys_errno k socket_call (init_calls f tr)),
     init_calls f tr @ [socket_call])"
  by (simp add: init_ec_def sync_operation_def init_calls_def as_socket_def fd_set_def fd_get_def Let_def)

lemma accept_on_object:
  "fd_get (fst (accept_get_result socket_t_modules (accept_complete r p (accept s d e a)) f)) =
    (if r < 0 \<or> \<not> (case e of None \<Rightarrow> True | Some c \<Rightarrow> \<not> ec_set c) then m_fd f else r)"
  by (cases e)
    (auto simp: accept_get_result_def get_error_set_value fd_set_def fd_get_def
      set_peer_address_def accept_complete_def Let_def)

lemma openat_on_object:
  "fst (openat_get_result use_ec (set_value r 0 (openat (Some s) path flags mode a)) f) =
    (if r < 0 then f else fd_set r f)"
  by (simp add: openat_get_result_def no_error_in_result_def openat_def async_operation.defs
      api_operation_def async_operation_new_def set_value_def Let_def)

lemma close_on_object:
  assumes "r \<le> 0"
  shows "\<exists>op. close_drive k f [r] (close_new (Some s) d None a) tr =
    (op, True, if r < 0 then tr else tr @ [Sys_close (m_fd f)])"
  using assms
  by (auto simp: close_new_def close_on_recv_completed_def close_update_result_def get_error_set_value
      fd_get_def Let_def)

text \<open>An event is sound when afterwards every open descriptor has one owner and it closed none twice.\<close>

definition sound_event :: "kernel \<Rightarrow> fd_event \<Rightarrow> fd_state \<Rightarrow> bool" where
  "sound_event k e s \<longleftrightarrow> owned_once (fd_exec k e s) \<and> double_closes s (fd_exec k e s) = []"

lemmas event_defs = sound_event_def double_closes_def owned_once_def owners_put

text \<open>Storing a number in an object, with the descriptor open afterwards if there is one.\<close>

lemma fill_sound:
  assumes "one_owner m opn" "m a = None"
  shows "one_owner (m(a := owned (Some (fd_of fd)))) (opened fd \<union> opn) \<longleftrightarrow> fd < 0 \<or> fd \<notin> opn"
  using assms one_owner_add_iff [OF assms]
  by (cases "fd < 0") (simp_all add: fd_of_def one_owner_keep)

lemma replace_sound:
  assumes "one_owner m opn" "m a = Some v" "0 \<le> v"
  shows "one_owner (m(a := owned (Some (fd_of fd)))) (opened fd \<union> opn) \<longleftrightarrow> fd = v"
proof (cases "fd = v")
  case True
  with assms one_owner_open [OF assms(1,2)] show ?thesis
    by (simp add: fd_of_def one_owner_keep insert_absorb)
next
  case False
  with assms(3) one_owner_open [OF assms(1,2)] one_owner_lost [OF assms(1,2)] show ?thesis
    by (simp add: fd_of_def)
qed

lemma store_sound:
  assumes "owned_once s" "fs_live a s"
  shows "one_owner ((owners s)(a := owned (Some (fd_of fd)))) (opened fd \<union> fs_open s) \<longleftrightarrow>
    (if valid (fs_object s a) then fd = m_fd (fs_object s a) else fresh fd s)"
  using assms fill_sound [of "owners s" "fs_open s" a fd]
    replace_sound [of "owners s" "fs_open s" a "m_fd (fs_object s a)" fd]
  by (simp add: owned_once_def owners_object valid_def fresh_def)

lemma fd_set_of: "fd_set fd f = fd_of fd"
  by (cases f) (simp add: fd_set_def fd_of_def)

lemma fd_of_self [simp]: "fd_of (m_fd f) = (f :: file_descriptor_base)"
  by (cases f) (simp add: fd_of_def)

lemma as_socket_fd [simp]: "m_fd (as_socket f) = m_fd f" "fd_get (as_socket f) = m_fd f"
  by (simp_all add: as_socket_def fd_set_def fd_get_def)

lemma live_owned:
  assumes "owned_once s" "fs_live a s" "valid (fs_object s a)"
  shows "owners s a = Some (m_fd (fs_object s a))" "m_fd (fs_object s a) \<in> fs_open s"
proof -
  show "owners s a = Some (m_fd (fs_object s a))"
    using assms by (simp add: owners_object valid_def)
  with one_owner_open show "m_fd (fs_object s a) \<in> fs_open s"
    using assms(1) unfolding owned_once_def by metis
qed

lemma live_object: "fs_live a s \<Longrightarrow> fs_objects s a = Some (fs_object s a)"
  by (auto simp: fs_live_def fs_object_def)

lemma keep_sound:
  assumes "owned_once s" "fs_live a s"
  shows "one_owner ((owners s)(a := owned (Some (fs_object s a)))) (fs_open s)"
  using assms by (auto simp: owned_once_def owners_object intro: one_owner_keep)

lemma default_sound: "owned_once s \<Longrightarrow> \<not> fs_live a s \<Longrightarrow> sound_event k (Ev_default a) s"
  by (simp add: event_defs fd_default_def one_owner_keep owners_object)

lemma adopt_sound:
  assumes "owned_once s" "\<not> fs_live a s"
  shows "sound_event k (Ev_adopt a fd) s \<longleftrightarrow> fresh fd s"
  using assms fill_sound [of "owners s" "fs_open s" a fd]
  by (simp add: event_defs owners_object fresh_def)

lemma move_sound:
  assumes "owned_once s" "fs_live b s" "\<not> fs_live a s"
  shows "sound_event k (Ev_move b a) s"
  using assms one_owner_move [of "owners s" "fs_open s" a b]
  by (auto simp: event_defs fd_defs owners_object)

lemma set_sound:
  assumes "owned_once s" "fs_live a s"
  shows "sound_event k (Ev_set a fd) s \<longleftrightarrow>
    (if valid (fs_object s a) then fd = m_fd (fs_object s a) else fresh fd s)"
  using store_sound [OF assms, of fd]
  by (simp add: event_defs fd_set_of)

lemma removed_sound:
  assumes "owned_once s" "fs_live a s" "valid (fs_object s a)"
  shows "one_owner ((owners s)(a := None)) (fs_open s - {m_fd (fs_object s a)})"
  using one_owner_remove [of "owners s" "fs_open s" a] assms live_owned [OF assms]
  by (simp add: owned_once_def)

lemma close_sound:
  assumes "owned_once s" "fs_live a s"
  shows "sound_event k (Ev_close a) s \<longleftrightarrow> valid (fs_object s a)"
proof (cases "valid (fs_object s a)")
  case True
  with removed_sound [OF assms True] live_owned [OF assms True] show ?thesis
    by (simp add: event_defs fd_close_def)
next
  case False
  with owned_once_open [OF assms(1), of "m_fd (fs_object s a)"] show ?thesis
    by (auto simp: sound_event_def double_closes_def fd_close_def valid_def)
qed

lemma destroy_sound:
  assumes "owned_once s" "fs_live a s"
  shows "sound_event k (Ev_destroy a) s"
proof (cases "valid (fs_object s a)")
  case True
  with removed_sound [OF assms True] live_owned [OF assms True] show ?thesis
    by (simp add: event_defs fd_destroy_def fd_close_def)
next
  case False
  with keep_sound [OF assms] show ?thesis
    by (simp add: event_defs fd_destroy_def valid_def)
qed

lemma accept_sound:
  assumes "owned_once s" "fs_live a s" "r \<notin> fs_open s"
  shows "sound_event k (Ev_accept a r p e) s \<longleftrightarrow>
    r < 0 \<or> \<not> valid (fs_object s a) \<and> (case e of None \<Rightarrow> True | Some c \<Rightarrow> \<not> ec_set c)"
    (is "_ \<longleftrightarrow> r < 0 \<or> _ \<and> ?clear")
proof -
  have exec: "fd_exec k (Ev_accept a r p e) s =
      fs_put a (Some (fd_of (if r < 0 \<or> \<not> ?clear then m_fd (fs_object s a) else r))) (fs_trace s) r s"
    using accept_on_object [of r p "Some 0" None e 0 "as_socket (fs_object s a)"]
    by (simp add: Let_def split_beta)
  consider "r < 0" | "0 \<le> r" "\<not> ?clear" | "0 \<le> r" ?clear by linarith
  then show ?thesis
  proof cases
    case 1
    with exec keep_sound [OF assms(1,2)] show ?thesis
      by (simp add: event_defs)
  next
    case 2
    have "r \<notin> ran ((owners s)(a := owned (Some (fs_object s a))))"
      using keep_sound [OF assms(1,2)] assms(3) by (simp add: one_owner_def)
    with 2 exec show ?thesis
      by (auto simp: sound_event_def owned_once_def owners_put one_owner_def)
  next
    case 3
    with exec store_sound [OF assms(1,2), of r] assms(3) live_owned(2) [OF assms(1,2)] show ?thesis
      by (auto simp: event_defs fresh_def)
  qed
qed

lemma openat_sound:
  assumes "owned_once s" "fs_live a s" "r \<notin> fs_open s"
  shows "sound_event k (Ev_openat a r) s \<longleftrightarrow> r < 0 \<or> \<not> valid (fs_object s a)"
proof -
  have exec: "fd_exec k (Ev_openat a r) s =
      fs_put a (Some (fd_of (if r < 0 then m_fd (fs_object s a) else r))) (fs_trace s) r s"
    using openat_on_object [of False r 0 "[]" 0 0 0 "fs_object s a"]
    by (simp add: Let_def split_beta fd_set_of)
  show ?thesis
  proof (cases "r < 0")
    case True
    with exec keep_sound [OF assms(1,2)] show ?thesis
      by (simp add: event_defs)
  next
    case False
    with exec store_sound [OF assms(1,2), of r] assms(3) live_owned(2) [OF assms(1,2)] show ?thesis
      by (auto simp: event_defs fresh_def)
  qed
qed

lemma async_close_sound:
  assumes "owned_once s" "fs_live a s" "valid (fs_object s a)" "r \<le> 0"
  shows "sound_event k (Ev_async_close a r) s \<longleftrightarrow> r < 0"
proof -
  let ?f = "as_socket (fs_object s a)" and ?fd = "m_fd (fs_object s a)"
  obtain op where "close_drive k ?f [r] (close_new (Some 0) None None 0) (fs_trace s) =
      (op, True, if r < 0 then fs_trace s else fs_trace s @ [Sys_close ?fd])"
    using close_on_object [OF assms(4)] as_socket_fd(1) by metis
  then have exec: "fd_exec k (Ev_async_close a r) s = fs_put a (Some (fs_object s a))
      (if r < 0 then fs_trace s else fs_trace s @ [Sys_close ?fd]) (-1) s"
    using live_object [OF assms(2)] by simp
  show ?thesis
  proof (cases "r < 0")
    case True
    with exec keep_sound [OF assms(1,2)] show ?thesis
      by (simp add: event_defs)
  next
    case False
    with exec assms(3) one_owner_dangling [of ?fd "fs_open s - {?fd}" "owners s" a] show ?thesis
      by (simp add: sound_event_def owned_once_def owners_put valid_def)
  qed
qed

lemma init_exec:
  "fd_exec k (Ev_init a) s =
    fs_put a (Some (fd_of (if init_opens k a s \<ge> 0 then init_opens k a s else m_fd (fs_object s a))))
      (init_calls (fs_object s a) (fs_trace s) @ [socket_call]) (init_opens k a s) s"
  by (simp add: init_on_object init_opens_def fd_get_def fd_set_def)

lemma init_event:
  "sound_event k (Ev_init a) s \<longleftrightarrow>
    one_owner ((owners s)(a := owned (Some (fd_of
        (if init_opens k a s \<ge> 0 then init_opens k a s else m_fd (fs_object s a))))))
      (opened (init_opens k a s) \<union>
        (if m_fd (fs_object s a) \<noteq> -1 then fs_open s - {m_fd (fs_object s a)} else fs_open s)) \<and>
    (m_fd (fs_object s a) \<noteq> -1 \<longrightarrow> m_fd (fs_object s a) \<in> fs_open s)"
  unfolding event_defs init_exec fs_put_sel
  by (simp add: init_calls_def socket_call_def)

lemma init_sound:
  assumes "owned_once s" "fs_live a s" "init_opens k a s \<notin> fs_open s - {m_fd (fs_object s a)}"
  shows "sound_event k (Ev_init a) s \<longleftrightarrow>
    m_fd (fs_object s a) = -1 \<or> valid (fs_object s a) \<and> init_opens k a s \<ge> 0"
proof -
  let ?fd = "m_fd (fs_object s a)" and ?r = "init_opens k a s"
  consider "?fd = -1" | "?fd \<noteq> -1" "\<not> valid (fs_object s a)"
    | "?fd \<noteq> -1" "valid (fs_object s a)" by auto
  then show ?thesis
  proof cases
    case 1
    with assms owned_once_open [OF assms(1), of "-1"] show ?thesis
      by (cases "?r < 0") (auto simp: init_event owned_once_def owners_object fd_of_def
        one_owner_keep one_owner_add)
  next
    case 2
    with owned_once_open [OF assms(1), of ?fd] show ?thesis
      by (auto simp: init_event valid_def)
  next
    case 3
    note fill = fill_sound [OF removed_sound [OF assms(1,2) 3(2)], of a ?r]
    from 3 assms(3) fill one_owner_dangling [of ?fd "fs_open s - {?fd}" "owners s" a]
      live_owned(2) [OF assms(1,2)]
    show ?thesis
      by (cases "?r < 0") (auto simp: init_event valid_def)
  qed
qed

section \<open>The programs that own their descriptors soundly\<close>

lemma careful_iff_sound:
  assumes "owned_once s" "fd_enabled k e s"
  shows "fd_careful k e s \<longleftrightarrow> sound_event k e s"
  using assms
  by (cases e)
    (simp_all add: default_sound adopt_sound move_sound set_sound close_sound destroy_sound init_sound
      accept_sound openat_sound async_close_sound close_initial_check_def valid_def
      del: fd_exec.simps)

interpretation fds: step_system fs_init "fd_step k" owned_once for k
proof
  show "owned_once s" if "fs_init s" for s
    using that by (simp add: fs_init_def owned_once_def one_owner_def owners_def)
  show "owned_once t" if "owned_once s" "fd_step k s t" for s t
    using that careful_iff_sound [of s k] by (auto simp: fd_step_def sound_event_def)
qed

lemma owned_once_distinct:
  assumes "owned_once s" "fs_objects s a = Some f" "fs_objects s b = Some g" "valid f" "m_fd f = m_fd g"
  shows "a = b"
proof -
  from assms have "owners s a = Some (m_fd f)" "owners s b = Some (m_fd f)"
    by (simp_all add: owners_def valid_def)
  with assms(1) show ?thesis unfolding owned_once_def one_owner_def by blast
qed

lemma owned_once_no_leak: "owned_once s \<Longrightarrow> fs_objects s = Map.empty \<Longrightarrow> fs_open s = {}"
  by (auto simp: owned_once_def one_owner_def owners_def ran_def)

text \<open>
  C13: Which programs close every descriptor exactly once. In every state reached by careful
  operations two live objects never hold the same descriptor, and once all objects are
  destroyed nothing is left open. And careful is exactly what it takes: an operation leaves
  every open descriptor with one owner, and closes none that is not open, if and only if it is
  a default construction, a move or a destruction; a construction from, or \<open>set\<close> of, a number
  that is negative or fresh, into an object that owns nothing (or \<open>set\<close> of the number it holds);
  \<open>close__\<close> of an owner; \<open>init\<close> of an object that holds \<open>-1\<close>, or of an owner if \<open>::socket\<close> succeeds;
  an accept or \<open>openat\<close> that fails, or into an object that owns nothing and, for accept, without
  an error code left set; or a \<open>close\<close> operation whose read fails. So \<open>set\<close>, accept and \<open>openat\<close> into
  an owner leak its descriptor, accept with a stale error code leaks the new one, a failing
  \<open>init\<close> of an owner leaves a closed number in it, and every \<open>close\<close> operation that reaches the
  end of the stream does the same.
\<close>

theorem descriptor_ownership_sound:
  assumes "reaches fs_init (fd_step k) s"
  shows "(\<forall>a b f g. fs_objects s a = Some f \<and> fs_objects s b = Some g \<and> valid f \<and> m_fd f = m_fd g
        \<longrightarrow> a = b)
    \<and> (fs_objects s = Map.empty \<longrightarrow> fs_open s = {})
    \<and> (\<forall>e. fd_enabled k e s \<longrightarrow>
        (fd_careful k e s \<longleftrightarrow>
          owned_once (fd_exec k e s) \<and> double_closes s (fd_exec k e s) = []))"
proof -
  note inv = fds.inv_reaches [OF assms]
  from careful_iff_sound [OF inv] owned_once_distinct [OF inv] owned_once_no_leak [OF inv]
  show ?thesis unfolding sound_event_def by blast
qed

text \<open>
  Descriptor 3 is adopted by one object and moved into another. Closing the new owner with
  \<open>close__\<close> is sound; closing it with the \<open>close\<close> operation leaves it holding a closed descriptor.
\<close>

theorem descriptor_ownership_sound_witness:
  "let s = \<lparr> fs_objects = [0 \<mapsto> fd_default, 1 \<mapsto> fd_of 3], fs_open = {3}, fs_trace = [] \<rparr> in
    reaches fs_init (fd_step friendly_kernel) s \<and>
    owned_once (fd_exec friendly_kernel (Ev_close 1) s) \<and>
    double_closes s (fd_exec friendly_kernel (Ev_close 1) s) = [] \<and>
    \<not> (owned_once (fd_exec friendly_kernel (Ev_async_close 1 0) s) \<and>
       double_closes s (fd_exec friendly_kernel (Ev_async_close 1 0) s) = [])"
proof -
  let ?k = friendly_kernel
  let ?i = "\<lparr> fs_objects = Map.empty, fs_open = {}, fs_trace = [] \<rparr> :: fd_state"
  let ?s = "\<lparr> fs_objects = [0 \<mapsto> fd_default, 1 \<mapsto> fd_of 3], fs_open = {3}, fs_trace = [] \<rparr> :: fd_state"
  have "reaches fs_init (fd_step ?k) ?i"
    by (rule reaches_init) (simp add: fs_init_def)
  moreover have "fd_step ?k ?i (fd_exec ?k (Ev_adopt 0 3) ?i)"
    unfolding fd_step_def by (rule exI [of _ "Ev_adopt 0 3"]) (simp add: fs_live_def fresh_def)
  moreover have "fd_step ?k (fd_exec ?k (Ev_adopt 0 3) ?i)
      (fd_exec ?k (Ev_move 0 1) (fd_exec ?k (Ev_adopt 0 3) ?i))"
    unfolding fd_step_def by (rule exI [of _ "Ev_move 0 1"]) (simp add: fs_live_def fs_put_def)
  moreover have "fd_exec ?k (Ev_move 0 1) (fd_exec ?k (Ev_adopt 0 3) ?i) = ?s"
    by (simp add: fs_put_def fd_move_def fs_object_def fd_of_def fd_default_def)
  ultimately have r: "reaches fs_init (fd_step ?k) ?s" by (metis reaches_step)
  have "fd_enabled ?k (Ev_close 1) ?s" "fd_careful ?k (Ev_close 1) ?s"
    "fd_enabled ?k (Ev_async_close 1 0) ?s" "\<not> fd_careful ?k (Ev_async_close 1 0) ?s"
    by (simp_all add: fs_live_def fs_object_def valid_def close_initial_check_def fd_of_def)
  with descriptor_ownership_sound [OF r] r show ?thesis unfolding Let_def by blast
qed

end
