(* ===== verification/Coro_Join.thy ===== *)
theory Coro_Join
  imports Xy_Prelude
begin

text \<open>
  Joining concurrent coroutines: \<open>when_all\<close> (\<open>coroutine/detail/when_all_counter.h\<close>,
  \<open>when_all_task.h\<close>, \<open>when_all_ready_awaitable.h\<close>, \<open>coroutine/when_all_ready.h\<close>,
  \<open>coroutine/when_all.h\<close>), \<open>async_scope\<close> (\<open>coroutine/async_scope.h\<close>) and the scope guards
  (\<open>coroutine/on_scope_exit.h\<close>, \<open>detail/scope_guard.h\<close>).

  Both \<open>when_all_counter\<close> and \<open>async_scope\<close> count outstanding work and the joiner itself in one
  atomic counter; whoever brings it to zero lets the joiner go on. What they promise is one
  locale; the atomic operations are the steps.

  A coroutine handle is a number, \<open>None\<close> the null handle. An operation that may resume a
  handle returns \<open>None\<close> if it does not, and \<open>Some\<close> of the (possibly null) handle if it does.
\<close>

section \<open>The counter of when_all\<close>

record when_all_counter =
  m_count :: size_t
  m_awaitingCoroutine :: "nat option"

definition when_all_counter_new :: "size_t \<Rightarrow> when_all_counter" where
  "when_all_counter_new count = \<lparr> m_count = count + 1, m_awaitingCoroutine = None \<rparr>"

definition counter_is_ready :: "when_all_counter \<Rightarrow> bool" where
  "counter_is_ready c \<longleftrightarrow> m_awaitingCoroutine c \<noteq> None"

text \<open>\<open>try_await\<close> is two actions: it stores the handle, and then decrements the counter.\<close>

definition counter_register :: "nat \<Rightarrow> when_all_counter \<Rightarrow> when_all_counter" where
  "counter_register h c = c\<lparr>m_awaitingCoroutine := Some h\<rparr>"

definition counter_arrive :: "when_all_counter \<Rightarrow> when_all_counter \<times> bool" where
  "counter_arrive c = (c\<lparr>m_count := m_count c - 1\<rparr>, m_count c > 1)"

definition counter_try_await :: "nat \<Rightarrow> when_all_counter \<Rightarrow> when_all_counter \<times> bool" where
  "counter_try_await h c = counter_arrive (counter_register h c)"

definition notify_awaitable_completed :: "when_all_counter \<Rightarrow> when_all_counter \<times> nat option option" where
  "notify_awaitable_completed c =
    (c\<lparr>m_count := m_count c - 1\<rparr>, if m_count c = 1 then Some (m_awaitingCoroutine c) else None)"

section \<open>Asynchronous scopes\<close>

record async_scope =
  as_count :: size_t
  as_continuation :: "nat option"

definition async_scope_new :: async_scope where
  "async_scope_new = \<lparr> as_count = 1, as_continuation = None \<rparr>"

definition on_work_started :: "async_scope \<Rightarrow> async_scope" where
  "on_work_started s = s\<lparr>as_count := as_count s + 1\<rparr>"

definition on_work_finished :: "async_scope \<Rightarrow> async_scope \<times> nat option option" where
  "on_work_finished s =
    (s\<lparr>as_count := as_count s - 1\<rparr>, if as_count s = 1 then Some (as_continuation s) else None)"

definition join_await_ready :: "async_scope \<Rightarrow> bool" where
  "join_await_ready s \<longleftrightarrow> as_count s = 0"

text \<open>\<open>await_suspend\<close> of \<open>join()\<close>, again in its two actions.\<close>

definition join_register :: "nat \<Rightarrow> async_scope \<Rightarrow> async_scope" where
  "join_register h s = s\<lparr>as_continuation := Some h\<rparr>"

definition join_arrive :: "async_scope \<Rightarrow> async_scope \<times> bool" where
  "join_arrive s = (s\<lparr>as_count := as_count s - 1\<rparr>, as_count s > 1)"

section \<open>What a joining counter promises\<close>

datatype join_phase = J_before | J_registered | J_suspended | J_passed | J_resumed

record 's join_world =
  j_state :: 's
  j_pending :: nat
  j_phase :: join_phase
  j_log :: "nat option list"

text \<open>
  The steps, for the three operations of a counter: an outstanding piece of work finishes, the
  joiner stores its handle, the joiner arrives. The log holds the handles that were resumed.
\<close>

inductive join_step ::
  "('s \<Rightarrow> 's \<times> nat option option) \<Rightarrow> (nat \<Rightarrow> 's \<Rightarrow> 's) \<Rightarrow> ('s \<Rightarrow> 's \<times> bool) \<Rightarrow> nat
    \<Rightarrow> 's join_world \<Rightarrow> 's join_world \<Rightarrow> bool"
  for finish register arrive h
where
  work_silent: "j_pending w = Suc n \<Longrightarrow> finish (j_state w) = (s, None) \<Longrightarrow>
    join_step finish register arrive h w (w\<lparr>j_state := s, j_pending := n\<rparr>)"
| work_resumes: "j_pending w = Suc n \<Longrightarrow> finish (j_state w) = (s, Some c) \<Longrightarrow>
    join_step finish register arrive h w
      (w\<lparr>j_state := s, j_pending := n, j_phase := J_resumed, j_log := j_log w @ [c]\<rparr>)"
| joiner_registers: "j_phase w = J_before \<Longrightarrow>
    join_step finish register arrive h w (w\<lparr>j_state := register h (j_state w), j_phase := J_registered\<rparr>)"
| joiner_arrives: "j_phase w = J_registered \<Longrightarrow> arrive (j_state w) = (s, suspended) \<Longrightarrow>
    join_step finish register arrive h w
      (w\<lparr>j_state := s, j_phase := (if suspended then J_suspended else J_passed)\<rparr>)"

inductive_cases join_stepE: "join_step finish register arrive h w w'"

primrec joiner_counted :: "join_phase \<Rightarrow> nat" where
  "joiner_counted J_before = 1"
| "joiner_counted J_registered = 1"
| "joiner_counted J_suspended = 0"
| "joiner_counted J_passed = 0"
| "joiner_counted J_resumed = 0"

text \<open>The counter is the outstanding work, plus one until the joiner has arrived.\<close>

definition join_inv :: "('s \<Rightarrow> nat) \<Rightarrow> ('s \<Rightarrow> nat option) \<Rightarrow> nat \<Rightarrow> 's join_world \<Rightarrow> bool" where
  "join_inv count continuation h w \<longleftrightarrow>
    count (j_state w) = j_pending w + joiner_counted (j_phase w) \<and>
    (j_phase w \<noteq> J_before \<longrightarrow> continuation (j_state w) = Some h) \<and>
    (j_phase w = J_suspended \<longrightarrow> 0 < j_pending w) \<and>
    (j_phase w \<in> {J_passed, J_resumed} \<longrightarrow> j_pending w = 0) \<and>
    j_log w = (if j_phase w = J_resumed then [Some h] else [])"

locale joining =
  fixes count :: "'s \<Rightarrow> nat"
    and continuation :: "'s \<Rightarrow> nat option"
    and finish :: "'s \<Rightarrow> 's \<times> nat option option"
    and register :: "nat \<Rightarrow> 's \<Rightarrow> 's"
    and arrive :: "'s \<Rightarrow> 's \<times> bool"
  assumes finish_law: "0 < count s \<Longrightarrow> finish s = (s', r) \<Longrightarrow>
      count s' = count s - 1 \<and> continuation s' = continuation s \<and>
      r = (if count s = 1 then Some (continuation s) else None)"
    and register_law: "count (register h s) = count s \<and> continuation (register h s) = Some h"
    and arrive_law: "0 < count s \<Longrightarrow> arrive s = (s', suspended) \<Longrightarrow>
      count s' = count s - 1 \<and> continuation s' = continuation s \<and> suspended = (1 < count s)"
begin

lemma join_inv_step:
  assumes "join_inv count continuation h w" and "join_step finish register arrive h w w'"
  shows "join_inv count continuation h w'"
  using assms(2)
proof (cases rule: join_step.cases)
  case (work_silent n s)
  with assms(1) finish_law [OF _ work_silent(3)] show ?thesis
    by (cases "j_phase w") (auto simp: join_inv_def split: if_splits)
next
  case (work_resumes n s c)
  with assms(1) finish_law [OF _ work_resumes(3)] show ?thesis
    by (cases "j_phase w") (auto simp: join_inv_def split: if_splits)
next
  case joiner_registers
  with assms(1) register_law show ?thesis by (auto simp: join_inv_def)
next
  case (joiner_arrives s suspended)
  with assms(1) arrive_law [OF _ joiner_arrives(3)] show ?thesis
    by (auto simp: join_inv_def split: if_splits)
qed

lemma joined_exactly_once:
  assumes "join_inv count continuation h w"
  shows "(j_phase w = J_passed \<or> j_phase w = J_resumed \<longleftrightarrow> j_pending w = 0 \<and> joiner_counted (j_phase w) = 0) \<and>
    j_log w = (if j_phase w = J_resumed then [Some h] else [])"
  using assms by (cases "j_phase w") (auto simp: join_inv_def)

end

section \<open>Both counters keep the promise\<close>

lemma unat_minus_one: "0 < unat (c :: size_t) \<Longrightarrow> unat (c - 1) = unat c - 1"
  by (simp add: unat_minus_one word_gt_0_unat [symmetric] unat_gt_0)

lemma unat_eq_one: "unat (c :: size_t) = 1 \<longleftrightarrow> c = 1"
  by (metis unsigned_1 unsigned_word_eqI)

lemma unat_gt_one: "1 < unat (c :: size_t) \<longleftrightarrow> 1 < c"
  by (simp add: word_less_nat_alt)

lemmas size_count = unat_minus_one unat_eq_one unat_gt_one

interpretation wa: joining "\<lambda>c. unat (m_count c)" m_awaitingCoroutine
  notify_awaitable_completed counter_register counter_arrive
  by unfold_locales
    (auto simp: notify_awaitable_completed_def counter_register_def counter_arrive_def size_count
      simp del: One_nat_def)

interpretation scope: joining "\<lambda>s. unat (as_count s)" as_continuation
  on_work_finished join_register join_arrive
  by unfold_locales
    (auto simp: on_work_finished_def join_register_def join_arrive_def size_count simp del: One_nat_def)

section \<open>when_all\<close>

definition wa_init :: "nat \<Rightarrow> when_all_counter join_world \<Rightarrow> bool" where
  "wa_init n w \<longleftrightarrow> n + 1 < 2 ^ 64 \<and>
    w = \<lparr> j_state = when_all_counter_new (of_nat n), j_pending = n, j_phase = J_before, j_log = [] \<rparr>"

definition wa_step :: "nat \<Rightarrow> when_all_counter join_world \<Rightarrow> when_all_counter join_world \<Rightarrow> bool" where
  "wa_step h = join_step notify_awaitable_completed counter_register counter_arrive h"

interpretation wa_run: step_system "wa_init n" "wa_step h" "join_inv (\<lambda>c. unat (m_count c)) m_awaitingCoroutine h"
  for n h
proof
  show "join_inv (\<lambda>c. unat (m_count c)) m_awaitingCoroutine h w" if "wa_init n w" for w
  proof -
    from that have n: "n + 1 < 2 ^ 64" by (simp add: wa_init_def)
    have "of_nat n + 1 = (of_nat (n + 1) :: size_t)" by simp
    with n have "unat (of_nat n + 1 :: size_t) = n + 1"
      by (simp only: unsigned_of_nat) (simp add: take_bit_nat_eq_self)
    with that show ?thesis by (simp add: wa_init_def join_inv_def when_all_counter_new_def)
  qed
qed (auto simp: wa_step_def intro: wa.join_inv_step)

text \<open>
  C5: \<open>when_all\<close> joins exactly once. Whatever the order in which the tasks complete and the awaiting
  coroutine arrives, it goes on, by not suspending or by being resumed, if and only if it has
  arrived and every task has completed; it is resumed at most once, never through a null
  handle, and never when it did not suspend.
\<close>

theorem when_all_joins_once:
  assumes "reaches (wa_init n) (wa_step h) w"
  shows "(j_phase w = J_passed \<or> j_phase w = J_resumed \<longleftrightarrow> j_pending w = 0 \<and> joiner_counted (j_phase w) = 0) \<and>
    j_log w = (if j_phase w = J_resumed then [Some h] else [])"
  by (rule wa.joined_exactly_once [OF wa_run.inv_reaches [OF assms]])

definition wa_sample :: "join_phase \<Rightarrow> nat \<Rightarrow> nat option list \<Rightarrow> size_t \<Rightarrow> nat option \<Rightarrow> when_all_counter join_world" where
  "wa_sample phase pending log c h =
    \<lparr> j_state = \<lparr> m_count = c, m_awaitingCoroutine = h \<rparr>, j_pending = pending, j_phase = phase, j_log = log \<rparr>"

lemma wa_sample_reached: "reaches (wa_init 1) (wa_step 9) (wa_sample J_resumed 0 [Some 9] 0 (Some 9))"
proof -
  have "reaches (wa_init 1) (wa_step 9) (wa_sample J_before 1 [] 2 None)"
    by (rule reaches_init) (simp add: wa_init_def wa_sample_def when_all_counter_new_def)
  moreover have "wa_step 9 (wa_sample J_before 1 [] 2 None) (wa_sample J_registered 1 [] 2 (Some 9))"
    using joiner_registers [of "wa_sample J_before 1 [] 2 None" notify_awaitable_completed counter_register counter_arrive 9]
    by (simp add: wa_step_def wa_sample_def counter_register_def)
  moreover have "wa_step 9 (wa_sample J_registered 1 [] 2 (Some 9)) (wa_sample J_suspended 1 [] 1 (Some 9))"
    using joiner_arrives [of "wa_sample J_registered 1 [] 2 (Some 9)" counter_arrive "\<lparr> m_count = 1, m_awaitingCoroutine = Some 9 \<rparr>"
        True notify_awaitable_completed counter_register 9]
    by (simp add: wa_step_def wa_sample_def counter_arrive_def)
  moreover have "wa_step 9 (wa_sample J_suspended 1 [] 1 (Some 9)) (wa_sample J_resumed 0 [Some 9] 0 (Some 9))"
    using work_resumes [of "wa_sample J_suspended 1 [] 1 (Some 9)" 0 notify_awaitable_completed
        "\<lparr> m_count = 0, m_awaitingCoroutine = Some 9 \<rparr>" "Some 9" counter_register counter_arrive 9]
    by (simp add: wa_step_def wa_sample_def notify_awaitable_completed_def)
  ultimately show ?thesis by (blast intro: reaches_step)
qed

theorem when_all_joins_once_witness:
  "j_log (wa_sample J_resumed 0 [Some 9] 0 (Some 9)) = [Some 9] \<and>
    reaches (wa_init 1) (wa_step 9) (wa_sample J_resumed 0 [Some 9] 0 (Some 9))"
  using when_all_joins_once [OF wa_sample_reached] wa_sample_reached by (simp add: wa_sample_def)

section \<open>async_scope\<close>

definition scope_init :: "async_scope join_world \<Rightarrow> bool" where
  "scope_init w \<longleftrightarrow> w = \<lparr> j_state = async_scope_new, j_pending = 0, j_phase = J_before, j_log = [] \<rparr>"

text \<open>
  \<open>spawn\<close> may be called as long as the scope is alive, which the source asserts; a scope has
  fewer than \<open>2\<^sup>64 - 1\<close> tasks at a time.
\<close>

inductive scope_step :: "nat \<Rightarrow> async_scope join_world \<Rightarrow> async_scope join_world \<Rightarrow> bool"
  for h :: nat
where
  scope_join: "join_step on_work_finished join_register join_arrive h w w' \<Longrightarrow> scope_step h w w'"
| scope_spawn: "as_count (j_state w) \<noteq> 0 \<Longrightarrow> as_count (j_state w) \<noteq> - 1 \<Longrightarrow>
    scope_step h w (w\<lparr>j_state := on_work_started (j_state w), j_pending := Suc (j_pending w)\<rparr>)"

lemma unat_plus_one: "c \<noteq> - 1 \<Longrightarrow> unat (c + 1 :: size_t) = unat c + 1"
  by (metis add.right_inverse add_diff_cancel_right' eq_iff_diff_eq_0 minus_equation_iff
      unat_eq_zero unat_minus_one add.commute unatSuc Suc_eq_plus1_left add_eq_0_iff)

interpretation scope_run: step_system scope_init "scope_step h" "join_inv (\<lambda>s. unat (as_count s)) as_continuation h"
  for h
proof
  show "join_inv (\<lambda>s. unat (as_count s)) as_continuation h w" if "scope_init w" for w
    using that by (simp add: scope_init_def join_inv_def async_scope_new_def)
  show "join_inv (\<lambda>s. unat (as_count s)) as_continuation h w'"
    if "join_inv (\<lambda>s. unat (as_count s)) as_continuation h w" "scope_step h w w'" for w w'
    using that(2,1)
  proof (cases rule: scope_step.cases)
    case scope_join
    with that(1) show ?thesis by (blast intro: scope.join_inv_step)
  next
    case scope_spawn
    with that(1) show ?thesis
      by (cases "j_phase w") (auto simp: join_inv_def on_work_started_def unat_plus_one unat_eq_0)
  qed
qed

text \<open>
  C32: \<open>async_scope::join\<close> waits for all work. With tasks spawned at any time before the scope is
  joined or by the tasks themselves, the joining coroutine goes on if and only if it has
  arrived and every spawned task has finished, and it is resumed at most once.
\<close>

theorem scope_joins_once:
  assumes "reaches scope_init (scope_step h) w"
  shows "(j_phase w = J_passed \<or> j_phase w = J_resumed \<longleftrightarrow> j_pending w = 0 \<and> joiner_counted (j_phase w) = 0) \<and>
    j_log w = (if j_phase w = J_resumed then [Some h] else []) \<and>
    (join_await_ready (j_state w) \<longleftrightarrow> j_pending w = 0 \<and> joiner_counted (j_phase w) = 0)"
proof -
  note inv = scope_run.inv_reaches [OF assms]
  then have "unat (as_count (j_state w)) = j_pending w + joiner_counted (j_phase w)"
    by (simp add: join_inv_def)
  then have "join_await_ready (j_state w) \<longleftrightarrow> j_pending w + joiner_counted (j_phase w) = 0"
    by (metis join_await_ready_def unat_eq_0)
  with scope.joined_exactly_once [OF inv] show ?thesis by simp
qed

theorem scope_joins_once_witness:
  "reaches scope_init (scope_step 9) \<lparr> j_state = async_scope_new, j_pending = 0, j_phase = J_before, j_log = [] \<rparr> \<and>
    \<not> join_await_ready async_scope_new"
proof -
  let ?w = "\<lparr> j_state = async_scope_new, j_pending = 0, j_phase = J_before, j_log = [] \<rparr> :: async_scope join_world"
  have "reaches scope_init (scope_step 9) ?w" by (rule reaches_init) (simp add: scope_init_def)
  with scope_joins_once [OF this] show ?thesis by simp
qed

section \<open>Results of when_all\<close>

text \<open>
  The promise of a \<open>when_all_task\<close>: the exception or the result, and whether the counter has been
  notified. The outcome of awaiting a task is an exception or a value; a task of type \<open>void\<close>
  has the value \<open>()\<close>, which is the source's \<open>void_value\<close>.
\<close>

record 'r when_all_task_promise =
  wt_exception :: "cpp_exn option"
  wt_result :: "'r option"
  wt_notified :: nat

definition when_all_task_promise_new :: "'r when_all_task_promise" where
  "when_all_task_promise_new = \<lparr> wt_exception = None, wt_result = None, wt_notified = 0 \<rparr>"

definition wt_final_suspend :: "'r when_all_task_promise \<Rightarrow> 'r when_all_task_promise" where
  "wt_final_suspend p = p\<lparr>wt_notified := wt_notified p + 1\<rparr>"

definition wt_unhandled_exception :: "cpp_exn \<Rightarrow> 'r when_all_task_promise \<Rightarrow> 'r when_all_task_promise" where
  "wt_unhandled_exception e p = p\<lparr>wt_exception := Some e\<rparr>"

definition wt_yield_value :: "'r \<Rightarrow> 'r when_all_task_promise \<Rightarrow> 'r when_all_task_promise" where
  "wt_yield_value r p = wt_final_suspend (p\<lparr>wt_result := Some r\<rparr>)"

text \<open>\<open>*m_result\<close> of a task that stored no result would read through an uninitialised pointer.\<close>

definition wt_task_result :: "'r when_all_task_promise \<Rightarrow> (cpp_exn + 'r) checked" where
  "wt_task_result p = (case wt_exception p of
      Some e \<Rightarrow> Val (Inl e)
    | None \<Rightarrow> (case wt_result p of Some r \<Rightarrow> Val (Inr r) | None \<Rightarrow> Undefined))"

text \<open>
  The coroutine \<open>make_when_all_task\<close>: \<open>co_yield co_await awaitable\<close>. An exception goes to
  \<open>unhandled_exception\<close> and on to the final suspension, which notifies the counter too.
\<close>

definition make_when_all_task :: "cpp_exn + 'r \<Rightarrow> 'r when_all_task_promise" where
  "make_when_all_task outcome = (case outcome of
      Inr r \<Rightarrow> wt_yield_value r when_all_task_promise_new
    | Inl e \<Rightarrow> wt_final_suspend (wt_unhandled_exception e when_all_task_promise_new))"

definition when_all_ready :: "(cpp_exn + 'r) list \<Rightarrow> 'r when_all_task_promise list" where
  "when_all_ready awaitables = map make_when_all_task awaitables"

text \<open>The function \<open>fmap\<close> applies to the finished tasks: collect the results in order.\<close>

fun collect_results :: "'r when_all_task_promise list \<Rightarrow> (cpp_exn + 'r list) checked" where
  "collect_results [] = Val (Inr [])"
| "collect_results (p # ps) =
    (case wt_task_result p of
       Val (Inr r) \<Rightarrow> (case collect_results ps of
           Val (Inr rs) \<Rightarrow> Val (Inr (r # rs)) | Val (Inl e) \<Rightarrow> Val (Inl e) | Undefined \<Rightarrow> Undefined)
     | Val (Inl e) \<Rightarrow> Val (Inl e)
     | Undefined \<Rightarrow> Undefined)"

definition when_all :: "(cpp_exn + 'r) list \<Rightarrow> (cpp_exn + 'r list) checked" where
  "when_all awaitables = collect_results (when_all_ready awaitables)"

fun first_failure :: "(cpp_exn + 'r) list \<Rightarrow> cpp_exn option" where
  "first_failure [] = None"
| "first_failure (Inl e # os) = Some e"
| "first_failure (Inr r # os) = first_failure os"

lemma task_result_outcome [simp]: "wt_task_result (make_when_all_task out) = Val out"
  by (cases out) (simp_all add: make_when_all_task_def wt_yield_value_def wt_final_suspend_def
      wt_unhandled_exception_def when_all_task_promise_new_def wt_task_result_def)

lemma task_notifies [simp]: "wt_notified (make_when_all_task out) = 1"
  by (cases out) (simp_all add: make_when_all_task_def wt_yield_value_def wt_final_suspend_def
      wt_unhandled_exception_def when_all_task_promise_new_def)

text \<open>
  C33: The result of \<open>when_all\<close>: every task notifies the counter exactly once, whether it returns or
  throws; if all return, the results are returned in the order of the arguments; otherwise
  the exception of the first task, in that order, that threw is rethrown. No result is read
  before it was stored.
\<close>

theorem when_all_results:
  "(\<forall>p \<in> set (when_all_ready outcomes). wt_notified p = 1) \<and>
   when_all outcomes = Val (case first_failure outcomes of
      Some e \<Rightarrow> Inl e | None \<Rightarrow> Inr (map projr outcomes))"
proof -
  have "collect_results (when_all_ready outcomes) = Val (case first_failure outcomes of
      Some e \<Rightarrow> Inl e | None \<Rightarrow> Inr (map projr outcomes))"
    by (induction outcomes rule: first_failure.induct)
      (auto simp: when_all_ready_def split: option.splits)
  then show ?thesis by (auto simp: when_all_def when_all_ready_def)
qed

theorem when_all_results_witness:
  "when_all [Inr 1, Inl (User_exn 5), Inl Broken_promise, Inr (2 :: nat)] = Val (Inl (User_exn 5))"
  using when_all_results [of "[Inr 1, Inl (User_exn 5), Inl Broken_promise, Inr (2 :: nat)]"] by simp

section \<open>Scope guards\<close>

text \<open>A guard's function is called or not; \<open>calls\<close> counts the calls of one function.\<close>

record scoped_lambda =
  m_cancelled :: bool

definition scoped_lambda_new :: scoped_lambda where
  "scoped_lambda_new = \<lparr> m_cancelled = False \<rparr>"

definition sl_cancel :: "scoped_lambda \<Rightarrow> scoped_lambda" where
  "sl_cancel g = g\<lparr>m_cancelled := True\<rparr>"

definition scoped_lambda_move :: "scoped_lambda \<Rightarrow> scoped_lambda \<times> scoped_lambda" where
  "scoped_lambda_move other = (\<lparr> m_cancelled = m_cancelled other \<rparr>, sl_cancel other)"

definition scoped_lambda_destroy :: "scoped_lambda \<Rightarrow> nat \<Rightarrow> nat" where
  "scoped_lambda_destroy g calls = (if \<not> m_cancelled g then calls + 1 else calls)"

definition sl_call_now :: "scoped_lambda \<Rightarrow> nat \<Rightarrow> scoped_lambda \<times> nat" where
  "sl_call_now g calls = (g\<lparr>m_cancelled := True\<rparr>, calls + 1)"

record conditional_scoped_lambda =
  cl_uncaughtExceptionCount :: int
  cl_cancelled :: bool

definition conditional_scoped_lambda_new :: "int \<Rightarrow> conditional_scoped_lambda" where
  "conditional_scoped_lambda_new uncaught = \<lparr> cl_uncaughtExceptionCount = uncaught, cl_cancelled = False \<rparr>"

definition cl_cancel :: "conditional_scoped_lambda \<Rightarrow> conditional_scoped_lambda" where
  "cl_cancel g = g\<lparr>cl_cancelled := True\<rparr>"

definition conditional_scoped_lambda_move ::
  "conditional_scoped_lambda \<Rightarrow> conditional_scoped_lambda \<times> conditional_scoped_lambda" where
  "conditional_scoped_lambda_move other = (other, cl_cancel other)"

definition is_unwinding_due_to_exception :: "int \<Rightarrow> conditional_scoped_lambda \<Rightarrow> bool" where
  "is_unwinding_due_to_exception uncaught g \<longleftrightarrow> uncaught > cl_uncaughtExceptionCount g"

definition conditional_scoped_lambda_destroy :: "bool \<Rightarrow> int \<Rightarrow> conditional_scoped_lambda \<Rightarrow> nat \<Rightarrow> nat" where
  "conditional_scoped_lambda_destroy call_on_failure uncaught g calls =
    (if \<not> cl_cancelled g \<and> is_unwinding_due_to_exception uncaught g = call_on_failure then calls + 1 else calls)"

definition on_scope_exit :: scoped_lambda where "on_scope_exit = scoped_lambda_new"
definition on_scope_failure :: "int \<Rightarrow> conditional_scoped_lambda" where
  "on_scope_failure uncaught = conditional_scoped_lambda_new uncaught"
definition on_scope_success :: "int \<Rightarrow> conditional_scoped_lambda" where
  "on_scope_success uncaught = conditional_scoped_lambda_new uncaught"

text \<open>Moving a guard any number of times and destroying all the copies: the function runs once.\<close>

fun move_chain :: "nat \<Rightarrow> scoped_lambda \<Rightarrow> nat \<Rightarrow> nat" where
  "move_chain 0 g calls = scoped_lambda_destroy g calls"
| "move_chain (Suc n) g calls =
    (let (g', old) = scoped_lambda_move g in scoped_lambda_destroy old (move_chain n g' calls))"

lemma scope_exit_once: "move_chain n on_scope_exit calls = calls + 1"
proof -
  have "\<not> m_cancelled g \<Longrightarrow> move_chain n g calls = calls + 1" for g
    by (induction n arbitrary: g)
      (simp_all add: scoped_lambda_move_def scoped_lambda_destroy_def sl_cancel_def)
  then show ?thesis by (simp add: on_scope_exit_def scoped_lambda_new_def)
qed

lemma scope_failure_success_exclusive:
  "conditional_scoped_lambda_destroy True u' (on_scope_failure u) 0 +
   conditional_scoped_lambda_destroy False u' (on_scope_success u) 0 = 1"
  by (simp add: conditional_scoped_lambda_destroy_def on_scope_failure_def on_scope_success_def
      conditional_scoped_lambda_new_def is_unwinding_due_to_exception_def)

end
