(* ===== verification/Coro_Task.thy ===== *)
theory Coro_Task
  imports Descriptor
begin

text \<open>
  Tasks and waiting for them: \<open>coroutine/task.h\<close>, \<open>coroutine/fmap.h\<close>,
  \<open>coroutine/detail/lightweight_manual_reset_event.h\<close>, \<open>coroutine/detail/sync_wait_task.h\<close>,
  \<open>coroutine/sync_wait.h\<close>, \<open>coroutine/single_consumer_async_auto_reset_event.h\<close>.

  The configuration header selects symmetric transfer for every compiler, so that branch of
  \<open>task.h\<close> is the one modelled. A coroutine body is given by its outcome, an exception or a
  value. Coroutine frames are numbered; a handle is the number of a frame, \<open>None\<close> is null.
\<close>

section \<open>Task promises\<close>

datatype 'v result_storage = R_empty | R_value 'v | R_exception cpp_exn

record 'v task_promise =
  tp_continuation :: "nat option"
  tp_result :: "'v result_storage"
  tp_done :: bool

definition task_promise_new :: "'v task_promise" where
  "task_promise_new = \<lparr> tp_continuation = None, tp_result = R_empty, tp_done = False \<rparr>"

definition set_continuation :: "nat \<Rightarrow> 'v task_promise \<Rightarrow> 'v task_promise" where
  "set_continuation h p = p\<lparr>tp_continuation := Some h\<rparr>"

definition unhandled_exception :: "cpp_exn \<Rightarrow> 'v task_promise \<Rightarrow> 'v task_promise" where
  "unhandled_exception e p = p\<lparr>tp_result := R_exception e\<rparr>"

definition return_value :: "'v \<Rightarrow> 'v task_promise \<Rightarrow> 'v task_promise" where
  "return_value v p = p\<lparr>tp_result := R_value v\<rparr>"

text \<open>\<open>result()\<close> asserts that there is a value unless there is an exception.\<close>

definition promise_result :: "'v task_promise \<Rightarrow> (cpp_exn + 'v) checked" where
  "promise_result p = (case tp_result p of
      R_exception e \<Rightarrow> Val (Inl e) | R_value v \<Rightarrow> Val (Inr v) | R_empty \<Rightarrow> Undefined)"

text \<open>The destructor destroys the member of the union that is alive: its kind, if any.\<close>

definition promise_destroy :: "'v task_promise \<Rightarrow> string option" where
  "promise_destroy p = (case tp_result p of
      R_value v \<Rightarrow> Some ''value'' | R_exception e \<Rightarrow> Some ''exception'' | R_empty \<Rightarrow> None)"

text \<open>The final suspension transfers control to the continuation.\<close>

definition final_await_suspend :: "'v task_promise \<Rightarrow> 'v task_promise \<times> nat option" where
  "final_await_suspend p = (p\<lparr>tp_done := True\<rparr>, tp_continuation p)"

text \<open>\<open>task_promise<void>\<close> and \<open>task_promise<T&>\<close> keep the exception beside the value.\<close>

record void_promise =
  vp_exception :: "cpp_exn option"

definition void_unhandled_exception :: "cpp_exn \<Rightarrow> void_promise \<Rightarrow> void_promise" where
  "void_unhandled_exception e p = p\<lparr>vp_exception := Some e\<rparr>"

definition void_result :: "void_promise \<Rightarrow> cpp_exn + unit" where
  "void_result p = (case vp_exception p of Some e \<Rightarrow> Inl e | None \<Rightarrow> Inr ())"

record ref_promise = void_promise +
  rp_value :: "addr option"

definition ref_return_value :: "addr \<Rightarrow> ref_promise \<Rightarrow> ref_promise" where
  "ref_return_value a p = p\<lparr>rp_value := Some a\<rparr>"

definition ref_result :: "ref_promise \<Rightarrow> (cpp_exn + addr) checked" where
  "ref_result p = (case vp_exception p of Some e \<Rightarrow> Val (Inl e)
    | None \<Rightarrow> (case rp_value p of Some a \<Rightarrow> Val (Inr a) | None \<Rightarrow> Undefined))"

section \<open>Tasks\<close>

text \<open>A task object owns the frame of its coroutine.\<close>

record task =
  m_coroutine :: "nat option"

type_synonym 'v frames = "nat \<rightharpoonup> 'v task_promise"

definition task_default :: task where "task_default = \<lparr> m_coroutine = None \<rparr>"

definition task_of :: "nat \<Rightarrow> task" where "task_of h = \<lparr> m_coroutine = Some h \<rparr>"

definition task_move :: "task \<Rightarrow> task \<times> task" where
  "task_move t = (\<lparr> m_coroutine = m_coroutine t \<rparr>, t\<lparr>m_coroutine := None\<rparr>)"

text \<open>\<open>coroutine_handle::destroy\<close>, as a trace of the frames destroyed.\<close>

definition task_destroy :: "task \<Rightarrow> nat list \<Rightarrow> nat list" where
  "task_destroy t log = (case m_coroutine t of Some h \<Rightarrow> log @ [h] | None \<Rightarrow> log)"

text \<open>Move assignment between the objects at two addresses.\<close>

definition task_assign :: "nat \<Rightarrow> nat \<Rightarrow> task \<Rightarrow> task \<Rightarrow> nat list \<Rightarrow> task \<times> task \<times> nat list" where
  "task_assign this other_address t other log =
    (if other_address \<noteq> this then
       (let log = task_destroy t log in
        (t\<lparr>m_coroutine := m_coroutine other\<rparr>, other\<lparr>m_coroutine := None\<rparr>, log))
     else (t, other, log))"

definition handle_done :: "'v frames \<Rightarrow> nat \<Rightarrow> bool" where
  "handle_done fr h = (case fr h of Some p \<Rightarrow> tp_done p | None \<Rightarrow> False)"

definition is_ready :: "'v frames \<Rightarrow> task \<Rightarrow> bool" where
  "is_ready fr t = (case m_coroutine t of None \<Rightarrow> True | Some h \<Rightarrow> handle_done fr h)"

definition task_await_ready :: "'v frames \<Rightarrow> task \<Rightarrow> bool" where
  "task_await_ready fr t = (case m_coroutine t of None \<Rightarrow> True | Some h \<Rightarrow> handle_done fr h)"

text \<open>\<open>await_suspend\<close> registers the awaiting coroutine and returns the handle to run next.\<close>

definition task_await_suspend :: "nat \<Rightarrow> 'v frames \<Rightarrow> task \<Rightarrow> 'v frames \<times> nat option" where
  "task_await_suspend awaiting fr t = (case m_coroutine t of
      Some h \<Rightarrow> (fr(h := map_option (set_continuation awaiting) (fr h)), Some h)
    | None \<Rightarrow> (fr, None))"

definition task_await_resume :: "'v frames \<Rightarrow> task \<Rightarrow> (cpp_exn + 'v) checked" where
  "task_await_resume fr t = (case m_coroutine t of
      None \<Rightarrow> Val (Inl Broken_promise)
    | Some h \<Rightarrow> (case fr h of Some p \<Rightarrow> promise_result p | None \<Rightarrow> Undefined))"

text \<open>\<open>when_ready\<close> has the same \<open>await_ready\<close> and \<open>await_suspend\<close> and returns nothing.\<close>

definition when_ready_await_resume :: "'v frames \<Rightarrow> task \<Rightarrow> unit" where
  "when_ready_await_resume fr t = ()"

text \<open>
  Running the body of a frame to its end: the outcome is stored, then the final suspension
  hands control to the continuation.
\<close>

definition run_body :: "cpp_exn + 'v \<Rightarrow> 'v task_promise \<Rightarrow> 'v task_promise \<times> nat option" where
  "run_body out p = final_await_suspend
    (case out of Inl e \<Rightarrow> unhandled_exception e p | Inr v \<Rightarrow> return_value v p)"

definition run_frame :: "cpp_exn + 'v \<Rightarrow> nat \<Rightarrow> 'v frames \<Rightarrow> 'v frames \<times> nat option" where
  "run_frame out h fr = (case fr h of
      Some p \<Rightarrow> (let (p', c) = run_body out p in (fr(h \<mapsto> p'), c))
    | None \<Rightarrow> (fr, None))"

text \<open>
  C28: A task delivers its outcome, exactly to the coroutine that awaits it. The body does not run
  before the task is awaited; awaiting it transfers control to the body, and when the body has
  ended, to the awaiting coroutine, which receives the returned value or the thrown exception;
  the task is then ready and awaiting it again gives the same without suspending. Awaiting an
  empty or moved-from task throws \<open>broken_promise\<close>.
\<close>

theorem task_delivers_outcome:
  "let t = task_of h; fr = fr0(h \<mapsto> task_promise_new);
       (fr1, run) = task_await_suspend awaiting fr t;
       (fr2, resumed) = run_frame out h fr1 in
    \<not> task_await_ready fr t \<and> run = Some h \<and> resumed = Some awaiting \<and>
    task_await_resume fr2 t = Val out \<and> task_await_ready fr2 t \<and> is_ready fr2 t \<and>
    task_await_resume fr2 (snd (task_move t)) = Val (Inl Broken_promise) \<and>
    task_await_resume fr2 (fst (task_move t)) = Val out \<and>
    task_await_ready fr2 task_default \<and> task_await_resume fr2 task_default = Val (Inl Broken_promise)"
  by (cases out)
    (simp_all add: task_of_def task_await_suspend_def run_frame_def run_body_def final_await_suspend_def
      unhandled_exception_def return_value_def task_promise_new_def set_continuation_def Let_def
      task_await_ready_def handle_done_def task_await_resume_def promise_result_def is_ready_def
      task_move_def task_default_def)

section \<open>Ownership of frames\<close>

record task_state =
  ts_objects :: "nat \<rightharpoonup> task"
  ts_frames :: "nat set"
  ts_log :: "nat list"

definition ts_init :: "task_state \<Rightarrow> bool" where
  "ts_init s \<longleftrightarrow> s = \<lparr> ts_objects = Map.empty, ts_frames = {}, ts_log = [] \<rparr>"

definition removed :: "nat list \<Rightarrow> nat list \<Rightarrow> nat set \<Rightarrow> nat set" where
  "removed log log' frs = frs - set (drop (length log) log')"

inductive ts_step :: "task_state \<Rightarrow> task_state \<Rightarrow> bool" where
  ts_default: "ts_objects s a = None \<Longrightarrow> ts_step s (s\<lparr>ts_objects := (ts_objects s)(a \<mapsto> task_default)\<rparr>)"
| ts_create: "ts_objects s a = None \<Longrightarrow> h \<notin> ts_frames s \<Longrightarrow>
    ts_step s (s\<lparr>ts_objects := (ts_objects s)(a \<mapsto> task_of h), ts_frames := insert h (ts_frames s)\<rparr>)"
| ts_move: "ts_objects s b = Some u \<Longrightarrow> ts_objects s a = None \<Longrightarrow> task_move u = (t, u') \<Longrightarrow>
    ts_step s (s\<lparr>ts_objects := (ts_objects s)(b \<mapsto> u', a \<mapsto> t)\<rparr>)"
| ts_assign: "ts_objects s a = Some t \<Longrightarrow> ts_objects s b = Some u \<Longrightarrow>
    task_assign a b t u (ts_log s) = (t', u', log') \<Longrightarrow>
    ts_step s (s\<lparr>ts_objects := (ts_objects s)(b \<mapsto> u', a \<mapsto> t'), ts_log := log',
      ts_frames := removed (ts_log s) log' (ts_frames s)\<rparr>)"
| ts_destroy: "ts_objects s a = Some t \<Longrightarrow> task_destroy t (ts_log s) = log' \<Longrightarrow>
    ts_step s (s\<lparr>ts_objects := (ts_objects s)(a := None), ts_log := log',
      ts_frames := removed (ts_log s) log' (ts_frames s)\<rparr>)"

definition task_owners :: "task_state \<Rightarrow> nat \<rightharpoonup> nat" where
  "task_owners s = (\<lambda>a. case ts_objects s a of Some t \<Rightarrow> m_coroutine t | None \<Rightarrow> None)"

definition ts_inv :: "task_state \<Rightarrow> bool" where
  "ts_inv s \<longleftrightarrow> one_owner (task_owners s) (ts_frames s)"

lemma task_owners_lookup:
  "ts_objects s a = Some t \<Longrightarrow> task_owners s a = m_coroutine t"
  "ts_objects s a = None \<Longrightarrow> task_owners s a = None"
  by (simp_all add: task_owners_def)

lemma task_owners_update:
  "task_owners (s\<lparr>ts_objects := (ts_objects s)(a \<mapsto> t)\<rparr>) = (task_owners s)(a := m_coroutine t)"
  "task_owners (s\<lparr>ts_objects := (ts_objects s)(a \<mapsto> t), ts_frames := fs\<rparr>) = (task_owners s)(a := m_coroutine t)"
  "task_owners (s\<lparr>ts_objects := (ts_objects s)(b \<mapsto> u, a \<mapsto> t)\<rparr>) = (task_owners s)(b := m_coroutine u, a := m_coroutine t)"
  "task_owners (s\<lparr>ts_objects := (ts_objects s)(b \<mapsto> u, a \<mapsto> t), ts_log := l, ts_frames := fs\<rparr>)
    = (task_owners s)(b := m_coroutine u, a := m_coroutine t)"
  "task_owners (s\<lparr>ts_objects := (ts_objects s)(a := None), ts_log := l, ts_frames := fs\<rparr>) = (task_owners s)(a := None)"
  by (auto simp: task_owners_def)

lemma removed_destroy: "removed log (task_destroy t log) frs = frs - set_option (m_coroutine t)"
  by (auto simp: removed_def task_destroy_def split: option.splits)

lemma ts_inv_step:
  assumes "ts_inv s" and "ts_step s s'"
  shows "ts_inv s'"
  using assms(2)
proof (cases rule: ts_step.cases)
  case (ts_default a)
  then have "(task_owners s)(a := None) = task_owners s" by (auto simp: task_owners_def)
  with ts_default assms(1) show ?thesis by (simp add: ts_inv_def task_owners_update task_default_def)
next
  case (ts_create a h)
  with assms(1) show ?thesis
    by (simp add: ts_inv_def task_owners_update task_of_def one_owner_add task_owners_lookup)
next
  case (ts_move b u a t u')
  with assms(1) one_owner_move [of "task_owners s" "ts_frames s" a b] show ?thesis
    by (auto simp: ts_inv_def task_owners_update task_move_def task_owners_lookup)
next
  case (ts_assign a t b u t' u' log')
  show ?thesis
  proof (cases "a = b")
    case True
    with ts_assign have "(task_owners s)(a := m_coroutine t) = task_owners s"
      by (auto simp: task_owners_def)
    with True ts_assign assms(1) show ?thesis
      by (auto simp: ts_inv_def task_owners_update task_assign_def removed_def)
  next
    case False
    have "one_owner ((task_owners s)(a := None)) (ts_frames s - set_option (task_owners s a))"
      using assms(1) by (simp add: ts_inv_def one_owner_remove)
    from one_owner_move [OF this, of a b] False ts_assign show ?thesis
      by (auto simp: ts_inv_def task_owners_update task_assign_def removed_destroy task_owners_lookup
          fun_upd_twist Let_def)
  qed
next
  case (ts_destroy a t log')
  with assms(1) one_owner_remove [of "task_owners s" "ts_frames s" a] show ?thesis
    by (auto simp: ts_inv_def task_owners_update removed_destroy task_owners_lookup)
qed

interpretation tasks: step_system ts_init ts_step ts_inv
proof
  show "ts_inv s" if "ts_init s" for s
    using that by (auto simp: ts_init_def ts_inv_def one_owner_def task_owners_def)
qed (rule ts_inv_step)

text \<open>
  Coroutine frames are destroyed exactly once: in programs that create, move, assign (also to
  themselves) and destroy tasks, every live frame has exactly one owner, every step destroys
  only frames that are alive, each at most once, and when no task is left no frame is.
\<close>

theorem task_frames_destroyed_once:
  assumes "reaches ts_init ts_step s"
  shows "(\<forall>a b t u. ts_objects s a = Some t \<and> ts_objects s b = Some u \<and> m_coroutine t = m_coroutine u
      \<and> m_coroutine t \<noteq> None \<longrightarrow> a = b)
    \<and> (\<forall>s'. ts_step s s' \<longrightarrow> set (drop (length (ts_log s)) (ts_log s')) \<subseteq> ts_frames s
        \<and> distinct (drop (length (ts_log s)) (ts_log s')))
    \<and> (ts_objects s = Map.empty \<longrightarrow> ts_frames s = {})"
proof (intro conjI allI impI)
  note inv = tasks.inv_reaches [OF assms, unfolded ts_inv_def one_owner_def]
  fix a b t u
  assume *: "ts_objects s a = Some t \<and> ts_objects s b = Some u \<and> m_coroutine t = m_coroutine u \<and> m_coroutine t \<noteq> None"
  then obtain h where "m_coroutine t = Some h" by blast
  with * have "task_owners s a = Some h" "task_owners s b = Some h"
    by (simp_all add: task_owners_lookup)
  with inv show "a = b" by blast
next
  note inv = tasks.inv_reaches [OF assms, unfolded ts_inv_def one_owner_def]
  have alive: "ts_objects s a = Some t \<Longrightarrow> m_coroutine t = Some h \<Longrightarrow> h \<in> ts_frames s" for a t h
    using inv task_owners_lookup(1) [of s a t] ranI [of "task_owners s" a] by auto
  fix s' assume "ts_step s s'"
  then have "drop (length (ts_log s)) (ts_log s') = [] \<or> (\<exists>h \<in> ts_frames s. drop (length (ts_log s)) (ts_log s') = [h])"
    by (cases rule: ts_step.cases)
      (auto simp: task_assign_def task_destroy_def Let_def split: if_splits option.splits dest: alive)
  then show "set (drop (length (ts_log s)) (ts_log s')) \<subseteq> ts_frames s"
    and "distinct (drop (length (ts_log s)) (ts_log s'))"
    by auto
next
  assume "ts_objects s = Map.empty"
  then show "ts_frames s = {}"
    using tasks.inv_reaches [OF assms] by (auto simp: ts_inv_def one_owner_def task_owners_def)
qed

text \<open>Creating a frame, moving the task, destroying both objects.\<close>

theorem task_frames_destroyed_once_witness:
  "let s = \<lparr> ts_objects = [0 \<mapsto> task_default, 1 \<mapsto> task_of 7], ts_frames = {7}, ts_log = [] \<rparr> in
    reaches ts_init ts_step s \<and>
    (\<forall>s'. ts_step s s' \<longrightarrow> set (drop (length (ts_log s)) (ts_log s')) \<subseteq> {7})"
proof -
  let ?i = "\<lparr> ts_objects = Map.empty, ts_frames = {}, ts_log = [] \<rparr> :: task_state"
  let ?s = "\<lparr> ts_objects = [0 \<mapsto> task_default, 1 \<mapsto> task_of 7], ts_frames = {7}, ts_log = [] \<rparr> :: task_state"
  have "reaches ts_init ts_step ?i"
    by (rule reaches_init) (simp add: ts_init_def)
  from reaches_step [OF this ts_create [of ?i 0 7]]
  have "reaches ts_init ts_step (?i\<lparr>ts_objects := [0 \<mapsto> task_of 7], ts_frames := {7}\<rparr>)" by simp
  from reaches_step [OF this ts_move [of _ 0 "task_of 7" 1 "task_of 7" task_default]]
  have "reaches ts_init ts_step ?s" by (simp add: task_of_def task_move_def task_default_def)
  with task_frames_destroyed_once [OF this] show ?thesis by simp
qed

section \<open>Mapping over an awaitable\<close>

text \<open>
  An awaiter: whether it is ready, what it does with the awaiting coroutine, and what it resumes
  with. \<open>fmap_awaiter\<close> forwards the first two and applies the function to the third.
\<close>

record ('s, 'r) awaiter =
  aw_ready :: bool
  aw_suspend :: "nat \<Rightarrow> 's"
  aw_resume :: "cpp_exn + 'r"

definition fmap_await_ready :: "('s, 'r) awaiter \<Rightarrow> bool" where
  "fmap_await_ready a = aw_ready a"

definition fmap_await_suspend :: "('s, 'r) awaiter \<Rightarrow> nat \<Rightarrow> 's" where
  "fmap_await_suspend a coro = aw_suspend a coro"

definition fmap_await_resume :: "('r \<Rightarrow> cpp_exn + 'q) \<Rightarrow> ('s, 'r) awaiter \<Rightarrow> cpp_exn + 'q" where
  "fmap_await_resume func a = (case aw_resume a of Inl e \<Rightarrow> Inl e | Inr r \<Rightarrow> func r)"

definition fmap :: "('r \<Rightarrow> cpp_exn + 'q) \<Rightarrow> ('s, 'r) awaiter \<Rightarrow> ('s, 'q) awaiter" where
  "fmap func a = \<lparr> aw_ready = fmap_await_ready a, aw_suspend = fmap_await_suspend a,
    aw_resume = fmap_await_resume func a \<rparr>"

definition fmap_pipe :: "('s, 'r) awaiter \<Rightarrow> ('r \<Rightarrow> cpp_exn + 'q) \<Rightarrow> ('s, 'q) awaiter" where
  "fmap_pipe a transform = fmap transform a"

lemma fmap_identity: "fmap Inr a = a"
  by (simp add: fmap_def fmap_await_ready_def fmap_await_suspend_def [abs_def] fmap_await_resume_def
      split: sum.split)

lemma fmap_compose:
  "fmap g (fmap f a) = fmap (\<lambda>r. case f r of Inl e \<Rightarrow> Inl e | Inr q \<Rightarrow> g q) a"
  by (simp add: fmap_def fmap_await_ready_def fmap_await_suspend_def [abs_def] fmap_await_resume_def
      split: sum.split)

section \<open>Blocking on an event\<close>

text \<open>
  The event's value is 0 or 1. One thread waits, one sets; \<open>futex\<close> compares and sleeps
  atomically, and may return for no reason.
\<close>

datatype wait_pc = W_start | W_loop int | W_asleep | W_reload | W_done
datatype set_pc = S_start | S_stored | S_done

record event_world =
  ev_value :: int
  ev_wait :: wait_pc
  ev_set :: set_pc

definition event_new :: "bool \<Rightarrow> int" where
  "event_new initially_set = (if initially_set then 1 else 0)"

definition event_store :: "event_world \<Rightarrow> event_world" where
  "event_store w = w\<lparr>ev_value := 1, ev_set := S_stored\<rparr>"

definition event_wake :: "event_world \<Rightarrow> event_world" where
  "event_wake w = w\<lparr>ev_set := S_done, ev_wait := (if ev_wait w = W_asleep then W_reload else ev_wait w)\<rparr>"

definition event_reset :: "int \<Rightarrow> int" where
  "event_reset v = 0"

text \<open>What the waiting thread does next, if it is not asleep or done.\<close>

definition wait_next :: "event_world \<Rightarrow> event_world option" where
  "wait_next w = (case ev_wait w of
      W_start \<Rightarrow> Some (w\<lparr>ev_wait := W_loop (ev_value w)\<rparr>)
    | W_loop old \<Rightarrow>
        if old = 0 then (if ev_value w = old then Some (w\<lparr>ev_wait := W_asleep\<rparr>) else Some (w\<lparr>ev_wait := W_done\<rparr>))
        else Some (w\<lparr>ev_wait := W_done\<rparr>)
    | W_asleep \<Rightarrow> None
    | W_reload \<Rightarrow> Some (w\<lparr>ev_wait := W_loop (ev_value w)\<rparr>)
    | W_done \<Rightarrow> None)"

inductive wait_step :: "event_world \<Rightarrow> event_world \<Rightarrow> bool" where
  wait_runs: "wait_next w = Some w' \<Longrightarrow> wait_step w w'"

inductive event_step :: "event_world \<Rightarrow> event_world \<Rightarrow> bool" where
  waiter: "wait_step w w' \<Longrightarrow> event_step w w'"
| spurious: "ev_wait w = W_asleep \<Longrightarrow> event_step w (w\<lparr>ev_wait := W_reload\<rparr>)"
| set_store: "ev_set w = S_start \<Longrightarrow> event_step w (event_store w)"
| set_wake: "ev_set w = S_stored \<Longrightarrow> event_step w (event_wake w)"

definition event_init :: "event_world \<Rightarrow> bool" where
  "event_init w \<longleftrightarrow> w = \<lparr> ev_value = event_new False, ev_wait = W_start, ev_set = S_start \<rparr>"

definition event_inv :: "event_world \<Rightarrow> bool" where
  "event_inv w \<longleftrightarrow> ev_value w = (if ev_set w = S_start then 0 else 1) \<and>
    (ev_set w = S_done \<longrightarrow> ev_wait w \<noteq> W_asleep) \<and>
    (ev_wait w = W_done \<longrightarrow> ev_set w \<noteq> S_start) \<and>
    (case ev_wait w of W_loop old \<Rightarrow> old = 0 \<or> ev_set w \<noteq> S_start | _ \<Rightarrow> True)"

lemma event_inv_step: "event_inv w \<Longrightarrow> event_step w w' \<Longrightarrow> event_inv w'"
  by (erule event_step.cases)
    (auto simp: event_inv_def wait_step.simps wait_next_def event_store_def event_wake_def
      split: wait_pc.splits if_splits)

interpretation event: step_system event_init event_step event_inv
proof
  show "event_inv w" if "event_init w" for w
    using that by (auto simp: event_init_def event_inv_def event_new_def)
qed (rule event_inv_step)

lemma loop_passes:
  "ev_wait w = W_loop old \<Longrightarrow> ev_value w = 1 \<Longrightarrow> wait_step\<^sup>*\<^sup>* w (w\<lparr>ev_wait := W_done\<rparr>)"
  by (rule r_into_rtranclp, rule wait_runs) (simp add: wait_next_def)

lemma reload_passes:
  assumes "ev_wait w = W_reload \<or> ev_wait w = W_start" and "ev_value w = 1"
  shows "wait_step\<^sup>*\<^sup>* w (w\<lparr>ev_wait := W_done\<rparr>)"
proof -
  let ?w = "w\<lparr>ev_wait := W_loop 1\<rparr>"
  have "wait_step w ?w" by (rule wait_runs) (use assms in \<open>auto simp: wait_next_def\<close>)
  moreover have "wait_step\<^sup>*\<^sup>* ?w (w\<lparr>ev_wait := W_done\<rparr>)"
    using loop_passes [of ?w 1] assms(2) by simp
  ultimately show ?thesis by (rule converse_rtranclp_into_rtranclp)
qed

text \<open>
  C30: The blocking wait neither returns early nor sleeps forever. \<open>wait\<close> returns only after \<open>set\<close> has
  stored the value, whatever the spurious wake-ups; and once \<open>set\<close> has returned, the waiting
  thread is not asleep and its own steps alone take it out of \<open>wait\<close>.
\<close>

theorem event_wait_returns:
  assumes "reaches event_init event_step w"
  shows "(ev_wait w = W_done \<longrightarrow> ev_value w = 1) \<and>
    (ev_set w = S_done \<longrightarrow> (\<exists>w'. wait_step\<^sup>*\<^sup>* w w' \<and> ev_wait w' = W_done))"
proof -
  note inv = event.inv_reaches [OF assms]
  have "wait_step\<^sup>*\<^sup>* w (w\<lparr>ev_wait := W_done\<rparr>)" if "ev_set w = S_done"
  proof -
    from inv that have v: "ev_value w = 1" and "ev_wait w \<noteq> W_asleep" by (auto simp: event_inv_def)
    then show ?thesis
    proof (cases "ev_wait w")
      case W_done
      then have "w\<lparr>ev_wait := W_done\<rparr> = w" by simp
      then show ?thesis by simp
    qed (auto intro: loop_passes reload_passes)
  qed
  moreover have "ev_wait w = W_done \<longrightarrow> ev_value w = 1"
    using inv by (auto simp: event_inv_def)
  ultimately show ?thesis by fastforce
qed

theorem event_wait_returns_witness:
  "\<exists>w'. wait_step\<^sup>*\<^sup>* \<lparr> ev_value = 1, ev_wait = W_reload, ev_set = S_done \<rparr> w' \<and> ev_wait w' = W_done"
proof -
  let ?w = "\<lambda>v p q. \<lparr> ev_value = v, ev_wait = p, ev_set = q \<rparr> :: event_world"
  have "reaches event_init event_step (?w 0 W_start S_start)"
    by (rule reaches_init) (simp add: event_init_def event_new_def)
  moreover have "event_step (?w 0 W_start S_start) (?w 0 (W_loop 0) S_start)"
    by (intro waiter wait_runs) (simp add: wait_next_def)
  moreover have "event_step (?w 0 (W_loop 0) S_start) (?w 0 W_asleep S_start)"
    by (intro waiter wait_runs) (simp add: wait_next_def)
  moreover have "event_step (?w 0 W_asleep S_start) (?w 1 W_asleep S_stored)"
    using set_store [of "?w 0 W_asleep S_start"] by (simp add: event_store_def)
  moreover have "event_step (?w 1 W_asleep S_stored) (?w 1 W_reload S_done)"
    using set_wake [of "?w 1 W_asleep S_stored"] by (simp add: event_wake_def)
  ultimately have "reaches event_init event_step (?w 1 W_reload S_done)"
    by (blast intro: reaches_step)
  from event_wait_returns [OF this] show ?thesis by simp
qed

section \<open>sync_wait\<close>

record 'r sync_wait_task_promise =
  sw_result :: "'r option"
  sw_exception :: "cpp_exn option"
  sw_event_set :: bool

definition sync_wait_task_promise_new :: "'r sync_wait_task_promise" where
  "sync_wait_task_promise_new = \<lparr> sw_result = None, sw_exception = None, sw_event_set = False \<rparr>"

definition sw_final_suspend :: "'r sync_wait_task_promise \<Rightarrow> 'r sync_wait_task_promise" where
  "sw_final_suspend p = p\<lparr>sw_event_set := True\<rparr>"

definition sw_yield_value :: "'r \<Rightarrow> 'r sync_wait_task_promise \<Rightarrow> 'r sync_wait_task_promise" where
  "sw_yield_value r p = sw_final_suspend (p\<lparr>sw_result := Some r\<rparr>)"

definition sw_unhandled_exception :: "cpp_exn \<Rightarrow> 'r sync_wait_task_promise \<Rightarrow> 'r sync_wait_task_promise" where
  "sw_unhandled_exception e p = p\<lparr>sw_exception := Some e\<rparr>"

definition sw_task_result :: "'r sync_wait_task_promise \<Rightarrow> (cpp_exn + 'r) checked" where
  "sw_task_result p = (case sw_exception p of Some e \<Rightarrow> Val (Inl e)
    | None \<Rightarrow> (case sw_result p of Some r \<Rightarrow> Val (Inr r) | None \<Rightarrow> Undefined))"

definition make_sync_wait_task :: "cpp_exn + 'r \<Rightarrow> 'r sync_wait_task_promise" where
  "make_sync_wait_task outcome = (case outcome of
      Inr r \<Rightarrow> sw_yield_value r sync_wait_task_promise_new
    | Inl e \<Rightarrow> sw_final_suspend (sw_unhandled_exception e sync_wait_task_promise_new))"

text \<open>\<open>sync_wait\<close> reads the result once the event is set; before that it blocks.\<close>

definition sync_wait :: "cpp_exn + 'r \<Rightarrow> (cpp_exn + 'r) checked option" where
  "sync_wait awaitable =
    (let task = make_sync_wait_task awaitable in
     if sw_event_set task then Some (sw_task_result task) else None)"

lemma sync_wait_outcome: "sync_wait out = Some (Val out)"
  by (cases out) (simp_all add: sync_wait_def make_sync_wait_task_def sw_yield_value_def
      sw_final_suspend_def sw_unhandled_exception_def sync_wait_task_promise_new_def sw_task_result_def)

section \<open>The single-consumer auto-reset event\<close>

text \<open>The state word: null, the event's own address (set), or the address of a waiter's handle.\<close>

datatype auto_reset_state = Ar_not_set | Ar_set | Ar_waiter nat

definition auto_reset_event_new :: "bool \<Rightarrow> auto_reset_state" where
  "auto_reset_event_new initially_set = (if initially_set then Ar_set else Ar_not_set)"

text \<open>
  \<open>set()\<close> in its atomic actions: the exchange, whose old value may be a waiter; for a waiter the
  exchange back to null; and then the resumption.
\<close>

definition ar_set_exchange :: "auto_reset_state \<Rightarrow> auto_reset_state \<times> nat option" where
  "ar_set_exchange st = (Ar_set, case st of Ar_waiter h \<Rightarrow> Some h | _ \<Rightarrow> None)"

definition ar_set_reset :: "auto_reset_state \<Rightarrow> auto_reset_state" where
  "ar_set_reset st = Ar_not_set"

definition ar_await_suspend :: "nat \<Rightarrow> auto_reset_state \<Rightarrow> auto_reset_state \<times> bool" where
  "ar_await_suspend h st = (if st = Ar_not_set then (Ar_waiter h, True) else (Ar_not_set, False))"

datatype consumer = C_running | C_suspended nat

record ar_world =
  ar_state :: auto_reset_state
  ar_consumer :: consumer
  ar_holding :: "nat list"
  ar_resuming :: "nat list"

text \<open>Any number of threads set the event; one coroutine at a time awaits it.\<close>

inductive ar_step :: "ar_world \<Rightarrow> ar_world \<Rightarrow> bool" where
  ar_set: "ar_set_exchange (ar_state w) = (st, old) \<Longrightarrow>
    ar_step w (w\<lparr>ar_state := st, ar_holding := ar_holding w @ (case old of Some h \<Rightarrow> [h] | None \<Rightarrow> [])\<rparr>)"
| ar_reset: "ar_holding w = h # hs \<Longrightarrow>
    ar_step w (w\<lparr>ar_state := ar_set_reset (ar_state w), ar_holding := hs, ar_resuming := ar_resuming w @ [h]\<rparr>)"
| ar_resume: "ar_resuming w = h # hs \<Longrightarrow> ar_step w (w\<lparr>ar_consumer := C_running, ar_resuming := hs\<rparr>)"
| ar_await: "ar_consumer w = C_running \<Longrightarrow> ar_await_suspend h (ar_state w) = (st, suspended) \<Longrightarrow>
    ar_step w (w\<lparr>ar_state := st, ar_consumer := (if suspended then C_suspended h else C_running)\<rparr>)"

definition ar_init :: "ar_world \<Rightarrow> bool" where
  "ar_init w \<longleftrightarrow> (\<exists>b. w = \<lparr> ar_state = auto_reset_event_new b, ar_consumer = C_running, ar_holding = [], ar_resuming = [] \<rparr>)"

definition ar_inv :: "ar_world \<Rightarrow> bool" where
  "ar_inv w \<longleftrightarrow> (case ar_consumer w of
      C_running \<Rightarrow> ar_holding w = [] \<and> ar_resuming w = [] \<and> (\<forall>h. ar_state w \<noteq> Ar_waiter h)
    | C_suspended h \<Rightarrow>
        ar_state w = Ar_waiter h \<and> ar_holding w = [] \<and> ar_resuming w = [] \<or>
        ar_state w = Ar_set \<and> ar_holding w = [h] \<and> ar_resuming w = [] \<or>
        (\<forall>h'. ar_state w \<noteq> Ar_waiter h') \<and> ar_holding w = [] \<and> ar_resuming w = [h])"

lemma ar_inv_step: "ar_inv w \<Longrightarrow> ar_step w w' \<Longrightarrow> ar_inv w'"
  by (erule ar_step.cases)
    (auto simp: ar_inv_def ar_set_exchange_def ar_set_reset_def ar_await_suspend_def
      split: consumer.splits auto_reset_state.splits if_splits)

interpretation auto_reset: step_system ar_init ar_step ar_inv
proof
  show "ar_inv w" if "ar_init w" for w
    using that by (auto simp: ar_init_def ar_inv_def auto_reset_event_new_def)
qed (rule ar_inv_step)

text \<open>
  C31: The auto-reset event resumes its waiter exactly once, whatever the number and interleaving of
  \<open>set()\<close> calls: only the suspended consumer is ever resumed, never a running coroutine and
  never twice; a suspended consumer is either still registered in the event or held by exactly
  one \<open>set()\<close> call that is about to resume it; and the assertion in \<open>await_suspend\<close>, that the
  state it finds is "set", holds.
\<close>

theorem auto_reset_event_sound:
  assumes "reaches ar_init ar_step w"
  shows "(\<forall>h hs. ar_resuming w = h # hs \<longrightarrow> ar_consumer w = C_suspended h \<and> hs = [] \<and> ar_holding w = [])
    \<and> (\<forall>h. ar_consumer w = C_suspended h \<longrightarrow> ar_state w = Ar_waiter h \<or> ar_holding w @ ar_resuming w = [h])
    \<and> (ar_consumer w = C_running \<longrightarrow> ar_state w = Ar_not_set \<or> ar_state w = Ar_set)"
proof -
  note inv = auto_reset.inv_reaches [OF assms]
  show ?thesis
  proof (cases "ar_consumer w")
    case C_running
    with inv show ?thesis by (cases "ar_state w") (auto simp: ar_inv_def)
  next
    case (C_suspended h)
    with inv show ?thesis by (auto simp: ar_inv_def)
  qed
qed

theorem auto_reset_event_sound_witness:
  "reaches ar_init ar_step \<lparr> ar_state = Ar_set, ar_consumer = C_suspended 9, ar_holding = [9], ar_resuming = [] \<rparr>
   \<and> (Ar_set = Ar_waiter 9 \<or> [9] @ [] = [9 :: nat])"
proof -
  let ?w = "\<lambda>st c hs. \<lparr> ar_state = st, ar_consumer = c, ar_holding = hs, ar_resuming = [] \<rparr> :: ar_world"
  have "reaches ar_init ar_step (?w Ar_not_set C_running [])"
    by (rule reaches_init) (auto simp: ar_init_def auto_reset_event_new_def)
  moreover have "ar_step (?w Ar_not_set C_running []) (?w (Ar_waiter 9) (C_suspended 9) [])"
    using ar_await [of "?w Ar_not_set C_running []" 9 "Ar_waiter 9" True] by (simp add: ar_await_suspend_def)
  moreover have "ar_step (?w (Ar_waiter 9) (C_suspended 9) []) (?w Ar_set (C_suspended 9) [9])"
    using ar_set [of "?w (Ar_waiter 9) (C_suspended 9) []" Ar_set "Some 9"] by (simp add: ar_set_exchange_def)
  ultimately have r: "reaches ar_init ar_step (?w Ar_set (C_suspended 9) [9])"
    by (blast intro: reaches_step)
  with auto_reset_event_sound [OF r] show ?thesis by simp
qed

end
