(* ===== verification/Coro_Awaitable.thy ===== *)
theory Coro_Awaitable
  imports Coro_Join Coro_Task
begin

text \<open>
  The objects that \<open>when_all\<close>, \<open>sync_wait\<close> and \<open>task\<close> build around their promises:
  \<open>detail/when_all_ready_awaitable.h\<close> with the tasks it owns and starts, the promises of \<open>void\<close>
  tasks, the ownership of coroutine frames, and the protocol of \<open>task.h\<close> for compilers without
  symmetric transfer.
\<close>

section \<open>The awaitable of when_all_ready\<close>

text \<open>
  The counter and the tasks, each by the promise in its frame; \<open>wr_resumed\<close> records the handles the
  counter has resumed. A tuple and a vector of tasks differ in their types only.
\<close>

record 'r when_all_ready_awaitable =
  wr_counter :: when_all_counter
  wr_tasks :: "'r when_all_task_promise list"
  wr_resumed :: "nat option list"

definition when_all_ready_awaitable_new :: "'r when_all_task_promise list \<Rightarrow> 'r when_all_ready_awaitable" where
  "when_all_ready_awaitable_new tasks =
    \<lparr> wr_counter = when_all_counter_new (of_nat (length tasks)), wr_tasks = tasks, wr_resumed = [] \<rparr>"

definition when_all_ready_awaitable_move :: "'r when_all_ready_awaitable \<Rightarrow> 'r when_all_ready_awaitable" where
  "when_all_ready_awaitable_move other = when_all_ready_awaitable_new (wr_tasks other)"

definition wr_is_ready :: "'r when_all_ready_awaitable \<Rightarrow> bool" where
  "wr_is_ready aw = counter_is_ready (wr_counter aw)"

text \<open>The final suspension of a task notifies the counter, which may resume the awaiting coroutine.\<close>

definition wr_notify :: "'r when_all_ready_awaitable \<Rightarrow> 'r when_all_ready_awaitable" where
  "wr_notify aw =
    (let (counter, resumed) = notify_awaitable_completed (wr_counter aw) in
     aw\<lparr>wr_counter := counter, wr_resumed := wr_resumed aw @ (case resumed of None \<Rightarrow> [] | Some h \<Rightarrow> [h])\<rparr>)"

definition wr_complete :: "nat \<Rightarrow> cpp_exn + 'r \<Rightarrow> 'r when_all_ready_awaitable \<Rightarrow> 'r when_all_ready_awaitable" where
  "wr_complete i outcome aw = wr_notify (aw\<lparr>wr_tasks := (wr_tasks aw)[i := make_when_all_task outcome]\<rparr>)"

text \<open>
  \<open>start_tasks\<close>: each task is resumed in turn. A task either runs to its end, with an outcome, or suspends,
  which is None here, and completes later.
\<close>

fun start_tasks :: "nat \<Rightarrow> (cpp_exn + 'r) option list \<Rightarrow> 'r when_all_ready_awaitable \<Rightarrow> 'r when_all_ready_awaitable" where
  "start_tasks i [] aw = aw"
| "start_tasks i (None # ts) aw = start_tasks (Suc i) ts aw"
| "start_tasks i (Some outcome # ts) aw = start_tasks (Suc i) ts (wr_complete i outcome aw)"

definition wr_try_await ::
  "nat \<Rightarrow> (cpp_exn + 'r) option list \<Rightarrow> 'r when_all_ready_awaitable \<Rightarrow> 'r when_all_ready_awaitable \<times> bool" where
  "wr_try_await h ts aw =
    (let aw = start_tasks 0 ts aw; (counter, suspended) = counter_try_await h (wr_counter aw) in
     (aw\<lparr>wr_counter := counter\<rparr>, suspended))"

definition wr_await_resume :: "'r when_all_ready_awaitable \<Rightarrow> 'r when_all_task_promise list" where
  "wr_await_resume aw = wr_tasks aw"

text \<open>
  \<open>operator co_await\<close>: \<open>await_ready\<close>, then \<open>await_suspend\<close>; the second component says whether the coroutine
  stays suspended. The awaitable of no tasks is always ready.
\<close>

definition wr_co_await ::
  "nat \<Rightarrow> (cpp_exn + 'r) option list \<Rightarrow> 'r when_all_ready_awaitable \<Rightarrow> 'r when_all_ready_awaitable \<times> bool" where
  "wr_co_await h ts aw = (if wr_is_ready aw then (aw, False) else wr_try_await h ts aw)"

definition empty_await_ready :: bool where
  "empty_await_ready = True"

definition empty_await_resume :: "'r when_all_task_promise list" where
  "empty_await_resume = []"

text \<open>The completions of the tasks that suspended, in the order they happen.\<close>

definition wr_completions :: "(nat \<times> (cpp_exn + 'r)) list \<Rightarrow> 'r when_all_ready_awaitable \<Rightarrow> 'r when_all_ready_awaitable" where
  "wr_completions cs aw = fold (\<lambda>(i, outcome). wr_complete i outcome) cs aw"

section \<open>Awaiting all tasks\<close>

definition unfinished :: "'r when_all_ready_awaitable \<Rightarrow> nat" where
  "unfinished aw = length (filter (\<lambda>p. wt_notified p = 0) (wr_tasks aw))"

definition wr_inv :: "nat option \<Rightarrow> 'r when_all_ready_awaitable \<Rightarrow> bool" where
  "wr_inv arrived aw \<longleftrightarrow> unat (m_count (wr_counter aw)) = unfinished aw + (if arrived = None then 1 else 0) \<and>
    m_awaitingCoroutine (wr_counter aw) = arrived"

lemma filter_update_length:
  assumes "i < length xs" and "P (xs ! i)" and "\<not> P y"
  shows "Suc (length (filter P (xs[i := y]))) = length (filter P xs)"
  using assms by (induction xs arbitrary: i) (auto split: nat.splits)

lemma wr_complete_step:
  assumes "wr_inv arrived aw" and "i < length (wr_tasks aw)" and "wt_notified (wr_tasks aw ! i) = 0"
  shows "wr_inv arrived (wr_complete i outcome aw)"
    and "wr_tasks (wr_complete i outcome aw) = (wr_tasks aw)[i := make_when_all_task outcome]"
    and "wr_resumed (wr_complete i outcome aw) =
      wr_resumed aw @ (if arrived \<noteq> None \<and> unfinished (wr_complete i outcome aw) = 0 then [arrived] else [])"
proof -
  show t: "wr_tasks (wr_complete i outcome aw) = (wr_tasks aw)[i := make_when_all_task outcome]"
    by (simp add: wr_complete_def wr_notify_def notify_awaitable_completed_def Let_def)
  have u: "Suc (unfinished (wr_complete i outcome aw)) = unfinished aw"
    unfolding unfinished_def t using assms(2,3) by (intro filter_update_length) simp_all
  with assms(1) have c: "unat (m_count (wr_counter aw)) = Suc (unfinished (wr_complete i outcome aw)) + (if arrived = None then 1 else 0)"
    by (simp add: wr_inv_def)
  show "wr_inv arrived (wr_complete i outcome aw)"
    using c assms(1) unat_minus_one [of "m_count (wr_counter aw)"]
    by (simp add: wr_inv_def wr_complete_def wr_notify_def notify_awaitable_completed_def Let_def)
  have "m_count (wr_counter aw) = 1 \<longleftrightarrow> unat (m_count (wr_counter aw)) = 1" by (rule unat_eq_one [symmetric])
  with c assms(1) show "wr_resumed (wr_complete i outcome aw) =
      wr_resumed aw @ (if arrived \<noteq> None \<and> unfinished (wr_complete i outcome aw) = 0 then [arrived] else [])"
    by (auto simp: wr_inv_def wr_complete_def wr_notify_def notify_awaitable_completed_def Let_def)
qed

text \<open>The promise of a task for what is known of its outcome.\<close>

definition promise_for :: "(cpp_exn + 'r) option \<Rightarrow> 'r when_all_task_promise" where
  "promise_for known = (case known of None \<Rightarrow> when_all_task_promise_new | Some outcome \<Rightarrow> make_when_all_task outcome)"

lemma promise_for_simps [simp]:
  "promise_for None = when_all_task_promise_new" "promise_for (Some outcome) = make_when_all_task outcome"
  by (simp_all add: promise_for_def)

lemma notified_new [simp]: "wt_notified when_all_task_promise_new = 0"
  by (simp add: when_all_task_promise_new_def)

lemma notified_promise_for [simp]: "wt_notified (promise_for known) = (if known = None then 0 else 1)"
  by (cases known) (simp_all add: when_all_task_promise_new_def)

lemma unfinished_promises: "wr_tasks aw = map promise_for ts \<Longrightarrow> unfinished aw = length (filter (\<lambda>t. t = None) ts)"
  by (simp add: unfinished_def filter_map comp_def)

lemma start_tasks_correct:
  assumes "wr_inv None aw" and "wr_tasks aw = map promise_for (done @ map (\<lambda>_. None) ts)" and "i = length done"
  shows "wr_inv None (start_tasks i ts aw) \<and> wr_tasks (start_tasks i ts aw) = map promise_for (done @ ts) \<and>
    wr_resumed (start_tasks i ts aw) = wr_resumed aw"
  using assms
proof (induction i ts aw arbitrary: "done" rule: start_tasks.induct)
  case (2 i ts aw)
  from 2(1) [of "done @ [None]"] 2(2-) show ?case by simp
next
  case (3 i outcome ts aw)
  let ?aw = "wr_complete i outcome aw"
  have "i < length (wr_tasks aw)" "wt_notified (wr_tasks aw ! i) = 0" using 3(3,4) by (simp_all add: nth_append)
  note s = wr_complete_step [OF 3(2) this, of outcome]
  have "wr_tasks ?aw = map promise_for ((done @ [Some outcome]) @ map (\<lambda>_. None) ts)"
    unfolding s(2) using 3(3,4) by (simp add: list_update_append)
  with 3(1) [OF s(1) this] 3(4) s(3) show ?case by simp
qed simp

lemma no_None: "length (filter (\<lambda>t. t = None) ts) = 0 \<longleftrightarrow> None \<notin> set ts"
  by (induction ts) auto

text \<open>One completion, by what is known of the outcomes.\<close>

lemma wr_complete_known:
  assumes "wr_inv (Some h) aw" and "wr_tasks aw = map promise_for ts" and "i < length ts" and "ts ! i = None"
  shows "wr_inv (Some h) (wr_complete i outcome aw)"
    and "wr_tasks (wr_complete i outcome aw) = map promise_for (ts[i := Some outcome])"
    and "wr_resumed (wr_complete i outcome aw) =
      wr_resumed aw @ (if None \<notin> set (ts[i := Some outcome]) then [Some h] else [])"
proof -
  have i: "i < length (wr_tasks aw)" "wt_notified (wr_tasks aw ! i) = 0" using assms by simp_all
  note s = wr_complete_step [OF assms(1) i, of outcome]
  show "wr_inv (Some h) (wr_complete i outcome aw)" by (rule s(1))
  show t: "wr_tasks (wr_complete i outcome aw) = map promise_for (ts[i := Some outcome])"
    using assms(2) by (simp add: s(2) map_update)
  show "wr_resumed (wr_complete i outcome aw) =
      wr_resumed aw @ (if None \<notin> set (ts[i := Some outcome]) then [Some h] else [])"
    using s(3) unfinished_promises [OF t] no_None [of "ts[i := Some outcome]"] by simp
qed

text \<open>The final outcomes: those known at the start, and those of the completions.\<close>

definition outcomes_after :: "(nat \<times> (cpp_exn + 'r)) list \<Rightarrow> (cpp_exn + 'r) option list \<Rightarrow> (cpp_exn + 'r) option list" where
  "outcomes_after cs ts = fold (\<lambda>(i, outcome) ts. ts[i := Some outcome]) cs ts"

text \<open>Completions that can happen: each of a task that has not finished, once.\<close>

fun completes_tasks :: "(nat \<times> (cpp_exn + 'r)) list \<Rightarrow> (cpp_exn + 'r) option list \<Rightarrow> bool" where
  "completes_tasks [] ts \<longleftrightarrow> True"
| "completes_tasks ((i, outcome) # cs) ts \<longleftrightarrow> i < length ts \<and> ts ! i = None \<and> completes_tasks cs (ts[i := Some outcome])"

lemma wr_completions_correct:
  assumes "wr_inv (Some h) aw" and "wr_tasks aw = map promise_for ts" and "completes_tasks cs ts"
  shows "wr_inv (Some h) (wr_completions cs aw) \<and> wr_tasks (wr_completions cs aw) = map promise_for (outcomes_after cs ts) \<and>
    wr_resumed (wr_completions cs aw) = wr_resumed aw @ (if cs \<noteq> [] \<and> None \<notin> set (outcomes_after cs ts) then [Some h] else [])"
  using assms
proof (induction cs arbitrary: aw ts)
  case (Cons c cs)
  obtain i outcome where c: "c = (i, outcome)" by fastforce
  let ?aw = "wr_complete i outcome aw" and ?ts = "ts[i := Some outcome]"
  have i: "i < length ts" "ts ! i = None" and comp: "completes_tasks cs ?ts" using Cons.prems(3) c by simp_all
  note s = wr_complete_known [OF Cons.prems(1,2) i, of outcome]
  have none: "cs = []" if "None \<notin> set ?ts"
  proof (cases cs)
    case (Cons d ds)
    with comp have "fst d < length ?ts" "?ts ! fst d = None" by (auto simp: case_prod_unfold split: prod.splits elim: completes_tasks.elims)
    then show ?thesis using that nth_mem by metis
  qed
  from Cons.IH [OF s(1,2) comp] s(3) none c show ?case
    by (cases cs) (auto simp: wr_completions_def outcomes_after_def)
qed (simp add: wr_completions_def outcomes_after_def)

lemma collect_known:
  assumes "None \<notin> set ts"
  shows "collect_results (map promise_for ts) = when_all (map the ts)"
proof -
  have "promise_for x = make_when_all_task (the x)" if "x \<in> set ts" for x
  proof -
    from that assms have "x \<noteq> None" by metis
    then show ?thesis by auto
  qed
  then have "map promise_for ts = map make_when_all_task (map the ts)" by simp
  then show ?thesis by (simp only: when_all_def when_all_ready_def)
qed

text \<open>The state in which the awaiting coroutine has registered.\<close>

lemma wr_try_await_registers:
  fixes ts :: "(cpp_exn + 'r) option list"
  assumes "length ts < 2 ^ 63"
    and "wr_try_await h ts (when_all_ready_awaitable_new (replicate (length ts) when_all_task_promise_new)) = (aw, suspended)"
  shows "wr_inv (Some h) aw" and "wr_tasks aw = map promise_for ts" and "wr_resumed aw = []"
    and "suspended = (None \<in> set ts)" and "wr_is_ready aw"
proof -
  let ?new = "when_all_ready_awaitable_new (replicate (length ts) when_all_task_promise_new) :: 'r when_all_ready_awaitable"
  let ?aw = "start_tasks 0 ts ?new"
  have tasks: "wr_tasks ?new = map promise_for (map (\<lambda>_. None) ts)"
    by (simp add: when_all_ready_awaitable_new_def comp_def map_replicate_const)
  have "unfinished ?new = length ts" using unfinished_promises [OF tasks] by simp
  moreover have "unat (of_nat (length ts) + 1 :: size_t) = length ts + 1"
    using unat_of_nat_size [of "Suc (length ts)"] assms(1) by (simp add: add.commute)
  ultimately have "wr_inv None ?new"
    by (simp add: wr_inv_def when_all_ready_awaitable_new_def when_all_counter_new_def)
  from start_tasks_correct [OF this, of "[]"] tasks
  have s: "wr_inv None ?aw" "wr_tasks ?aw = map promise_for ts" "wr_resumed ?aw = []"
    by (simp_all add: when_all_ready_awaitable_new_def)
  have u: "unfinished ?aw = length (filter (\<lambda>t. t = None) ts)" by (rule unfinished_promises [OF s(2)])
  have count: "unat (m_count (wr_counter ?aw)) = Suc (unfinished ?aw)" using s(1) by (simp add: wr_inv_def)
  from assms(2) have aw: "aw = ?aw\<lparr>wr_counter := \<lparr> m_count = m_count (wr_counter ?aw) - 1, m_awaitingCoroutine = Some h \<rparr>\<rparr>"
    and susp: "suspended = (m_count (wr_counter ?aw) > 1)"
    by (auto simp: wr_try_await_def counter_try_await_def counter_arrive_def counter_register_def Let_def)
  show "wr_inv (Some h) aw"
    using count unat_minus_one [of "m_count (wr_counter ?aw)"] by (simp add: aw wr_inv_def unfinished_def)
  show "suspended = (None \<in> set ts)"
    using count u by (auto simp: susp word_less_nat_alt filter_empty_conv)
  show "wr_tasks aw = map promise_for ts" "wr_resumed aw = []" "wr_is_ready aw"
    using s by (simp_all add: aw wr_is_ready_def counter_is_ready_def)
qed

text \<open>
  C6: Awaiting \<open>when_all_ready\<close>, from the first task started to the results. Whatever tasks run to their
  end while they are started, and in whatever order the others complete, the awaiting coroutine
  is suspended if and only if some task has not finished, it is resumed once, by the completion
  of the last task and by nothing else, and then every task holds its own outcome.
\<close>

theorem when_all_ready_awaits_all:
  fixes ts :: "(cpp_exn + 'r) option list"
  assumes "length ts < 2 ^ 63" and "completes_tasks cs ts"
    and "wr_try_await h ts (when_all_ready_awaitable_new (replicate (length ts) when_all_task_promise_new)) = (aw, suspended)"
  shows "suspended = (None \<in> set ts) \<and> wr_resumed aw = [] \<and> wr_is_ready aw \<and>
    wr_resumed (wr_completions cs aw) = (if cs \<noteq> [] \<and> None \<notin> set (outcomes_after cs ts) then [Some h] else []) \<and>
    wr_await_resume (wr_completions cs aw) = map promise_for (outcomes_after cs ts) \<and>
    (None \<notin> set (outcomes_after cs ts) \<longrightarrow>
      collect_results (wr_await_resume (wr_completions cs aw)) = when_all (map the (outcomes_after cs ts)))"
proof -
  note r = wr_try_await_registers [OF assms(1,3)]
  from wr_completions_correct [OF r(1,2) assms(2)] r(3-5) collect_known [of "outcomes_after cs ts"]
  show ?thesis by (simp add: wr_await_resume_def)
qed

theorem when_all_ready_awaits_all_witness:
  "let ts = [None, Some (Inr 4), None];
       aw = fst (wr_try_await 9 ts (when_all_ready_awaitable_new (replicate 3 when_all_task_promise_new)));
       cs = [(2, Inr (6 :: nat)), (0, Inl Broken_promise)] in
    wr_resumed (wr_completions [(2, Inr 6)] aw) = [] \<and> wr_resumed (wr_completions cs aw) = [Some 9] \<and>
    collect_results (wr_await_resume (wr_completions cs aw)) = when_all [Inl Broken_promise, Inr 4, Inr 6]"
proof -
  let ?ts = "[None, Some (Inr 4), None] :: (cpp_exn + nat) option list"
  let ?cs = "[(2, Inr 6), (0, Inl Broken_promise)] :: (nat \<times> (cpp_exn + nat)) list"
  obtain aw b where t: "wr_try_await 9 ?ts (when_all_ready_awaitable_new (replicate (length ?ts) when_all_task_promise_new)) = (aw, b)"
    by fastforce
  have "completes_tasks ?cs ?ts" "completes_tasks [(2, Inr 6)] ?ts" "length ?ts < 2 ^ 63" by simp_all
  with when_all_ready_awaits_all [OF _ _ t, of ?cs] when_all_ready_awaits_all [OF _ _ t, of "[(2, Inr 6)]"] t
  show ?thesis by (simp add: outcomes_after_def Let_def numeral_3_eq_3 when_all_def when_all_ready_def)
qed

text \<open>
  An awaitable counts as ready once it has been awaited, whether or not its tasks have finished: a
  second \<open>co_await\<close> returns at once and reads tasks that may have no result yet.
\<close>

lemma second_await_does_not_wait:
  assumes "length ts < 2 ^ 63"
    and "wr_co_await h ts (when_all_ready_awaitable_new (replicate (length ts) when_all_task_promise_new)) = (aw, suspended)"
  shows "wr_co_await h' ts' aw = (aw, False)"
    and "i < length ts \<Longrightarrow> ts ! i = None \<Longrightarrow> wt_task_result (wr_await_resume aw ! i) = Undefined"
proof -
  have "wr_try_await h ts (when_all_ready_awaitable_new (replicate (length ts) when_all_task_promise_new)) = (aw, suspended)"
    using assms(2) by (simp add: wr_co_await_def wr_is_ready_def counter_is_ready_def when_all_ready_awaitable_new_def when_all_counter_new_def)
  note r = wr_try_await_registers [OF assms(1) this]
  show "wr_co_await h' ts' aw = (aw, False)" using r(5) by (simp add: wr_co_await_def)
  show "wt_task_result (wr_await_resume aw ! i) = Undefined" if "i < length ts" "ts ! i = None"
    using that r(2) by (simp add: wr_await_resume_def wt_task_result_def when_all_task_promise_new_def)
qed

text \<open>The special case of no tasks behaves like the general awaitable: no suspension, no results.\<close>

lemma empty_awaitable_agrees:
  "snd (wr_co_await h [] (when_all_ready_awaitable_new [])) = (\<not> empty_await_ready) \<and>
    wr_await_resume (fst (wr_co_await h [] (when_all_ready_awaitable_new []))) = empty_await_resume"
  by (simp add: wr_co_await_def wr_is_ready_def counter_is_ready_def when_all_ready_awaitable_new_def when_all_counter_new_def
      wr_try_await_def counter_try_await_def counter_arrive_def counter_register_def Let_def empty_await_ready_def
      empty_await_resume_def wr_await_resume_def)

section \<open>Tuples and tasks without result\<close>

text \<open>
  \<open>when_all\<close> of a tuple reads the results as the arguments of \<open>make_tuple\<close>, in an order the language leaves
  open: \<open>order\<close> is the sequence of the indices.
\<close>

fun read_in_order :: "nat list \<Rightarrow> 'r when_all_task_promise list \<Rightarrow> (cpp_exn + unit) checked" where
  "read_in_order [] ps = Val (Inr ())"
| "read_in_order (i # is) ps =
    (case wt_task_result (ps ! i) of
       Undefined \<Rightarrow> Undefined
     | Val (Inl e) \<Rightarrow> Val (Inl e)
     | Val (Inr r) \<Rightarrow> read_in_order is ps)"

definition when_all_tuple :: "nat list \<Rightarrow> (cpp_exn + 'r) list \<Rightarrow> (cpp_exn + 'r list) checked" where
  "when_all_tuple order awaitables =
    (case read_in_order order (when_all_ready awaitables) of
       Undefined \<Rightarrow> Undefined
     | Val (Inl e) \<Rightarrow> Val (Inl e)
     | Val (Inr u) \<Rightarrow> collect_results (when_all_ready awaitables))"

lemma collect_all: "first_failure outcomes = None \<Longrightarrow> collect_results (when_all_ready outcomes) = Val (Inr (map projr outcomes))"
  by (induction outcomes rule: first_failure.induct) (simp_all add: when_all_ready_def)

lemma read_in_order_result:
  assumes "set is \<subseteq> {..<length outcomes}"
  shows "read_in_order is (when_all_ready outcomes) =
    Val (case first_failure (map (nth outcomes) is) of None \<Rightarrow> Inr () | Some e \<Rightarrow> Inl e)"
  using assms
proof (induction "is")
  case (Cons i "is")
  then have "wt_task_result (when_all_ready outcomes ! i) = Val (outcomes ! i)" by (simp add: when_all_ready_def)
  with Cons show ?case by (cases "outcomes ! i") simp_all
qed simp

text \<open>All results are there if no task failed; otherwise it is one of the failures, whatever the order.\<close>

lemma when_all_tuple_results:
  assumes "set order = {..<length outcomes}"
  shows "when_all_tuple order outcomes = Val (Inr (map projr outcomes)) \<and> first_failure outcomes = None \<or>
    (\<exists>e. when_all_tuple order outcomes = Val (Inl e) \<and> Inl e \<in> set outcomes)"
proof -
  have none: "first_failure os = None \<longleftrightarrow> (\<forall>e. Inl e \<notin> set os)" for os :: "(cpp_exn + 'a) list"
    by (induction os rule: first_failure.induct) auto
  have some: "first_failure os = Some e \<Longrightarrow> Inl e \<in> set os" for os :: "(cpp_exn + 'a) list" and e
    by (induction os rule: first_failure.induct) auto
  have set: "set (map (nth outcomes) order) = set outcomes"
    unfolding set_map assms using nth_image [of "length outcomes" outcomes] by (simp add: lessThan_atLeast0)
  have r: "read_in_order order (when_all_ready outcomes) =
      Val (case first_failure (map (nth outcomes) order) of None \<Rightarrow> Inr () | Some e \<Rightarrow> Inl e)"
    using assms by (intro read_in_order_result) simp
  show ?thesis
  proof (cases "first_failure (map (nth outcomes) order)")
    case None
    then have "first_failure outcomes = None" using none [of outcomes] none [of "map (nth outcomes) order"] set by simp
    with None r collect_all [OF this] show ?thesis by (simp add: when_all_tuple_def)
  next
    case (Some e)
    with some [OF Some] set r show ?thesis by (simp add: when_all_tuple_def)
  qed
qed

text \<open>The promise of a task of type \<open>void\<close> and \<open>when_all\<close> of a vector of such tasks.\<close>

record when_all_void_promise =
  wv_exception :: "cpp_exn option"
  wv_notified :: nat

definition when_all_void_promise_new :: when_all_void_promise where
  "when_all_void_promise_new = \<lparr> wv_exception = None, wv_notified = 0 \<rparr>"

definition wv_final_suspend :: "when_all_void_promise \<Rightarrow> when_all_void_promise" where
  "wv_final_suspend p = p\<lparr>wv_notified := wv_notified p + 1\<rparr>"

definition wv_unhandled_exception :: "cpp_exn \<Rightarrow> when_all_void_promise \<Rightarrow> when_all_void_promise" where
  "wv_unhandled_exception e p = p\<lparr>wv_exception := Some e\<rparr>"

definition wv_result :: "when_all_void_promise \<Rightarrow> cpp_exn + unit" where
  "wv_result p = (case wv_exception p of Some e \<Rightarrow> Inl e | None \<Rightarrow> Inr ())"

definition make_when_all_void_task :: "cpp_exn + unit \<Rightarrow> when_all_void_promise" where
  "make_when_all_void_task outcome = (case outcome of
      Inr u \<Rightarrow> wv_final_suspend when_all_void_promise_new
    | Inl e \<Rightarrow> wv_final_suspend (wv_unhandled_exception e when_all_void_promise_new))"

fun results_void :: "when_all_void_promise list \<Rightarrow> cpp_exn + unit" where
  "results_void [] = Inr ()"
| "results_void (p # ps) = (case wv_result p of Inl e \<Rightarrow> Inl e | Inr u \<Rightarrow> results_void ps)"

definition when_all_void :: "(cpp_exn + unit) list \<Rightarrow> cpp_exn + unit" where
  "when_all_void awaitables = results_void (map make_when_all_void_task awaitables)"

lemma void_task_result [simp]: "wv_result (make_when_all_void_task out) = out" "wv_notified (make_when_all_void_task out) = 1"
  by (cases out; simp add: make_when_all_void_task_def wv_final_suspend_def wv_unhandled_exception_def
      when_all_void_promise_new_def wv_result_def)+

lemma when_all_void_results: "when_all_void outcomes = (case first_failure outcomes of Some e \<Rightarrow> Inl e | None \<Rightarrow> Inr ())"
  unfolding when_all_void_def by (induction outcomes rule: first_failure.induct) simp_all

section \<open>Ownership of the frames\<close>

text \<open>A \<open>when_all_task\<close> owns the frame behind its handle; it can be moved, not copied or assigned.\<close>

record when_all_task =
  wt_coroutine :: "nat option"

definition when_all_task_of :: "nat \<Rightarrow> when_all_task" where
  "when_all_task_of coroutine = \<lparr> wt_coroutine = Some coroutine \<rparr>"

definition when_all_task_move :: "when_all_task \<Rightarrow> when_all_task \<times> when_all_task" where
  "when_all_task_move other = (\<lparr> wt_coroutine = wt_coroutine other \<rparr>, other\<lparr>wt_coroutine := None\<rparr>)"

definition when_all_task_destroy :: "when_all_task \<Rightarrow> nat list \<Rightarrow> nat list" where
  "when_all_task_destroy t log = (case wt_coroutine t of Some h \<Rightarrow> log @ [h] | None \<Rightarrow> log)"

text \<open>
  The container of tasks is moved from \<open>make_tuple\<close> or the vector into the awaitable and from one awaitable to the
  next; every object is destroyed in the end.
\<close>

fun pass_on :: "nat \<Rightarrow> when_all_task list \<Rightarrow> nat list \<Rightarrow> nat list" where
  "pass_on 0 tasks log = fold when_all_task_destroy tasks log"
| "pass_on (Suc n) tasks log =
    (let moved = map when_all_task_move tasks in
     fold when_all_task_destroy (map snd moved) (pass_on n (map fst moved) log))"

lemma destroy_owned: "fold when_all_task_destroy (map when_all_task_of hs) log = log @ hs"
  by (induction hs arbitrary: log) (simp_all add: when_all_task_destroy_def when_all_task_of_def)

lemma tasks_destroyed_once: "pass_on n (map when_all_task_of hs) log = log @ hs"
proof (induction n)
  case (Suc n)
  have "map fst (map when_all_task_move (map when_all_task_of hs)) = map when_all_task_of hs"
    by (simp add: when_all_task_move_def when_all_task_of_def)
  moreover have "fold when_all_task_destroy (map snd (map when_all_task_move (map when_all_task_of hs))) log = log" for log
    by (induction hs arbitrary: log) (simp_all add: when_all_task_destroy_def when_all_task_move_def)
  ultimately show ?case using Suc by (simp only: pass_on.simps Let_def)
qed (simp add: destroy_owned)

section \<open>sync_wait\<close>

text \<open>The promise of \<open>sync_wait\<close> for an awaitable without result, and the task object.\<close>

record sync_wait_void_promise =
  swv_exception :: "cpp_exn option"
  swv_event_set :: bool

definition swv_final_suspend :: "sync_wait_void_promise \<Rightarrow> sync_wait_void_promise" where
  "swv_final_suspend p = p\<lparr>swv_event_set := True\<rparr>"

definition swv_unhandled_exception :: "cpp_exn \<Rightarrow> sync_wait_void_promise \<Rightarrow> sync_wait_void_promise" where
  "swv_unhandled_exception e p = p\<lparr>swv_exception := Some e\<rparr>"

definition swv_result :: "sync_wait_void_promise \<Rightarrow> cpp_exn + unit" where
  "swv_result p = (case swv_exception p of Some e \<Rightarrow> Inl e | None \<Rightarrow> Inr ())"

definition make_sync_wait_void_task :: "cpp_exn + unit \<Rightarrow> sync_wait_void_promise" where
  "make_sync_wait_void_task outcome =
    (let p = \<lparr> swv_exception = None, swv_event_set = False \<rparr> in
     swv_final_suspend (case outcome of Inr u \<Rightarrow> p | Inl e \<Rightarrow> swv_unhandled_exception e p))"

definition sync_wait_void :: "cpp_exn + unit \<Rightarrow> (cpp_exn + unit) option" where
  "sync_wait_void awaitable =
    (let task = make_sync_wait_void_task awaitable in
     if swv_event_set task then Some (swv_result task) else None)"

lemma sync_wait_void_outcome: "sync_wait_void out = Some out"
  by (cases out) (simp_all add: sync_wait_void_def make_sync_wait_void_task_def swv_final_suspend_def
      swv_unhandled_exception_def swv_result_def Let_def)

record sync_wait_task =
  sw_coroutine :: "nat option"

definition sync_wait_task_of :: "nat \<Rightarrow> sync_wait_task" where
  "sync_wait_task_of coroutine = \<lparr> sw_coroutine = Some coroutine \<rparr>"

definition sync_wait_task_move :: "sync_wait_task \<Rightarrow> sync_wait_task \<times> sync_wait_task" where
  "sync_wait_task_move other = (\<lparr> sw_coroutine = sw_coroutine other \<rparr>, other\<lparr>sw_coroutine := None\<rparr>)"

definition sync_wait_task_destroy :: "sync_wait_task \<Rightarrow> nat list \<Rightarrow> nat list" where
  "sync_wait_task_destroy t log = (case sw_coroutine t of Some h \<Rightarrow> log @ [h] | None \<Rightarrow> log)"

lemma sync_wait_task_destroyed_once:
  "(case sync_wait_task_move (sync_wait_task_of h) of (t, other) \<Rightarrow>
      sync_wait_task_destroy other (sync_wait_task_destroy t log)) = log @ [h]"
  by (simp add: sync_wait_task_move_def sync_wait_task_of_def sync_wait_task_destroy_def)

section \<open>Tasks without symmetric transfer\<close>

text \<open>
  On compilers without symmetric transfer the awaiting coroutine starts the task, which may complete
  at once or later on another thread, and then registers itself; an atomic flag decides between the two
  which comes second. Every exchange of the flag is one step.
\<close>

datatype race_body = B_not_started | B_running | B_finished
datatype race_awaiter = N_before | N_started | N_stored | N_suspended | N_continues

record task_race =
  tr_state :: bool
  tr_continuation :: "nat option"
  tr_body :: race_body
  tr_awaiter :: race_awaiter
  tr_resumed :: "nat option list"

definition task_race_new :: task_race where
  "task_race_new = \<lparr> tr_state = False, tr_continuation = None, tr_body = B_not_started, tr_awaiter = N_before, tr_resumed = [] \<rparr>"

definition race_final_await_suspend :: "task_race \<Rightarrow> task_race" where
  "race_final_await_suspend t = t\<lparr>tr_body := B_finished, tr_state := True,
    tr_resumed := tr_resumed t @ (if tr_state t then [tr_continuation t] else [])\<rparr>"

text \<open>\<open>await_suspend\<close>: \<open>resume()\<close>, and the two actions of \<open>try_set_continuation\<close>.\<close>

definition race_resume :: "task_race \<Rightarrow> task_race" where
  "race_resume t = t\<lparr>tr_body := B_running, tr_awaiter := N_started\<rparr>"

definition race_store :: "nat \<Rightarrow> task_race \<Rightarrow> task_race" where
  "race_store h t = t\<lparr>tr_continuation := Some h, tr_awaiter := N_stored\<rparr>"

definition race_exchange :: "task_race \<Rightarrow> task_race" where
  "race_exchange t = t\<lparr>tr_state := True, tr_awaiter := (if \<not> tr_state t then N_suspended else N_continues)\<rparr>"

inductive race_step :: "nat \<Rightarrow> task_race \<Rightarrow> task_race \<Rightarrow> bool" for h where
  race_start: "tr_awaiter t = N_before \<Longrightarrow> race_step h t (race_resume t)"
| race_finish: "tr_body t = B_running \<Longrightarrow> race_step h t (race_final_await_suspend t)"
| race_register: "tr_awaiter t = N_started \<Longrightarrow> race_step h t (race_store h t)"
| race_arrive: "tr_awaiter t = N_stored \<Longrightarrow> race_step h t (race_exchange t)"

inductive_cases race_stepE: "race_step h t t'"

definition race_inv :: "nat \<Rightarrow> task_race \<Rightarrow> bool" where
  "race_inv h t \<longleftrightarrow> (case tr_awaiter t of
      N_before \<Rightarrow> tr_body t = B_not_started \<and> \<not> tr_state t \<and> tr_resumed t = []
    | N_started \<Rightarrow> tr_body t \<noteq> B_not_started \<and> tr_state t = (tr_body t = B_finished) \<and> tr_resumed t = []
    | N_stored \<Rightarrow> tr_body t \<noteq> B_not_started \<and> tr_state t = (tr_body t = B_finished) \<and> tr_resumed t = [] \<and>
        tr_continuation t = Some h
    | N_suspended \<Rightarrow> tr_body t \<noteq> B_not_started \<and> tr_state t \<and> tr_continuation t = Some h \<and>
        tr_resumed t = (if tr_body t = B_finished then [Some h] else [])
    | N_continues \<Rightarrow> tr_body t = B_finished \<and> tr_resumed t = [])"

lemma race_inv_step: "race_inv h t \<Longrightarrow> race_step h t t' \<Longrightarrow> race_inv h t'"
  by (erule race_stepE; cases "tr_body t"; cases "tr_awaiter t")
    (auto simp: race_inv_def race_resume_def race_final_await_suspend_def race_store_def race_exchange_def)

interpretation task_race: step_system "\<lambda>t. t = task_race_new" "race_step h" "race_inv h"
proof unfold_locales
  show "race_inv h t" if "t = task_race_new" for t using that by (simp add: race_inv_def task_race_new_def)
qed (rule race_inv_step)

text \<open>
  C29: A task on a compiler without symmetric transfer. In every interleaving of its completion with the
  registration of the awaiting coroutine, that coroutine goes on exactly once and not before the task
  has finished: either at once, because the task finished first, or resumed by the task; and
  the task never resumes a null handle.
\<close>

theorem task_race_resumes_once:
  assumes "reaches (\<lambda>t. t = task_race_new) (race_step h) t"
  shows "(tr_resumed t = [] \<or> tr_resumed t = [Some h] \<and> tr_awaiter t = N_suspended) \<and>
    (tr_awaiter t = N_continues \<or> tr_resumed t \<noteq> [] \<longrightarrow> tr_body t = B_finished) \<and>
    (tr_body t = B_finished \<and> tr_awaiter t \<in> {N_suspended, N_continues} \<longrightarrow>
      (tr_awaiter t = N_continues) \<noteq> (tr_resumed t = [Some h]))"
  using task_race.inv_reaches [OF assms]
  by (cases "tr_awaiter t") (auto simp: race_inv_def split: if_splits)

theorem task_race_resumes_once_witness:
  "\<exists>t. reaches (\<lambda>t. t = task_race_new) (race_step 7) t \<and> tr_body t = B_finished \<and> tr_awaiter t = N_suspended \<and> tr_resumed t = [Some 7]"
proof -
  let ?t1 = "race_resume task_race_new" let ?t2 = "race_store 7 ?t1" let ?t3 = "race_exchange ?t2"
  let ?t = "race_final_await_suspend ?t3"
  note defs = race_resume_def race_store_def race_exchange_def race_final_await_suspend_def task_race_new_def
  let ?r = "reaches (\<lambda>t. t = task_race_new) (race_step 7)"
  have "race_step 7 task_race_new ?t1" by (rule race_start) (simp add: defs)
  moreover have "race_step 7 ?t1 ?t2" by (rule race_register) (simp add: defs)
  moreover have "race_step 7 ?t2 ?t3" by (rule race_arrive) (simp add: defs)
  moreover have "race_step 7 ?t3 ?t" by (rule race_finish) (simp add: defs)
  moreover have "?r task_race_new" by (rule reaches_init) simp
  ultimately have "?r ?t" by (blast intro: reaches_step)
  moreover from task_race_resumes_once [OF this] have "tr_resumed ?t = [Some 7]" by (simp add: defs)
  ultimately show ?thesis by (intro exI [of _ ?t]) (simp add: defs)
qed

text \<open>\<open>make_task\<close>: a task that awaits an awaitable has its outcome.\<close>

definition make_task :: "cpp_exn + 'v \<Rightarrow> 'v task_promise" where
  "make_task outcome = fst (run_body outcome task_promise_new)"

lemma make_task_outcome: "promise_result (make_task outcome) = Val outcome"
  by (cases outcome) (simp_all add: make_task_def run_body_def promise_result_def return_value_def unhandled_exception_def
      final_await_suspend_def task_promise_new_def)

end
