(* ===== verification/Connection.thy ===== *)
theory Connection
  imports Stream_Transfer Socket_Async
begin

text \<open>
  Coroutines over one connection: the setting in which the programs under \<open>example/\<close> run.

  A coroutine body is a function of the connection it works on. It ends by returning or by an
  exception, is left suspended when it awaits an operation the kernel has not completed, or
  runs into undefined behaviour. \<open>co_await\<close> sequences bodies, \<open>try_catch\<close> is the handler of
  a \<open>try\<close> block.

  The kernel and the peer are parameters. \<open>c_in\<close> holds the bytes the peer still sends before it
  closes its side, \<open>c_answers\<close> how the kernel completes the submissions, one answer each:
  \<open>Move n\<close> lets at most \<open>n + 1\<close> bytes pass, \<open>Fail e\<close> completes with the error number \<open>e + 1\<close>.
  Every series of completions a stream socket can produce is such a list. \<open>c_sent\<close> collects
  what was sent. The operations awaited are those of the library: each is constructed, completed
  by the kernel and asked for its result by the definitions of the other theories.
\<close>

section \<open>Connections and coroutines\<close>

datatype answer = Move nat | Fail nat

record conn =
  c_in :: "u8 list"
  c_answers :: "answer list"
  c_sent :: "u8 list"
  c_kernel :: kernel
  c_trace :: trace
  c_socket :: socket_t

datatype 'a run = Returns 'a conn | Throws cpp_exn conn | Suspended conn | Spins conn | Undefined_behaviour

type_synonym 'a co = "conn \<Rightarrow> 'a run"

definition co_return :: "'a \<Rightarrow> 'a co" where
  "co_return v c = Returns v c"

definition co_throw :: "cpp_exn \<Rightarrow> 'a co" where
  "co_throw e c = Throws e c"

definition co_await :: "'a co \<Rightarrow> ('a \<Rightarrow> 'b co) \<Rightarrow> 'b co" where
  "co_await m f c = (case m c of
      Returns v c' \<Rightarrow> f v c'
    | Throws e c' \<Rightarrow> Throws e c'
    | Suspended c' \<Rightarrow> Suspended c'
    | Spins c' \<Rightarrow> Spins c'
    | Undefined_behaviour \<Rightarrow> Undefined_behaviour)"

definition try_catch :: "'a co \<Rightarrow> (cpp_exn \<Rightarrow> 'a co) \<Rightarrow> 'a co" where
  "try_catch m h c = (case m c of Throws e c' \<Rightarrow> h e c' | r \<Rightarrow> r)"

text \<open>
  An endless loop around a body with local variables \<open>s\<close>. The number of answers left decreases
  with every iteration that awaits an operation; an iteration that awaits none would spin.
\<close>

function forever :: "('s \<Rightarrow> 's co) \<Rightarrow> 's \<Rightarrow> 'r co" where
  "forever body s c = (case body s c of
      Returns s' c' \<Rightarrow> if length (c_answers c') < length (c_answers c) then forever body s' c' else Spins c'
    | Throws e c' \<Rightarrow> Throws e c'
    | Suspended c' \<Rightarrow> Suspended c'
    | Spins c' \<Rightarrow> Spins c'
    | Undefined_behaviour \<Rightarrow> Undefined_behaviour)"
  by pat_completeness auto
termination
  by (relation "measure (\<lambda>(body, s, c). length (c_answers c))") auto

declare forever.simps [simp del]

text \<open>A loop that runs while a condition holds, otherwise alike.\<close>

function while_co :: "('s \<Rightarrow> bool) \<Rightarrow> ('s \<Rightarrow> 's co) \<Rightarrow> 's \<Rightarrow> 's co" where
  "while_co b body s c = (if \<not> b s then Returns s c else case body s c of
      Returns s' c' \<Rightarrow> if length (c_answers c') < length (c_answers c) then while_co b body s' c' else Spins c'
    | Throws e c' \<Rightarrow> Throws e c'
    | Suspended c' \<Rightarrow> Suspended c'
    | Spins c' \<Rightarrow> Spins c'
    | Undefined_behaviour \<Rightarrow> Undefined_behaviour)"
  by pat_completeness auto
termination
  by (relation "measure (\<lambda>(b, body, s, c). length (c_answers c))") auto

declare while_co.simps [simp del]

section \<open>Awaiting the operations of a socket\<close>

fun kernel_recv :: "answer \<Rightarrow> nat \<Rightarrow> u8 list \<Rightarrow> int \<times> u8 list" where
  "kernel_recv (Move n) room input =
    (let k = min (Suc n) (min room (length input)) in (int k, take k input))"
| "kernel_recv (Fail e) room input = (- int (Suc e), [])"

fun kernel_send :: "answer \<Rightarrow> nat \<Rightarrow> int" where
  "kernel_send (Move n) room = int (min (Suc n) room)"
| "kernel_send (Fail e) room = - int (Suc e)"

text \<open>The local arrays of a coroutine lie one behind the other from address 0.\<close>

definition store :: "addr list \<Rightarrow> u8 list \<Rightarrow> u8 list \<Rightarrow> u8 list" where
  "store addrs bytes mem = fold (\<lambda>(a, b) m. m[unat a := b]) (zip addrs bytes) mem"

definition load :: "addr list \<Rightarrow> u8 list \<Rightarrow> u8 list" where
  "load addrs mem = map (\<lambda>a. mem ! unat a) addrs"

fun spans_from :: "nat \<Rightarrow> nat list \<Rightarrow> span list" where
  "spans_from off [] = []"
| "spans_from off (n # ns) =
    \<lparr> sp_data = of_nat off, sp_size = of_nat n, sp_elem = 1 \<rparr> # spans_from (off + n) ns"

fun recv_loop ::
  "(int \<Rightarrow> stream_operation \<Rightarrow> stream_operation \<times> effect) \<Rightarrow> answer list \<Rightarrow> u8 list \<Rightarrow> u8 list
    \<Rightarrow> stream_operation \<Rightarrow> stream_operation \<times> bool \<times> u8 list \<times> u8 list \<times> answer list" where
  "recv_loop complete [] input mem op = (op, False, mem, input, [])"
| "recv_loop complete (a # as) input mem op =
    (let addrs = msg_addrs op;
         (r, bytes) = kernel_recv a (length addrs) input;
         mem = store addrs bytes mem;
         input = drop (length bytes) input;
         (op, eff) = complete r op
     in case eff of
          Submit es \<Rightarrow> recv_loop complete as input mem op
        | _ \<Rightarrow> (op, True, mem, input, as))"

fun send_loop ::
  "(int \<Rightarrow> stream_operation \<Rightarrow> stream_operation \<times> effect) \<Rightarrow> answer list \<Rightarrow> u8 list \<Rightarrow> u8 list
    \<Rightarrow> stream_operation \<Rightarrow> stream_operation \<times> bool \<times> u8 list \<times> answer list" where
  "send_loop complete [] sent mem op = (op, False, sent, [])"
| "send_loop complete (a # as) sent mem op =
    (let addrs = msg_addrs op;
         r = kernel_send a (length addrs);
         sent = sent @ load (take (nat r) addrs) mem;
         (op, eff) = complete r op
     in case eff of
          Submit es \<Rightarrow> send_loop complete as sent mem op
        | _ \<Rightarrow> (op, True, sent, as))"

text \<open>
  \<open>recv\<close> and \<open>recv_some\<close> into the stretch of \<open>len\<close> bytes at \<open>off\<close> of a local array; the array and
  the result come back. The service and the operation have some addresses, 1 and 64.
\<close>

definition co_recv :: "bool \<Rightarrow> nat \<Rightarrow> nat \<Rightarrow> u8 list \<Rightarrow> (u8 list \<times> size_t) co" where
  "co_recv once off len mem c =
    (let (op, some) = (if once then recv_some else recv) (Some 1) None None (spans_from off [len]) 64;
         (op, resumed, mem, input, as) =
           recv_loop (recv_complete some (fd_get (c_socket c))) (c_answers c) (c_in c) mem op;
         c = c\<lparr>c_in := input, c_answers := as\<rparr>
     in if \<not> resumed then Suspended c
        else case snd (recv_get_result op) of Inl e \<Rightarrow> Throws e c | Inr n \<Rightarrow> Returns (mem, n) c)"

definition co_send :: "u8 list list \<Rightarrow> size_t co" where
  "co_send bufs c =
    (let op = send (Some 1) None None (spans_from 0 (map length bufs)) 64;
         (op, resumed, sent, as) =
           send_loop (send_complete (fd_get (c_socket c))) (c_answers c) (c_sent c) (concat bufs) op;
         c = c\<lparr>c_sent := sent, c_answers := as\<rparr>
     in if \<not> resumed then Suspended c
        else case send_get_result op of Inl e \<Rightarrow> Throws e c | Inr n \<Rightarrow> Returns n c)"

fun close_loop ::
  "kernel \<Rightarrow> socket_t \<Rightarrow> answer list \<Rightarrow> u8 list \<Rightarrow> async_operation \<Rightarrow> trace
    \<Rightarrow> async_operation \<times> bool \<times> u8 list \<times> answer list \<times> trace" where
  "close_loop k f [] input op tr = (op, False, input, [], tr)"
| "close_loop k f (a # as) input op tr =
    (let (r, bytes) = kernel_recv a (nat null_buffer_size) input;
         input = drop (length bytes) input
     in case close_on_recv_completed k f (set_value r 0 op) tr of
          (op, Submit es, tr) \<Rightarrow> close_loop k f as input op tr
        | (op, _, tr) \<Rightarrow> (op, True, input, as, tr))"

definition co_close :: "unit co" where
  "co_close c =
    (let (op, resumed, input, as, tr) =
       close_loop (c_kernel c) (c_socket c) (c_answers c) (c_in c) (close_new (Some 1) None None 64) (c_trace c);
         c = c\<lparr>c_in := input, c_answers := as, c_trace := tr\<rparr>
     in if \<not> resumed then Suspended c
        else case close_get_result op of Inl e \<Rightarrow> Throws e c | Inr u \<Rightarrow> Returns () c)"

text \<open>\<open>shutdown()\<close> and \<open>init()\<close> are calls that do not suspend.\<close>

definition co_sync :: "(kernel \<Rightarrow> socket_t \<Rightarrow> trace \<Rightarrow> socket_t \<times> (cpp_exn + unit) \<times> trace) \<Rightarrow> unit co" where
  "co_sync call c =
    (let (f, result, tr) = call (c_kernel c) (c_socket c) (c_trace c);
         c = c\<lparr>c_socket := f, c_trace := tr\<rparr>
     in case result of Inl e \<Rightarrow> Throws e c | Inr u \<Rightarrow> Returns () c)"

definition co_shutdown :: "unit co" where
  "co_shutdown = co_sync (\<lambda>k. shutdown_throw k SHUT_WR)"

definition co_init :: "unit co" where
  "co_init = co_sync init_throw"

definition co_connect :: "int option \<Rightarrow> sockaddr_in \<Rightarrow> unit co" where
  "co_connect duration address c = (case c_answers c of
      [] \<Rightarrow> Suspended c
    | a # as \<Rightarrow>
      (let r = (case a of Move n \<Rightarrow> 0 | Fail e \<Rightarrow> - int (Suc e));
           op = set_value r 0 (connect (Some 1) duration None address 64);
           (f, result) = connect_get_result socket_t_modules op (c_socket c);
           c = c\<lparr>c_answers := as, c_socket := f\<rparr>
       in case result of Inl e \<Rightarrow> Throws e c | Inr u \<Rightarrow> Returns () c))"

section \<open>Rules for coroutines\<close>

lemma co_basic_simps [simp]:
  "co_return v c = Returns v c" "co_throw e c = Throws e c"
  by (simp_all add: co_return_def co_throw_def)

lemma co_await_simps [simp]:
  "m c = Returns v c' \<Longrightarrow> co_await m f c = f v c'"
  "m c = Throws e c' \<Longrightarrow> co_await m f c = Throws e c'"
  "m c = Suspended c' \<Longrightarrow> co_await m f c = Suspended c'"
  "m c = Spins c' \<Longrightarrow> co_await m f c = Spins c'"
  "m c = Undefined_behaviour \<Longrightarrow> co_await m f c = Undefined_behaviour"
  by (simp_all add: co_await_def)

lemma try_catch_simps [simp]:
  "m c = Returns v c' \<Longrightarrow> try_catch m h c = Returns v c'"
  "m c = Throws e c' \<Longrightarrow> try_catch m h c = h e c'"
  "m c = Suspended c' \<Longrightarrow> try_catch m h c = Suspended c'"
  "m c = Spins c' \<Longrightarrow> try_catch m h c = Spins c'"
  "m c = Undefined_behaviour \<Longrightarrow> try_catch m h c = Undefined_behaviour"
  by (simp_all add: try_catch_def)

text \<open>
  \<open>holds_after P Q R r\<close>: the run \<open>r\<close> is defined and does not spin, and satisfies \<open>P\<close> if it returned, \<open>Q\<close>
  if it threw, and \<open>R\<close> if it is suspended.
\<close>

primrec holds_after ::
  "('a \<Rightarrow> conn \<Rightarrow> bool) \<Rightarrow> (cpp_exn \<Rightarrow> conn \<Rightarrow> bool) \<Rightarrow> (conn \<Rightarrow> bool) \<Rightarrow> 'a run \<Rightarrow> bool" where
  "holds_after P Q R (Returns v c) = P v c"
| "holds_after P Q R (Throws e c) = Q e c"
| "holds_after P Q R (Suspended c) = R c"
| "holds_after P Q R (Spins c) = False"
| "holds_after P Q R Undefined_behaviour = False"

lemma holds_await:
  assumes "holds_after P' Q R (m c)" and "\<And>v c'. P' v c' \<Longrightarrow> holds_after P Q R (f v c')"
  shows "holds_after P Q R (co_await m f c)"
  using assms by (cases "m c") simp_all

lemma holds_try:
  assumes "holds_after P Q' R (m c)" and "\<And>e c'. Q' e c' \<Longrightarrow> holds_after P Q R (h e c')"
  shows "holds_after P Q R (try_catch m h c)"
  using assms by (cases "m c") simp_all

lemma holds_mono:
  "holds_after P Q R r \<Longrightarrow> (\<And>v c. P v c \<Longrightarrow> P' v c) \<Longrightarrow> (\<And>e c. Q e c \<Longrightarrow> Q' e c) \<Longrightarrow>
    (\<And>c. R c \<Longrightarrow> R' c) \<Longrightarrow> holds_after P' Q' R' r"
  by (cases r) simp_all

lemma holds_forever:
  assumes "I s c"
    and "\<And>s c. I s c \<Longrightarrow>
      holds_after (\<lambda>s' c'. I s' c' \<and> length (c_answers c') < length (c_answers c)) Q R (body s c)"
  shows "holds_after P Q R (forever body s c)"
  using assms(1)
proof (induction "length (c_answers c)" arbitrary: s c rule: less_induct)
  case less
  from assms(2) [OF less.prems] less.hyps show ?case
    by (cases "body s c") (auto simp: forever.simps [of body s c])
qed

lemma holds_while:
  assumes "I s c"
    and "\<And>s c. I s c \<Longrightarrow> b s \<Longrightarrow>
      holds_after (\<lambda>s' c'. I s' c' \<and> length (c_answers c') < length (c_answers c)) Q R (body s c)"
    and "\<And>s c. I s c \<Longrightarrow> \<not> b s \<Longrightarrow> P s c"
  shows "holds_after P Q R (while_co b body s c)"
  using assms(1)
proof (induction "length (c_answers c)" arbitrary: s c rule: less_induct)
  case less
  show ?case
  proof (cases "b s")
    case True
    with assms(2) [OF less.prems True] less.hyps show ?thesis
      by (cases "body s c") (auto simp: while_co.simps [of b body s c])
  next
    case False
    with assms(3) less.prems show ?thesis by (simp add: while_co.simps [of b body s c])
  qed
qed

section \<open>What the stream operations do to a connection\<close>

text \<open>
  The abstract view of \<open>recv\<close> and \<open>send\<close>: how many bytes a series of answers moves when \<open>avail\<close>
  bytes are there and \<open>room\<close> bytes are wanted, how the transfer ends, and the answers left.
\<close>

datatype moved = All_moved | Ended | Failed nat | Blocked

fun stream_moves :: "answer list \<Rightarrow> nat \<Rightarrow> nat \<Rightarrow> nat \<times> moved \<times> answer list" where
  "stream_moves [] avail room = (0, Blocked, [])"
| "stream_moves (Fail e # as) avail room = (0, Failed e, as)"
| "stream_moves (Move n # as) avail room =
    (let k = min (Suc n) (min room avail) in
     if k = 0 then (0, Ended, as)
     else if k = room then (k, All_moved, as)
     else let (m, st, as') = stream_moves as (avail - k) (room - k) in (k + m, st, as'))"

lemma stream_moves_bounds:
  assumes "stream_moves as avail room = (m, st, as')"
  shows "m \<le> room" and "m \<le> avail" and "st \<noteq> Blocked \<Longrightarrow> length as' < length as"
    and "st = All_moved \<Longrightarrow> m = room" and "st = Blocked \<Longrightarrow> as' = []" and "length as' \<le> length as"
    and "st = Ended \<Longrightarrow> m = avail \<or> m = room"
proof -
  have "m \<le> room \<and> m \<le> avail \<and> (st \<noteq> Blocked \<longrightarrow> length as' < length as) \<and>
    (st = All_moved \<longrightarrow> m = room) \<and> (st = Blocked \<longrightarrow> as' = []) \<and> length as' \<le> length as
    \<and> (st = Ended \<longrightarrow> m = avail \<or> m = room)"
    using assms
  proof (induction as avail room arbitrary: m rule: stream_moves.induct)
    case (3 n as avail room)
    define k where "k = min (Suc n) (min room avail)"
    then have k: "k \<le> room" "k \<le> avail" "k = 0 \<Longrightarrow> avail = 0 \<or> room = 0" by auto
    show ?case
    proof (cases "k = 0 \<or> k = room")
      case True
      with 3(2) k show ?thesis by (auto simp: k_def [symmetric] Let_def split: if_splits)
    next
      case False
      with 3(2) obtain m1 where m1: "stream_moves as (avail - k) (room - k) = (m1, st, as')" "m = k + m1"
        by (auto simp: k_def [symmetric] Let_def split: prod.splits if_splits)
      from 3(1) [OF refl, folded k_def, OF _ _ m1(1)] False k m1(2) show ?thesis by auto
    qed
  qed auto
  then show "m \<le> room" and "m \<le> avail" and "st \<noteq> Blocked \<Longrightarrow> length as' < length as"
    and "st = All_moved \<Longrightarrow> m = room" and "st = Blocked \<Longrightarrow> as' = []" and "length as' \<le> length as"
    and "st = Ended \<Longrightarrow> m = avail \<or> m = room"
    by auto
qed

lemma pending_spans:
  assumes "off + sum_list ns < 2 ^ 64"
  shows "pending (buffer_sequence_base (spans_from off ns)) = map of_nat [off..<off + sum_list ns]"
  using assms
proof (induction off ns rule: spans_from.induct)
  case (2 off n ns)
  let ?s = "\<lparr> sp_data = of_nat off, sp_size = of_nat n, sp_elem = 1 \<rparr> :: span"
  have "unat (of_nat n :: size_t) = n"
    using 2(2) by (simp add: unsigned_of_nat take_bit_nat_eq_self)
  then have "iov_bytes \<lparr> iov_base = sp_data ?s, iov_len = size_bytes ?s \<rparr> = map of_nat [off..<off + n]"
    by (auto simp: iov_bytes_def size_bytes_def intro: nth_equalityI)
  moreover have "pending (buffer_sequence_base (?s # ss)) =
      iov_bytes \<lparr> iov_base = sp_data ?s, iov_len = size_bytes ?s \<rparr> @ pending (buffer_sequence_base ss)" for ss
    by (simp add: pending_def buffer_sequence_base_def buffer_sequence_storage_def)
  moreover have "[off..<off + sum_list (n # ns)] = [off..<off + n] @ [off + n..<off + n + sum_list ns]"
    using upt_add_eq_append [of off "off + n" "sum_list ns"] by (simp add: add.assoc)
  ultimately show ?case using 2 by simp
qed (simp add: pending_def buffer_sequence_base_def buffer_sequence_storage_def)

lemma length_spans_from [simp]: "length (spans_from off ns) = length ns"
  by (induction off ns rule: spans_from.induct) simp_all

lemma msg_addrs_new:
  assumes "length args < 2 ^ 64"
  shows "msg_addrs (stream_operation_new s d e args a) = pending (buffer_sequence_base args)"
proof -
  have "unat (of_nat (length args) :: size_t) = length args"
    using assms by (simp add: unsigned_of_nat take_bit_nat_eq_self)
  then show ?thesis
    by (cases "args = []") (simp_all add: msg_addrs_def pending_def get_iov_ptr_def get_iov_cnt_def
      buffer_sequence_base_def buffer_sequence_storage_def)
qed

lemma args_ok_spans:
  assumes "ns \<noteq> []" and "list_all (\<lambda>n. 0 < n) ns" and "sum_list ns < 2 ^ 31"
  shows "args_ok (spans_from off ns)"
proof -
  have "list_all (\<lambda>s. size_bytes s \<noteq> 0) (spans_from off ns) \<and>
      (\<Sum>s\<leftarrow>spans_from off ns. unat (size_bytes s)) = sum_list ns"
    using assms(2,3)
  proof (induction off ns rule: spans_from.induct)
    case (2 off n ns)
    then have "unat (of_nat n :: size_t) = n" by (simp add: unsigned_of_nat take_bit_nat_eq_self)
    moreover from this 2(2) have "of_nat n \<noteq> (0 :: size_t)" by (auto simp: unat_eq_0 [symmetric] simp del: unat_eq_0)
    ultimately show ?case using 2 by (simp add: size_bytes_def)
  qed simp
  with assms show ?thesis by (cases ns) (auto simp: args_ok_def)
qed

lemma store_write_at:
  assumes "off + length bytes \<le> length mem" and "length mem < 2 ^ 64" and "length bytes \<le> room"
  shows "store (map of_nat [off..<off + room]) bytes mem = write_at off bytes mem"
  using assms
proof (induction bytes arbitrary: off room mem)
  case (Cons b bytes)
  then obtain room' where room: "room = Suc room'" by (cases room) auto
  have "unat (of_nat off :: addr) = off"
    using Cons.prems by (simp add: unsigned_of_nat take_bit_nat_eq_self)
  then have "store (map of_nat [off..<off + room]) (b # bytes) mem
      = store (map of_nat [Suc off..<Suc off + room']) bytes (mem[off := b])"
    by (simp add: store_def room upt_conv_Cons del: upt_Suc)
  also have "\<dots> = write_at (Suc off) bytes (mem[off := b])"
    using Cons.prems by (intro Cons.IH) (auto simp: room)
  also have "\<dots> = write_at off (b # bytes) mem"
    using Cons.prems by (simp add: write_at_def take_Suc_conv_app_nth drop_update_cancel take_update_cancel
        nth_list_update upd_conv_take_nth_drop [of off mem] add.commute)
  finally show ?case .
qed (simp add: store_def)

lemma load_take:
  assumes "off + room \<le> length mem" and "length mem < 2 ^ 64" and "k \<le> room"
  shows "load (take k (map of_nat [off..<off + room])) mem = take k (drop off mem)"
proof (rule nth_equalityI)
  show "length (load (take k (map of_nat [off..<off + room])) mem) = length (take k (drop off mem))"
    using assms by (simp add: load_def)
  fix i assume "i < length (load (take k (map of_nat [off..<off + room])) mem)"
  then have "i < k" "off + i < length mem" using assms by (auto simp: load_def)
  moreover from this have "unat (of_nat (off + i) :: addr) = off + i"
    using assms by (simp add: unsigned_of_nat take_bit_nat_eq_self del: of_nat_add)
  ultimately show "load (take k (map of_nat [off..<off + room])) mem ! i = take k (drop off mem) ! i"
    using assms by (simp add: load_def del: of_nat_add)
qed

lemma pending_step:
  assumes "pending b = map of_nat [off..<off + room]" and "0 < k" and "k \<le> room" and "room < 2 ^ 31"
  shows "pending (commit (word_of_int (int k)) b) = map of_nat [off + k..<off + k + (room - k)]"
proof -
  have "unat (word_of_int (int k) :: size_t) = k"
    using assms by (simp add: unsigned_of_nat take_bit_nat_eq_self)
  with assms show ?thesis by (simp add: pending_commit drop_map drop_upt)
qed

lemma write_at_append:
  assumes "off + length xs + length ys \<le> length mem"
  shows "write_at (off + length xs) ys (write_at off xs mem) = write_at off (xs @ ys) mem"
proof -
  from assms have "min (length mem) off = off" by simp
  with assms show ?thesis by (simp add: write_at_def ac_simps)
qed

text \<open>How an operation looks after a transfer that ended in one of the four ways.\<close>

fun ended_as :: "moved \<Rightarrow> stream_operation \<Rightarrow> bool" where
  "ended_as All_moved op \<longleftrightarrow> 0 < m_res op \<and> \<not> ec_set (get_error_code op)"
| "ended_as Ended op \<longleftrightarrow> m_res op = 0 \<and> \<not> ec_set (get_error_code op)"
| "ended_as (Failed e) op \<longleftrightarrow> m_res op < 0 \<and> get_error_code op = system_code (int (Suc e))"
| "ended_as Blocked op \<longleftrightarrow> True"

context stream_completion
begin

lemma complete_fail:
  assumes "in_flight op"
  obtains op' h where "complete (- int (Suc e)) op = (op', Resume h)" "ended_as (Failed e) op'"
    "m_bytes_transferred op' = m_bytes_transferred op"
proof -
  obtain op' eff where c: "complete (- int (Suc e)) op = (op', eff)" by fastforce
  from on_stop [OF assms _ c] that c show thesis by (auto simp del: of_nat_Suc)
qed

lemma complete_end:
  assumes "in_flight op"
  obtains op' h where "complete 0 op = (op', Resume h)" "ended_as Ended op'"
    "m_bytes_transferred op' = m_bytes_transferred op"
proof -
  obtain op' eff where c: "complete 0 op = (op', eff)" by fastforce
  from on_stop [OF assms _ c] that c assms show thesis by (auto simp: in_flight_def)
qed

lemma complete_move:
  assumes "in_flight op" and "pending (m_buffers op) = map of_nat [off..<off + room]"
    and "0 < k" and "k \<le> room" and "room < 2 ^ 31"
  obtains op' eff where "complete (int k) op = (op', eff)" "in_flight op'"
    "m_bytes_transferred op' = m_bytes_transferred op + int k"
    "pending (m_buffers op') = map of_nat [off + k..<off + k + (room - k)]"
    "k = room \<Longrightarrow> (\<exists>h. eff = Resume h) \<and> ended_as All_moved op'"
    "k \<noteq> room \<Longrightarrow> \<exists>es. eff = Submit es"
proof -
  obtain op' eff where c: "complete (int k) op = (op', eff)" by fastforce
  note t = on_transfer [OF assms(1) _ c]
  have p: "pending (m_buffers op') = map of_nat [off + k..<off + k + (room - k)]"
    using t assms(3) pending_step [OF assms(2-5)] by auto
  have "buffer_done (m_buffers op') \<longleftrightarrow> k = room"
    using t assms(3,4) p by (auto simp: in_flight_def iov.at_end_iff)
  with that [OF c _ _ p] t assms(3) show thesis by (auto simp: in_flight_def)
qed

lemma loop_policy:
  "recv_loop complete as input mem op = (op', res) \<Longrightarrow> op_policy op' = op_policy op \<and> mp_error op' = mp_error op"
  "send_loop complete as sent mem op = (op', res') \<Longrightarrow> op_policy op' = op_policy op \<and> mp_error op' = mp_error op"
proof (induction as arbitrary: input mem op sent)
  case (Cons a as)
  {
    case 1
    with Cons(1) show ?case
      by (auto simp: Let_def split: prod.splits effect.splits dest!: keeps_policy)
  next
    case 2
    with Cons(2) show ?case
      by (auto simp: Let_def split: prod.splits effect.splits dest!: keeps_policy)
  }
qed auto

lemma recv_loop_moves:
  assumes "in_flight op" and "pending (m_buffers op) = map of_nat [off..<off + room]"
    and "0 < room" and "room < 2 ^ 31" and "off + room \<le> length mem" and "length mem < 2 ^ 64"
    and "stream_moves as (length input) room = (m, st, as')"
  shows "\<exists>op'. recv_loop complete as input mem op = (op', st \<noteq> Blocked, write_at off (take m input) mem, drop m input, as')
    \<and> m_bytes_transferred op' = m_bytes_transferred op + int m \<and> ended_as st op'"
  using assms
proof (induction as arbitrary: op off room mem input m)
  case Nil
  then show ?case by auto
next
  case (Cons a as)
  have addrs: "msg_addrs op = map of_nat [off..<off + room]"
    using in_flight_addrs [OF Cons.prems(1)] Cons.prems(2) by simp
  show ?case
  proof (cases a)
    case (Fail e)
    from complete_fail [OF Cons.prems(1), of e] obtain op' h
      where c: "complete (- int (Suc e)) op = (op', Resume h)" "ended_as (Failed e) op'"
        "m_bytes_transferred op' = m_bytes_transferred op" .
    with Fail Cons.prems(7) show ?thesis by (auto simp: store_def simp del: of_nat_Suc ended_as.simps)
  next
    case (Move n)
    define k where "k = min (Suc n) (min room (length input))"
    have k: "k \<le> room" "k \<le> length input" by (simp_all add: k_def)
    have r: "kernel_recv a (length (msg_addrs op)) input = (int k, take k input)"
      by (simp add: addrs Move k_def Let_def)
    have st: "store (msg_addrs op) (take k input) mem = write_at off (take k input) mem"
      unfolding addrs using k Cons.prems(5,6) by (intro store_write_at) auto
    show ?thesis
    proof (cases "k = 0")
      case True
      from complete_end [OF Cons.prems(1)] obtain op' h
        where c: "complete 0 op = (op', Resume h)" "ended_as Ended op'"
          "m_bytes_transferred op' = m_bytes_transferred op" .
      from Cons.prems(7) True have "m = 0" "st = Ended" "as' = as"
        by (simp_all add: Move k_def [symmetric])
      with c r True show ?thesis by (simp add: store_def)
    next
      case False
      from complete_move [OF Cons.prems(1,2), of k] False k Cons.prems(4) obtain op1 eff
        where c: "complete (int k) op = (op1, eff)" "in_flight op1"
          "m_bytes_transferred op1 = m_bytes_transferred op + int k"
          "pending (m_buffers op1) = map of_nat [off + k..<off + k + (room - k)]"
          "k = room \<Longrightarrow> (\<exists>h. eff = Resume h) \<and> ended_as All_moved op1"
          "k \<noteq> room \<Longrightarrow> \<exists>es. eff = Submit es" by blast
      show ?thesis
      proof (cases "k = room")
        case True
        with c(1,3,5) Cons.prems(7) r st False show ?thesis
          by (auto simp: Move k_def [symmetric] Let_def)
      next
        case part: False
        let ?mem = "write_at off (take k input) mem"
        from Cons.prems(7) part False obtain m1
          where m1: "stream_moves as (length (drop k input)) (room - k) = (m1, st, as')" "m = k + m1"
          by (auto simp: Move k_def [symmetric] Let_def split: prod.splits)
        from part obtain es where es: "eff = Submit es" using c(6) by auto
        have "m1 \<le> length input - k" using stream_moves_bounds(2) [OF m1(1)] by simp
        then have w: "write_at (off + k) (take m1 (drop k input)) ?mem = write_at off (take m input) mem"
          using write_at_append [of off "take k input" "take m1 (drop k input)" mem] k Cons.prems(5) m1(2)
            stream_moves_bounds(1) [OF m1(1)] part
          by (simp add: min_absorb2 take_add)
        have "0 < room - k" "room - k < 2 ^ 31" "off + k + (room - k) \<le> length ?mem" "length ?mem < 2 ^ 64"
          using k part Cons.prems(4-6) by auto
        from Cons.IH [OF c(2,4) this m1(1)] obtain op'
          where "recv_loop complete as (drop k input) ?mem op1 =
              (op', st \<noteq> Blocked, write_at (off + k) (take m1 (drop k input)) ?mem, drop m1 (drop k input), as')"
            "m_bytes_transferred op' = m_bytes_transferred op1 + int m1" "ended_as st op'"
          by auto
        with c(1,3) es r st w k m1(2) show ?thesis by (simp add: add.commute)
      qed
    qed
  qed
qed

lemma send_loop_moves:
  assumes "in_flight op" and "pending (m_buffers op) = map of_nat [off..<off + room]"
    and "0 < room" and "room < 2 ^ 31" and "off + room \<le> length mem" and "length mem < 2 ^ 64"
    and "stream_moves as room room = (m, st, as')"
  shows "\<exists>op'. send_loop complete as sent mem op = (op', st \<noteq> Blocked, sent @ take m (drop off mem), as')
    \<and> m_bytes_transferred op' = m_bytes_transferred op + int m \<and> ended_as st op'"
  using assms
proof (induction as arbitrary: op off room sent m)
  case Nil
  then show ?case by auto
next
  case (Cons a as)
  have addrs: "msg_addrs op = map of_nat [off..<off + room]"
    using in_flight_addrs [OF Cons.prems(1)] Cons.prems(2) by simp
  show ?case
  proof (cases a)
    case (Fail e)
    from complete_fail [OF Cons.prems(1), of e] obtain op' h
      where c: "complete (- int (Suc e)) op = (op', Resume h)" "ended_as (Failed e) op'"
        "m_bytes_transferred op' = m_bytes_transferred op" .
    with Fail Cons.prems(7) show ?thesis by (auto simp: load_def simp del: of_nat_Suc ended_as.simps)
  next
    case (Move n)
    define k where "k = min (Suc n) room"
    have k: "k \<le> room" "0 < k" using Cons.prems(3) by (simp_all add: k_def)
    have r: "kernel_send a (length (msg_addrs op)) = int k"
      by (simp add: addrs Move k_def)
    have ld: "load (take k (msg_addrs op)) mem = take k (drop off mem)"
      unfolding addrs using k Cons.prems(5,6) by (intro load_take) auto
    from complete_move [OF Cons.prems(1,2) k(2,1) Cons.prems(4)] obtain op1 eff
      where c: "complete (int k) op = (op1, eff)" "in_flight op1"
        "m_bytes_transferred op1 = m_bytes_transferred op + int k"
        "pending (m_buffers op1) = map of_nat [off + k..<off + k + (room - k)]"
        "k = room \<Longrightarrow> (\<exists>h. eff = Resume h) \<and> ended_as All_moved op1"
        "k \<noteq> room \<Longrightarrow> \<exists>es. eff = Submit es" by blast
    show ?thesis
    proof (cases "k = room")
      case True
      with c(1,3,5) Cons.prems(7) r ld k show ?thesis
        by (auto simp: Move k_def [symmetric] Let_def)
    next
      case False
      with Cons.prems(7) k obtain m1
        where m1: "stream_moves as (room - k) (room - k) = (m1, st, as')" "m = k + m1"
        by (auto simp: Move k_def [symmetric] Let_def split: prod.splits)
      from False obtain es where es: "eff = Submit es" using c(6) by auto
      have "0 < room - k" "room - k < 2 ^ 31" "off + k + (room - k) \<le> length mem"
        using k False Cons.prems(4,5) by auto
      from Cons.IH [OF c(2,4) this Cons.prems(6) m1(1), of "sent @ take k (drop off mem)"] obtain op'
        where "send_loop complete as (sent @ take k (drop off mem)) mem op1 =
            (op', st \<noteq> Blocked, (sent @ take k (drop off mem)) @ take m1 (drop (off + k) mem), as')"
          "m_bytes_transferred op' = m_bytes_transferred op1 + int m1" "ended_as st op'"
        by auto
      with c(1,3) es r ld k m1(2) show ?thesis by (simp add: take_add add.commute)
    qed
  qed
qed

end

section \<open>Awaited operations, case by case\<close>

definition eof_exn :: cpp_exn where
  "eof_exn = System_error (make_error_code Eof)"

definition os_exn :: "nat \<Rightarrow> cpp_exn" where
  "os_exn e = System_error (system_code (int (Suc e)))"

lemma co_recv_all:
  assumes "0 < len" and "len < 2 ^ 31" and "off + len \<le> length mem" and "length mem < 2 ^ 64"
    and "stream_moves (c_answers c) (length (c_in c)) len = (m, st, as)"
  shows "co_recv False off len mem c =
    (let c' = c\<lparr>c_in := drop m (c_in c), c_answers := as\<rparr> in
     case st of All_moved \<Rightarrow> Returns (write_at off (take m (c_in c)) mem, of_nat m) c'
     | Ended \<Rightarrow> Throws eof_exn c' | Failed e \<Rightarrow> Throws (os_exn e) c' | Blocked \<Rightarrow> Suspended c')"
proof -
  let ?op = "stream_operation_new (Some 1) None None (spans_from off [len]) 64"
  have ok: "args_ok (spans_from off [len])" using assms(1,2) by (intro args_ok_spans) auto
  have p: "pending (m_buffers ?op) = map of_nat [off..<off + len]"
    using pending_spans [of off "[len]"] assms by simp
  obtain op' where d: "recv_loop (recv_complete False (fd_get (c_socket c))) (c_answers c) (c_in c) mem ?op =
      (op', st \<noteq> Blocked, write_at off (take m (c_in c)) mem, drop m (c_in c), as)"
    "m_bytes_transferred op' = int m" "ended_as st op'"
    using recv_all.recv_loop_moves [OF args_ok_new(1) [OF ok] p assms(1-5)]
    by (auto simp: clear_error_def)
  have "op_policy op' = op_policy ?op \<and> mp_error op' = mp_error ?op"
    using recv_all.loop_policy(1) [OF d(1)] by simp
  with d show ?thesis
    by (cases st) (auto simp: co_recv_def recv_def async_recvmsg_def recv_get_result_def api_policy_def
      eof_exn_def os_exn_def Let_def)
qed

lemma co_recv_some:
  assumes "0 < len" and "len < 2 ^ 31" and "off + len \<le> length mem" and "length mem < 2 ^ 64"
  shows "co_recv True off len mem c = (case c_answers c of
      [] \<Rightarrow> Suspended c
    | Fail e # as \<Rightarrow> Throws (os_exn e) (c\<lparr>c_answers := as\<rparr>)
    | Move n # as \<Rightarrow>
      (let k = min (Suc n) (min len (length (c_in c))); c' = c\<lparr>c_in := drop k (c_in c), c_answers := as\<rparr> in
       if k = 0 then Throws eof_exn c'
       else Returns (write_at off (take k (c_in c)) mem, of_nat k) c'))"
proof (cases "c_answers c")
  case Nil
  then show ?thesis
    by (simp add: co_recv_def recv_some_def Let_def)
next
  case (Cons a as)
  let ?op = "stream_operation_new (Some 1) None None (spans_from off [len]) 64"
  have addrs: "msg_addrs ?op = map of_nat [off..<off + len]"
    using msg_addrs_new [of "spans_from off [len]" "Some 1" None None 64] pending_spans [of off "[len]"] assms
    by simp
  show ?thesis
  proof (cases a)
    case (Fail e)
    with Cons show ?thesis
      by (simp add: co_recv_def recv_some_def async_recvmsg_def Let_def store_def recv_complete_def
          on_recv_completed_def on_operation_completed_def recv_get_result_def get_error_set_value
          api_policy_def os_exn_def del: of_nat_Suc)
  next
    case (Move n)
    define k where "k = min (Suc n) (min len (length (c_in c)))"
    have "store (map of_nat [off..<off + len]) (take k (c_in c)) mem = write_at off (take k (c_in c)) mem"
      using assms by (intro store_write_at) (auto simp: k_def)
    moreover have "kernel_recv a len (c_in c) = (int k, take k (c_in c))"
      by (simp add: Move k_def Let_def)
    moreover have "k \<le> length (c_in c)" by (simp add: k_def)
    ultimately show ?thesis
      using Cons Move addrs unfolding k_def [symmetric]
      by (auto simp: co_recv_def recv_some_def async_recvmsg_def Let_def recv_complete_def
          on_recv_completed_def on_operation_completed_def recv_get_result_def get_error_set_value
          api_policy_def eof_exn_def k_def [symmetric])
  qed
qed

lemma co_send_all:
  assumes "bufs \<noteq> []" and "list_all (\<lambda>b. b \<noteq> []) bufs" and "length (concat bufs) < 2 ^ 31"
    and "stream_moves (c_answers c) (length (concat bufs)) (length (concat bufs)) = (m, st, as)"
  shows "co_send bufs c =
    (let c' = c\<lparr>c_sent := c_sent c @ take m (concat bufs), c_answers := as\<rparr> in
     case st of Failed e \<Rightarrow> Throws (os_exn e) c' | Blocked \<Rightarrow> Suspended c' | _ \<Rightarrow> Returns (of_nat m) c')"
proof -
  let ?op = "stream_operation_new (Some 1) None None (spans_from 0 (map length bufs)) 64"
  let ?mem = "concat bufs"
  have len: "sum_list (map length bufs) = length ?mem" by (simp add: length_concat)
  have ok: "args_ok (spans_from 0 (map length bufs))"
    using assms(1-3) by (intro args_ok_spans) (auto simp: len list_all_iff)
  have pos: "0 < length ?mem" using assms(1,2) by (cases bufs) auto
  have p: "pending (m_buffers ?op) = map of_nat [0..<0 + length ?mem]"
    using pending_spans [of 0 "map length bufs"] assms(3) by (simp add: len)
  obtain op' where d: "send_loop (send_complete (fd_get (c_socket c))) (c_answers c) (c_sent c) ?mem ?op =
      (op', st \<noteq> Blocked, c_sent c @ take m ?mem, as)"
    "m_bytes_transferred op' = int m" "ended_as st op'"
    using send_all.send_loop_moves [OF args_ok_new(1) [OF ok] p pos assms(3) _ _ assms(4),
        where sent = "c_sent c" and mem = ?mem and fd = "fd_get (c_socket c)"] assms(3)
    by (auto simp: clear_error_def)
  have "op_policy op' = op_policy ?op \<and> mp_error op' = mp_error ?op"
    using send_all.loop_policy(2) [OF d(1)] by simp
  with d show ?thesis
    by (cases st) (auto simp: co_send_def send_def async_sendmsg_def send_get_result_def api_policy_def
      os_exn_def Let_def)
qed

section \<open>Hanging up\<close>

text \<open>How the programs end: \<open>try { socket.shutdown(); co_await socket.close(); } catch(...) {}\<close>.\<close>

definition shutdown_and_close :: "unit co" where
  "shutdown_and_close =
    try_catch (co_await co_shutdown (\<lambda>_. co_close)) (\<lambda>e. co_return ())"

text \<open>The destructor of the socket, which runs when the frame of the coroutine that owns it goes away.\<close>

definition socket_destructor :: "unit co" where
  "socket_destructor c = Returns () (c\<lparr>c_trace := fd_destroy (c_socket c) (c_trace c)\<rparr>)"

text \<open>The reads of \<open>close\<close>: how the draining of \<open>avail\<close> bytes ends, and the answers left.\<close>

fun drain :: "answer list \<Rightarrow> nat \<Rightarrow> nat \<times> moved \<times> answer list" where
  "drain [] avail = (0, Blocked, [])"
| "drain (Fail e # as) avail = (0, Failed e, as)"
| "drain (Move n # as) avail =
    (let k = min (Suc n) (min (nat null_buffer_size) avail) in
     if k = 0 then (0, Ended, as)
     else let (m, st, as') = drain as (avail - k) in (k + m, st, as'))"

lemma drain_bounds:
  "drain as avail = (m, st, as') \<Longrightarrow> m \<le> avail \<and> st \<noteq> All_moved \<and> (st = Ended \<longrightarrow> m = avail)"
proof (induction as avail arbitrary: m rule: drain.induct)
  case (3 n as avail)
  define k where "k = min (Suc n) (min (nat null_buffer_size) avail)"
  then have k: "k \<le> avail" "k = 0 \<longleftrightarrow> avail = 0" by (auto simp: null_buffer_size_def)
  show ?case
  proof (cases "k = 0")
    case True
    with 3(2) k show ?thesis by (simp add: k_def [symmetric])
  next
    case False
    with 3(2) obtain m1 where m1: "drain as (avail - k) = (m1, st, as')" "m = k + m1"
      by (auto simp: k_def [symmetric] Let_def split: prod.splits)
    from 3(1) [OF refl, folded k_def, OF False m1(1)] k m1(2) show ?thesis by auto
  qed
qed auto

lemma close_loop_drains:
  assumes "submittable op" "mp_error op \<noteq> None" "\<not> ec_set (get_error_code op)"
    and "drain as (length input) = (m, st, as')"
  shows "\<exists>op'. close_loop k f as input op tr =
      (op', st \<noteq> Blocked, drop m input, as', if st = Ended then tr @ [Sys_close (fd_get f)] else tr)
    \<and> op_policy op' = op_policy op \<and> (case st of
        Ended \<Rightarrow> (let r = sys_ret k (Sys_close (fd_get f)) tr in
          get_error_code op' = (if r < 0 then system_code (- r) else get_error_code op))
      | Failed e \<Rightarrow> get_error_code op' = system_code (int (Suc e)) | _ \<Rightarrow> True)"
  using assms
proof (induction as arbitrary: op input m)
  case Nil
  then show ?case by auto
next
  case (Cons a as)
  show ?case
  proof (cases a)
    case (Fail e)
    with Cons.prems show ?thesis
      by (auto simp: close_on_recv_completed_def close_update_result_def get_error_set_value simp del: of_nat_Suc)
  next
    case (Move n)
    define kk where "kk = min (Suc n) (min (nat null_buffer_size) (length input))"
    have r: "kernel_recv a (nat null_buffer_size) input = (int kk, take kk input)" and le: "kk \<le> length input"
      by (simp_all add: Move kk_def Let_def)
    let ?o = "set_value (int kk) 0 op"
    have o: "submittable ?o" "mp_error ?o \<noteq> None" "\<not> ec_set (get_error_code ?o)"
        "get_error_code ?o = get_error_code op"
      using Cons.prems by (simp_all add: get_error_set_value)
    show ?thesis
    proof (cases "kk = 0")
      case True
      with Cons.prems(4) have "m = 0" "st = Ended" "as' = as"
        by (simp_all add: Move kk_def [symmetric])
      with True o r show ?thesis
        by (auto simp: close_on_recv_completed_def close_update_result_def get_error_set_value Let_def)
    next
      case False
      with Cons.prems(4) obtain m1 where m1: "drain as (length (drop kk input)) = (m1, st, as')" "m = kk + m1"
        by (auto simp: Move kk_def [symmetric] Let_def split: prod.splits)
      from o(1) obtain es where "submit (close_try_start f) ?o = Submit es"
        using submit_submittable by blast
      with False o r le have "close_loop k f (a # as) input op tr = close_loop k f as (drop kk input) ?o tr"
        by (simp add: close_on_recv_completed_def close_update_result_def)
      moreover have "drop m1 (drop kk input) = drop m input" using m1(2) by (simp add: add.commute)
      ultimately show ?thesis
        using Cons.IH [OF o(1-3) m1(1)] unfolding o(4) set_value_simps by metis
    qed
  qed
qed

lemma co_close_drains:
  assumes "drain (c_answers c) (length (c_in c)) = (m, st, as)"
  shows "\<exists>r. co_close c = r \<and> (let c' = c\<lparr>c_in := drop m (c_in c), c_answers := as,
      c_trace := (if st = Ended then c_trace c @ [Sys_close (fd_get (c_socket c))] else c_trace c)\<rparr> in
    if st = Blocked then r = Suspended c' else r = Returns () c' \<or> (\<exists>e. r = Throws e c'))"
proof -
  let ?op = "close_new (Some 1) None None 64"
  have "submittable ?op" "mp_error ?op \<noteq> None" "\<not> ec_set (get_error_code ?op)"
    by (simp_all add: close_new_def)
  from close_loop_drains [OF this assms, of "c_kernel c" "c_socket c" "c_trace c"]
  show ?thesis by (auto simp: co_close_def Let_def split: sum.split)
qed

lemma co_shutdown_cases:
  "\<exists>r. co_shutdown c = r \<and>
    (let c' = c\<lparr>c_trace := c_trace c @ [Sys_shutdown (fd_get (c_socket c)) SHUT_WR]\<rparr> in
     if sys_fails (c_kernel c) (Sys_shutdown (fd_get (c_socket c)) SHUT_WR) (c_trace c)
     then r = Returns () c' \<or> (\<exists>e. r = Throws e c') else r = Returns () c')"
  by (cases "sys_fails (c_kernel c) (Sys_shutdown (fd_get (c_socket c)) SHUT_WR) (c_trace c)")
    (auto simp: co_shutdown_def co_sync_def shutdown_throw_def throwing_def shutdown_ec_def
      sync_operation_fails sync_operation_succeeds ignore_ret_def Let_def)

text \<open>
  Hanging up never throws and sends nothing; it announces the end of the stream first, and when
  the kernel lets it, drains what the peer still sends and closes the descriptor, once.
\<close>

lemma shutdown_and_close_effect:
  "holds_after (\<lambda>_ c'. c_sent c' = c_sent c \<and> c_socket c' = c_socket c \<and>
      (\<exists>tr. c_trace c' = c_trace c @ Sys_shutdown (fd_get (c_socket c)) SHUT_WR # tr \<and>
        set tr \<subseteq> {Sys_close (fd_get (c_socket c))} \<and> length tr \<le> 1))
    (\<lambda>_ _. False)
    (\<lambda>c'. c_sent c' = c_sent c \<and> c_trace c' = c_trace c @ [Sys_shutdown (fd_get (c_socket c)) SHUT_WR])
    (shutdown_and_close c)"
proof -
  let ?s = "c\<lparr>c_trace := c_trace c @ [Sys_shutdown (fd_get (c_socket c)) SHUT_WR]\<rparr>"
  obtain m st as where d: "drain (c_answers ?s) (length (c_in ?s)) = (m, st, as)"
    by (metis prod_cases3)
  consider "co_shutdown c = Returns () ?s" | e where "co_shutdown c = Throws e ?s"
    using co_shutdown_cases [of c] by (auto simp: Let_def split: if_splits)
  then show ?thesis
  proof cases
    case 1
    with co_close_drains [OF d] show ?thesis
      by (cases "st = Blocked") (auto simp: shutdown_and_close_def Let_def)
  qed (simp add: shutdown_and_close_def)
qed

lemma shutdown_and_close_closes:
  assumes "\<not> sys_fails (c_kernel c) (Sys_shutdown (fd_get (c_socket c)) SHUT_WR) (c_trace c)"
    and "fst (snd (drain (c_answers c) (length (c_in c)))) = Ended"
  shows "\<exists>c'. shutdown_and_close c = Returns () c' \<and> c_sent c' = c_sent c \<and> c_in c' = [] \<and> c_socket c' = c_socket c \<and>
    c_trace c' = c_trace c @ [Sys_shutdown (fd_get (c_socket c)) SHUT_WR, Sys_close (fd_get (c_socket c))]"
proof -
  let ?s = "c\<lparr>c_trace := c_trace c @ [Sys_shutdown (fd_get (c_socket c)) SHUT_WR]\<rparr>"
  from assms(2) obtain m as where d: "drain (c_answers ?s) (length (c_in ?s)) = (m, Ended, as)"
    by (cases "drain (c_answers c) (length (c_in c))") auto
  have "m = length (c_in c)" using drain_bounds [OF d] by simp
  moreover have "co_shutdown c = Returns () ?s"
    using co_shutdown_cases [of c] assms(1) by (auto simp: Let_def)
  ultimately show ?thesis
    using co_close_drains [OF d] by (auto simp: shutdown_and_close_def Let_def)
qed

lemma fd_destroy_valid: "valid f \<Longrightarrow> fd_destroy f tr = tr @ [Sys_close (fd_get f)]"
  by (simp add: fd_destroy_def fd_close_def fd_get_def)

text \<open>
  Together with the destructor: a socket that was closed by the operation is closed a second
  time by its destructor.
\<close>

definition hang_up :: "unit co" where
  "hang_up = co_await shutdown_and_close (\<lambda>_. socket_destructor)"

definition hung_up :: "conn \<Rightarrow> trace \<Rightarrow> bool" where
  "hung_up c tr \<longleftrightarrow> (\<exists>n \<le> 1. tr = c_trace c @ Sys_shutdown (fd_get (c_socket c)) SHUT_WR #
    replicate (Suc n) (Sys_close (fd_get (c_socket c))))"

lemma hang_up_effect:
  assumes "valid (c_socket c)"
  shows "holds_after (\<lambda>_ c'. c_sent c' = c_sent c \<and> hung_up c (c_trace c')) (\<lambda>_ _. False)
    (\<lambda>c'. c_sent c' = c_sent c \<and> c_trace c' = c_trace c @ [Sys_shutdown (fd_get (c_socket c)) SHUT_WR])
    (hang_up c)"
  unfolding hang_up_def
proof (rule holds_await [OF holds_mono [OF shutdown_and_close_effect]])
  let ?P = "\<lambda>_ c'. c_sent c' = c_sent c \<and> c_socket c' = c_socket c \<and>
      (\<exists>n \<le> 1. c_trace c' = c_trace c @ Sys_shutdown (fd_get (c_socket c)) SHUT_WR #
        replicate n (Sys_close (fd_get (c_socket c))))"
  fix v :: unit and c' :: conn
  assume "?P v c'"
  then obtain n where "n \<le> 1" "c_trace c' = c_trace c @ Sys_shutdown (fd_get (c_socket c)) SHUT_WR #
        replicate n (Sys_close (fd_get (c_socket c)))" "c_sent c' = c_sent c" "c_socket c' = c_socket c" by blast
  with assms show "holds_after (\<lambda>_ c'. c_sent c' = c_sent c \<and> hung_up c (c_trace c')) (\<lambda>_ _. False)
      (\<lambda>c'. c_sent c' = c_sent c \<and> c_trace c' = c_trace c @ [Sys_shutdown (fd_get (c_socket c)) SHUT_WR])
      (socket_destructor c')"
    by (auto simp: socket_destructor_def hung_up_def fd_destroy_valid replicate_append_same intro!: exI [of _ n])
next
  fix c' :: conn and v :: unit
  assume "c_sent c' = c_sent c \<and> c_socket c' = c_socket c \<and>
      (\<exists>tr. c_trace c' = c_trace c @ Sys_shutdown (fd_get (c_socket c)) SHUT_WR # tr \<and>
        set tr \<subseteq> {Sys_close (fd_get (c_socket c))} \<and> length tr \<le> 1)"
  then show "c_sent c' = c_sent c \<and> c_socket c' = c_socket c \<and>
      (\<exists>n \<le> 1. c_trace c' = c_trace c @ Sys_shutdown (fd_get (c_socket c)) SHUT_WR #
        replicate n (Sys_close (fd_get (c_socket c))))"
    using replicate_length_same [of _ "Sys_close (fd_get (c_socket c))"] by (metis singletonD subsetD)
qed auto

lemma hang_up_closes_twice:
  assumes "\<not> sys_fails (c_kernel c) (Sys_shutdown (fd_get (c_socket c)) SHUT_WR) (c_trace c)"
    and "fst (snd (drain (c_answers c) (length (c_in c)))) = Ended" and "valid (c_socket c)"
  shows "\<exists>c'. hang_up c = Returns () c' \<and> c_sent c' = c_sent c \<and> c_in c' = [] \<and>
    c_trace c' = c_trace c @ [Sys_shutdown (fd_get (c_socket c)) SHUT_WR,
      Sys_close (fd_get (c_socket c)), Sys_close (fd_get (c_socket c))]"
  using shutdown_and_close_closes [OF assms(1,2)] assms(3)
  by (auto simp: hang_up_def socket_destructor_def fd_destroy_valid)

end
