(* ===== verification/Simple_Servers.thy ===== *)
theory Simple_Servers
  imports Connection Stream_Buffer
begin

text \<open>
  The one-connection programs under \<open>example/simple\<close>, \<open>example/pingpong\<close> and
  \<open>example/file_transfer\<close>, as coroutines over a connection.
\<close>

section \<open>Echo and ping-pong servers\<close>

text \<open>
  \<open>echo\<close> and \<open>pingpong_server\<close> have the same body and differ in the size of the buffer, an array
  of 4096 bytes and a vector of the size given on the command line.
\<close>

definition echo_round :: "u8 list \<Rightarrow> u8 list co" where
  "echo_round buf =
    co_await (co_recv True 0 (length buf) buf) (\<lambda>(buf, recv_bytes).
    co_await (co_send [take (unat recv_bytes) buf]) (\<lambda>sent_bytes.
    co_return buf))"

definition pingpong_server :: "nat \<Rightarrow> unit co" where
  "pingpong_server buffer_size =
    co_await (try_catch (forever echo_round (replicate buffer_size 0)) (\<lambda>e. co_return ())) (\<lambda>_.
    hang_up)"

definition ECHO_BUFFER_SIZE :: nat where
  "ECHO_BUFFER_SIZE = 4096"

definition echo :: "unit co" where
  "echo =
    co_await (try_catch (forever echo_round (replicate ECHO_BUFFER_SIZE 0)) (\<lambda>e. co_return ())) (\<lambda>_.
    hang_up)"

text \<open>
  \<open>echoed c c' j i\<close>: from \<open>c\<close> to \<open>c'\<close> the first \<open>i\<close> bytes were received and the first \<open>j\<close> of them sent
  back, and nothing else happened.
\<close>

definition echoed :: "conn \<Rightarrow> conn \<Rightarrow> nat \<Rightarrow> nat \<Rightarrow> bool" where
  "echoed c c' j i \<longleftrightarrow> j \<le> i \<and> i \<le> length (c_in c) \<and>
    c_sent c' = c_sent c @ take j (c_in c) \<and> c_in c' = drop i (c_in c) \<and>
    c_kernel c' = c_kernel c \<and> c_socket c' = c_socket c \<and> c_trace c' = c_trace c"

lemma echo_round_effect:
  assumes "echoed c0 c i i" and "length buf = n" and "0 < n" and "n < 2 ^ 31"
  shows "holds_after (\<lambda>buf' c'. length buf' = n \<and> length (c_answers c') < length (c_answers c) \<and>
      (\<exists>i'. i < i' \<and> echoed c0 c' i' i'))
    (\<lambda>e c'. (e = eof_exn \<and> c_in c = [] \<and> echoed c0 c' i i) \<or> (\<exists>j i'. i' \<le> j + n \<and> echoed c0 c' j i'))
    (\<lambda>c'. \<exists>j i'. i' \<le> j + n \<and> echoed c0 c' j i') (echo_round buf c)"
proof -
  note recv = co_recv_some [where off = 0 and len = n and mem = buf and c = c]
  show ?thesis
  proof (cases "c_answers c")
    case Nil
    with recv assms show ?thesis by (auto simp: echo_round_def intro!: exI [of _ i])
  next
    case (Cons a as)
    show ?thesis
    proof (cases a)
      case (Fail e)
      with Cons recv assms have "echo_round buf c = Throws (os_exn e) (c\<lparr>c_answers := as\<rparr>)"
        by (simp add: echo_round_def)
      with assms(1) show ?thesis
        by (auto simp: echoed_def intro!: exI [of _ i])
    next
      case (Move m)
      define k where "k = min (Suc m) (min n (length (c_in c)))"
      let ?c = "c\<lparr>c_in := drop k (c_in c), c_answers := as\<rparr>"
      show ?thesis
      proof (cases "k = 0")
        case True
        then have "c_in c = []" using assms(3) by (cases "c_in c") (auto simp: k_def min_def split: if_splits)
        with True Cons Move recv assms have "echo_round buf c = Throws eof_exn ?c"
          by (simp add: echo_round_def k_def [symmetric])
        with \<open>c_in c = []\<close> True assms(1) show ?thesis by (auto simp: echoed_def)
      next
        case False
        have k: "k \<le> n" "k \<le> length (c_in c)" by (simp_all add: k_def)
        let ?b = "take k (c_in c)" and ?buf = "write_at 0 (take k (c_in c)) buf"
        obtain s st as' where mv: "stream_moves as k k = (s, st, as')" by (metis prod_cases3)
        have "co_recv True 0 n buf c = Returns (?buf, of_nat k) ?c"
          using False Cons Move recv assms by (simp add: k_def [symmetric])
        moreover have "unat (of_nat k :: size_t) = k" using k assms(4) by (intro unat_of_nat_size) simp
        moreover have "take k ?buf = ?b" using k assms(2) by (simp add: write_at_def)
        ultimately have "echo_round buf c = co_await (co_send [?b]) (\<lambda>_. co_return ?buf) ?c"
          using assms(2) by (simp add: echo_round_def)
        moreover have "co_send [?b] ?c = (let c' = ?c\<lparr>c_sent := c_sent ?c @ take s ?b, c_answers := as'\<rparr> in
            case st of Failed e \<Rightarrow> Throws (os_exn e) c' | Blocked \<Rightarrow> Suspended c' | _ \<Rightarrow> Returns (of_nat s) c')"
          using False k assms(4) mv co_send_all [of "[?b]" ?c s st as'] by (cases "c_in c") (auto simp: min_absorb2)
        moreover let ?d = "?c\<lparr>c_sent := c_sent ?c @ take s ?b, c_answers := as'\<rparr>"
        have d: "echoed c0 ?d (i + s) (i + k)"
          using assms(1) k stream_moves_bounds(1) [OF mv] by (auto simp: echoed_def take_add add.commute)
        then have "\<exists>j i'. i' \<le> j + n \<and> echoed c0 ?d j i'"
          using k(1) by (intro exI [of _ "i + s"] exI [of _ "i + k"]) simp
        moreover have "\<exists>i'>i. echoed c0 ?d i' i'" if "s = k"
          using d that False by (intro exI [of _ "i + k"]) simp
        ultimately show ?thesis
          using stream_moves_bounds [OF mv] k Cons assms(2) by (cases st) (simp_all add: Let_def)
      qed
    qed
  qed
qed

lemma echo_is_pingpong_server: "echo = pingpong_server 4096"
  by (simp add: echo_def pingpong_server_def ECHO_BUFFER_SIZE_def)

lemma echo_loop_effect:
  assumes "0 < n" and "n < 2 ^ 31"
  shows "holds_after (\<lambda>_ _. False) (\<lambda>e c'. \<exists>j i. i \<le> j + n \<and> echoed c c' j i)
    (\<lambda>c'. \<exists>j i. i \<le> j + n \<and> echoed c c' j i) (forever echo_round (replicate n 0) c)"
proof (rule holds_forever [where I = "\<lambda>buf c1. length buf = n \<and> (\<exists>i. echoed c c1 i i)"])
  fix buf :: "u8 list" and c1 :: conn
  assume "length buf = n \<and> (\<exists>i. echoed c c1 i i)"
  then obtain i where "length buf = n" "echoed c c1 i i" by blast
  from echo_round_effect [OF this(2,1) assms]
  show "holds_after (\<lambda>buf' c'. (length buf' = n \<and> (\<exists>i. echoed c c' i i)) \<and> length (c_answers c') < length (c_answers c1))
      (\<lambda>e c'. \<exists>j i. i \<le> j + n \<and> echoed c c' j i) (\<lambda>c'. \<exists>j i. i \<le> j + n \<and> echoed c c' j i) (echo_round buf c1)"
    by (rule holds_mono) (auto, metis le_add1)
qed (auto simp: echoed_def)

text \<open>
  The echo server sends back what it received: whatever the peer sends and however the kernel
  cuts, delays or fails the transfers, the bytes sent are a prefix of the bytes received, in
  order, at most one buffer behind; the server never fails or spins, it ends only by hanging up.
\<close>

theorem echo_sends_what_it_received:
  assumes "0 < n" and "n < 2 ^ 31" and "valid (c_socket c)"
  shows "echo = pingpong_server 4096 \<and>
    holds_after
      (\<lambda>_ c'. hung_up c (c_trace c') \<and> (\<exists>j \<le> length (c_in c). c_sent c' = c_sent c @ take j (c_in c)))
      (\<lambda>e c'. False)
      (\<lambda>c'. (\<exists>j i. i \<le> j + n \<and> echoed c c' j i) \<or>
        (\<exists>j. c_sent c' = c_sent c @ take j (c_in c) \<and>
          c_trace c' = c_trace c @ [Sys_shutdown (fd_get (c_socket c)) SHUT_WR]))
      (pingpong_server n c)"
proof (intro conjI echo_is_pingpong_server)
  let ?ended = "\<lambda>c'. \<exists>j i. i \<le> j + n \<and> echoed c c' j i"
  let ?R = "\<lambda>c'. ?ended c' \<or> (\<exists>j. c_sent c' = c_sent c @ take j (c_in c) \<and>
    c_trace c' = c_trace c @ [Sys_shutdown (fd_get (c_socket c)) SHUT_WR])"
  have loop: "holds_after (\<lambda>_. ?ended) (\<lambda>_ _. False) ?R
      (try_catch (forever echo_round (replicate n 0)) (\<lambda>e. co_return ()) c)"
    by (rule holds_try [where Q' = "\<lambda>_. ?ended"], rule holds_mono [OF echo_loop_effect [OF assms(1,2)]]) auto
  show "holds_after
      (\<lambda>_ c'. hung_up c (c_trace c') \<and> (\<exists>j \<le> length (c_in c). c_sent c' = c_sent c @ take j (c_in c)))
      (\<lambda>e c'. False) ?R (pingpong_server n c)"
    unfolding pingpong_server_def
  proof (rule holds_await, rule loop)
    fix c1 :: conn and u :: unit
    assume "?ended c1"
    then obtain j i where "echoed c c1 j i" by blast
    then show "holds_after
      (\<lambda>_ c'. hung_up c (c_trace c') \<and> (\<exists>j \<le> length (c_in c). c_sent c' = c_sent c @ take j (c_in c)))
      (\<lambda>e c'. False) ?R (hang_up c1)"
      using assms(3)
      by (intro holds_mono [OF hang_up_effect [of c1]]) (auto simp: echoed_def hung_up_def intro!: exI [of _ j])
  qed
qed

text \<open>A kernel that only moves bytes lets every transfer finish.\<close>

definition moves_only :: "answer list \<Rightarrow> bool" where
  "moves_only as \<longleftrightarrow> list_all (\<lambda>a. case a of Move n \<Rightarrow> True | Fail e \<Rightarrow> False) as"

lemma moves_only_Cons [simp]: "moves_only (a # as) \<longleftrightarrow> (\<exists>n. a = Move n) \<and> moves_only as"
  by (cases a) (simp_all add: moves_only_def)

lemma stream_moves_all:
  assumes "moves_only as" and "0 < room" and "room \<le> length as" and "room \<le> avail"
  shows "\<exists>as'. stream_moves as avail room = (room, All_moved, as') \<and> moves_only as' \<and>
    length as \<le> length as' + room"
  using assms
proof (induction as avail room rule: stream_moves.induct)
  case (3 n as avail room)
  define k where "k = min (Suc n) (min room avail)"
  have k: "0 < k" "k \<le> room" using 3(3,5) by (auto simp: k_def)
  show ?case
  proof (cases "k = room")
    case True
    with 3(2,3) k show ?thesis by (simp add: k_def [symmetric] Let_def)
  next
    case False
    from 3(1) [OF refl, folded k_def] False k 3(2-5) obtain as'
      where "stream_moves as (avail - k) (room - k) = (room - k, All_moved, as')" "moves_only as'"
        "length as \<le> length as' + (room - k)" by force
    with False k show ?thesis by (auto simp: k_def [symmetric] Let_def)
  qed
qed auto

lemma echo_round_moves:
  assumes "moves_only (c_answers c)" and "2 * length (c_in c) < length (c_answers c)"
    and "length buf = n" and "0 < n" and "n < 2 ^ 31" and "c_in c \<noteq> []"
  shows "\<exists>buf' k as. 0 < k \<and> k \<le> length (c_in c) \<and> length buf' = n \<and>
    echo_round buf c = Returns buf'
      (c\<lparr>c_in := drop k (c_in c), c_sent := c_sent c @ take k (c_in c), c_answers := as\<rparr>) \<and>
    moves_only as \<and> length as < length (c_answers c) \<and> length (c_answers c) \<le> length as + 2 * k"
proof -
  from assms(1,2) obtain m as where as: "c_answers c = Move m # as" "moves_only as"
    by (cases "c_answers c") auto
  define k where "k = min (Suc m) (min n (length (c_in c)))"
  have k: "0 < k" "k \<le> n" "k \<le> length (c_in c)" using assms(4,6) by (simp_all add: k_def)
  let ?b = "take k (c_in c)" and ?buf = "write_at 0 (take k (c_in c)) buf"
  let ?c = "c\<lparr>c_in := drop k (c_in c), c_answers := as\<rparr>"
  have "k \<le> length as" using assms(2) as k by simp
  from stream_moves_all [OF as(2) k(1) this order_refl] obtain as'
    where mv: "stream_moves as k k = (k, All_moved, as')" "moves_only as'" "length as \<le> length as' + k" by blast
  have "co_recv True 0 n buf c = Returns (?buf, of_nat k) ?c"
    using co_recv_some [where off = 0 and len = n and mem = buf and c = c] as k assms
    by (simp add: k_def [symmetric])
  moreover have "unat (of_nat k :: size_t) = k" using k assms(5) by (intro unat_of_nat_size) simp
  moreover have "take k ?buf = ?b" using k assms(3) by (simp add: write_at_def)
  ultimately have "echo_round buf c = co_await (co_send [?b]) (\<lambda>_. co_return ?buf) ?c"
    using assms(3) by (simp add: echo_round_def)
  also have "\<dots> = Returns ?buf (?c\<lparr>c_sent := c_sent c @ ?b, c_answers := as'\<rparr>)"
    using k assms(5,6) mv co_send_all [of "[?b]" ?c k All_moved as'] by (auto simp: min_absorb2 Let_def)
  finally have "echo_round buf c = Returns ?buf (c\<lparr>c_in := drop k (c_in c), c_sent := c_sent c @ ?b, c_answers := as'\<rparr>)"
    by simp
  moreover have "length as' < length (c_answers c)"
    using stream_moves_bounds(6) [OF mv(1)] as(1) by simp
  ultimately show ?thesis
    using k mv as(1) assms(3) by (intro exI [of _ ?buf] exI [of _ k] exI [of _ as']) auto
qed

lemma echo_loop_moves:
  assumes "moves_only (c_answers c)" and "2 * length (c_in c) < length (c_answers c)"
    and "length buf = n" and "0 < n" and "n < 2 ^ 31"
  shows "\<exists>as. forever echo_round buf c = Throws eof_exn (c\<lparr>c_in := [], c_sent := c_sent c @ c_in c, c_answers := as\<rparr>)
    \<and> moves_only as \<and> length (c_answers c) \<le> length as + (2 * length (c_in c) + 1)"
  using assms
proof (induction "length (c_in c)" arbitrary: c buf rule: less_induct)
  case less
  show ?case
  proof (cases "c_in c = []")
    case True
    with less.prems(1,2) obtain m as where as: "c_answers c = Move m # as" "moves_only as"
      by (cases "c_answers c") auto
    have "echo_round buf c = Throws eof_exn (c\<lparr>c_in := [], c_answers := as\<rparr>)"
      using co_recv_some [where off = 0 and len = n and mem = buf and c = c] True as less.prems
      by (simp add: echo_round_def)
    with True as show ?thesis by (auto simp: forever.simps [of echo_round buf c])
  next
    case False
    from echo_round_moves [OF less.prems False] obtain buf' k as
      where k: "0 < k" "k \<le> length (c_in c)" "length buf' = n"
        "echo_round buf c = Returns buf'
          (c\<lparr>c_in := drop k (c_in c), c_sent := c_sent c @ take k (c_in c), c_answers := as\<rparr>)"
        "moves_only as" "length as < length (c_answers c)" "length (c_answers c) \<le> length as + 2 * k"
      by blast
    let ?c = "c\<lparr>c_in := drop k (c_in c), c_sent := c_sent c @ take k (c_in c), c_answers := as\<rparr>"
    have "length (c_in ?c) < length (c_in c)" "moves_only (c_answers ?c)" "2 * length (c_in ?c) < length (c_answers ?c)"
      using k less.prems(2) by auto
    from less.hyps [OF this k(3) less.prems(4,5)] k(1,2,4,6,7) show ?thesis
      by (auto simp: forever.simps [of echo_round buf c])
  qed
qed

text \<open>
  C18: The echo server echoes everything: if the kernel completes transfers without errors, of
  any sizes, two completions for every byte and two more suffice for the server to have sent
  back the whole stream in order, announced the end of its own stream and returned. The
  descriptor is then closed twice: by \<open>close()\<close>, and again by the destructor of the socket, which
  still holds the number.
\<close>

theorem echo_echoes_all:
  assumes "moves_only (c_answers c)" and "2 * length (c_in c) + 2 \<le> length (c_answers c)"
    and "0 < n" and "n < 2 ^ 31"
    and "\<not> sys_fails (c_kernel c) (Sys_shutdown (m_fd (c_socket c)) SHUT_WR) (c_trace c)"
    and "valid (c_socket c)"
  shows "\<exists>c'. pingpong_server n c = Returns () c' \<and> c_sent c' = c_sent c @ c_in c \<and> c_in c' = [] \<and>
    c_trace c' = c_trace c @ [Sys_shutdown (m_fd (c_socket c)) SHUT_WR,
      Sys_close (m_fd (c_socket c)), Sys_close (m_fd (c_socket c))]"
proof -
  from echo_loop_moves [OF assms(1), of "replicate n 0" n] assms(2-4) obtain as
    where l: "(forever echo_round (replicate n 0) :: unit co) c =
        Throws eof_exn (c\<lparr>c_in := [], c_sent := c_sent c @ c_in c, c_answers := as\<rparr>)"
      and as: "moves_only as" "length (c_answers c) \<le> length as + (2 * length (c_in c) + 1)"
    by auto
  let ?c = "c\<lparr>c_in := [], c_sent := c_sent c @ c_in c, c_answers := as\<rparr>"
  from as assms(2) obtain m as' where "as = Move m # as'" by (cases as) auto
  then have "fst (snd (drain (c_answers ?c) (length (c_in ?c)))) = Ended" by simp
  from hang_up_closes_twice [OF _ this] assms(5,6) l show ?thesis
    by (auto simp: pingpong_server_def fd_get_def co_await_def try_catch_def)
qed

text \<open>Concrete connections for the witnesses.\<close>

definition sample_conn :: "u8 list \<Rightarrow> answer list \<Rightarrow> conn" where
  "sample_conn input answers = \<lparr> c_in = input, c_answers = answers, c_sent = [], c_kernel = friendly_kernel,
    c_trace = [], c_socket = fd_set 3 socket_new \<rparr>"

lemma sample_conn_simps [simp]:
  "c_in (sample_conn i as) = i" "c_answers (sample_conn i as) = as" "c_sent (sample_conn i as) = []"
  "c_kernel (sample_conn i as) = friendly_kernel" "c_trace (sample_conn i as) = []"
  "c_socket (sample_conn i as) = fd_set 3 socket_new" "m_fd (fd_set n f) = n"
  "valid (fd_set 3 f)"
  by (simp_all add: sample_conn_def fd_set_def valid_def)

lemma friendly_kernel_succeeds [simp]: "\<not> sys_fails friendly_kernel call tr"
  by (simp add: friendly_kernel_def sys_fails_def sys_ret_def)

theorem echo_sends_what_it_received_witness:
  "holds_after (\<lambda>_ c'. True) (\<lambda>e c'. False) (\<lambda>c'. True)
    (pingpong_server 4096 (sample_conn [1, 2, 3] [Move 1, Move 0, Fail 31]))"
  using echo_sends_what_it_received [of 4096 "sample_conn [1, 2, 3] [Move 1, Move 0, Fail 31]"]
  by (auto elim!: holds_mono)

theorem echo_echoes_all_witness:
  "\<exists>c'. pingpong_server 4096 (sample_conn [1, 2, 3] (replicate 8 (Move 1))) = Returns () c' \<and>
    c_sent c' = [1, 2, 3] \<and> c_trace c' = [Sys_shutdown 3 SHUT_WR, Sys_close 3, Sys_close 3]"
proof -
  have "moves_only (replicate 8 (Move 1))" by (simp add: moves_only_def numeral_eq_Suc)
  then show ?thesis
    using echo_echoes_all [of "sample_conn [1, 2, 3] (replicate 8 (Move 1))" 4096] by auto
qed

section \<open>Discard and character generator\<close>

definition NULL_BUFFER_SIZE :: nat where
  "NULL_BUFFER_SIZE = 4096"

definition discard_round :: "nat \<Rightarrow> u8 list \<Rightarrow> u8 list co" where
  "discard_round len null_buffer =
    co_await (co_recv True 0 len null_buffer) (\<lambda>(null_buffer, read_bytes). co_return null_buffer)"

definition discard :: "unit co" where
  "discard =
    try_catch (forever (discard_round NULL_BUFFER_SIZE) (replicate NULL_BUFFER_SIZE 0)) (\<lambda>e. co_return ())"

text \<open>The pattern: the characters 33 to 127 by \<open>iota\<close>, the last one replaced by a newline.\<close>

definition CHARGEN_BUFFER_SIZE :: nat where
  "CHARGEN_BUFFER_SIZE = 127 - 33 + 1"

definition chargen_buffer :: "u8 list" where
  "chargen_buffer = (map (\<lambda>i. of_nat (33 + i)) [0..<CHARGEN_BUFFER_SIZE])[CHARGEN_BUFFER_SIZE - 1 := 10]"

definition chargen_writer_round :: "unit \<Rightarrow> unit co" where
  "chargen_writer_round u = co_await (co_send [chargen_buffer]) (\<lambda>sent_bytes. co_return ())"

definition chargen_writer :: "unit co" where
  "chargen_writer = try_catch (forever chargen_writer_round ()) (\<lambda>e. co_return ())"

lemma concat_replicate_snoc: "concat (replicate (Suc q) xs) = concat (replicate q xs) @ xs"
proof -
  have "replicate (Suc q) xs = replicate q xs @ [xs]" by (simp add: replicate_append_same)
  then show ?thesis by (simp del: replicate_Suc)
qed

lemma length_chargen_buffer: "length chargen_buffer = 95"
  by (simp add: chargen_buffer_def CHARGEN_BUFFER_SIZE_def)

text \<open>
  The character generator repeats its line: whatever the kernel does, the bytes sent are a
  prefix of copies of the pattern, which is the printable characters and a newline.
\<close>

lemma chargen_sends_pattern:
  "holds_after (\<lambda>_ c'. \<exists>q k. c_sent c' = c_sent c @ concat (replicate q chargen_buffer) @ take k chargen_buffer)
    (\<lambda>e c'. False)
    (\<lambda>c'. \<exists>q k. c_sent c' = c_sent c @ concat (replicate q chargen_buffer) @ take k chargen_buffer)
    (chargen_writer c)"
proof -
  let ?P = "\<lambda>c'. \<exists>q k. c_sent c' = c_sent c @ concat (replicate q chargen_buffer) @ take k chargen_buffer"
  let ?I = "\<lambda>u c'. \<exists>q. c_sent c' = c_sent c @ concat (replicate q chargen_buffer)"
  have "holds_after (\<lambda>_ _. False) (\<lambda>_. ?P) ?P (forever chargen_writer_round () c)"
  proof (rule holds_forever [where I = ?I])
    fix u :: unit and c1 :: conn
    assume "?I u c1"
    then obtain q where q: "c_sent c1 = c_sent c @ concat (replicate q chargen_buffer)" by blast
    obtain m st as where mv: "stream_moves (c_answers c1) 95 95 = (m, st, as)" by (metis prod_cases3)
    note b = stream_moves_bounds [OF mv]
    let ?c = "c1\<lparr>c_sent := c_sent c1 @ take m chargen_buffer, c_answers := as\<rparr>"
    have s: "co_send [chargen_buffer] c1 =
      (case st of Failed e \<Rightarrow> Throws (os_exn e) ?c | Blocked \<Rightarrow> Suspended ?c | _ \<Rightarrow> Returns (of_nat m) ?c)"
      using co_send_all [of "[chargen_buffer]" c1 m st as] mv length_chargen_buffer
      by (cases "chargen_buffer = []") (auto simp: Let_def)
    have p: "?P ?c" using q by (intro exI [of _ q] exI [of _ m]) simp
    moreover have "?I u ?c" if "m = 95"
      using q that length_chargen_buffer
      by (intro exI [of _ "Suc q"]) (simp add: concat_replicate_snoc del: replicate_Suc)
    ultimately show "holds_after (\<lambda>u' c'. ?I u' c' \<and> length (c_answers c') < length (c_answers c1))
        (\<lambda>_. ?P) ?P (chargen_writer_round u c1)"
      using b s by (cases st) (simp_all add: chargen_writer_round_def)
  qed (auto intro: exI [of _ 0])
  then show ?thesis
    unfolding chargen_writer_def by (rule holds_try [OF holds_mono]) auto
qed

section \<open>Daytime\<close>

text \<open>
  Formatted output reaches the stream buffer character by character: \<open>sputc\<close> of
  \<open>std::streambuf\<close> stores into the put area and calls \<open>overflow\<close> when it is full. An
  exception there only sets the error state of the stream, and the rest is dropped. The text
  \<open>put_time\<close> formats depends on the clock and the locale, and is a parameter.
\<close>

definition sputc :: "u8 \<Rightarrow> stream_buffer \<Rightarrow> cpp_exn + stream_buffer" where
  "sputc c sb =
    (if pptr sb < epptr sb then Inr (pbump 1 (sb\<lparr>m_buffer := (m_buffer sb)[nat (pptr sb) := c]\<rparr>))
     else (case overflow (uint c) sb of Inl e \<Rightarrow> Inl e | Inr (r, sb) \<Rightarrow> Inr sb))"

fun put_text :: "u8 list \<Rightarrow> stream_buffer \<Rightarrow> stream_buffer" where
  "put_text [] sb = sb"
| "put_text (c # cs) sb = (case sputc c sb of Inl e \<Rightarrow> sb | Inr sb \<Rightarrow> put_text cs sb)"

definition daytime :: "u8 list \<Rightarrow> unit co" where
  "daytime time_text =
    co_await
      (let send_span = data (put_text time_text stream_buffer_new) in
       try_catch
         (co_await (co_send [send_span]) (\<lambda>sent_bytes.
          co_await co_shutdown (\<lambda>_. co_close)))
         (\<lambda>e. co_return ()))
      (\<lambda>_. socket_destructor)"

lemma sputc_appends:
  assumes "sb_ok sb" and "length (data sb) + 128 < 2 ^ 31"
  shows "\<exists>sb'. sputc c sb = Inr sb' \<and> sb_ok sb' \<and> data sb' = data sb @ [c]"
proof -
  obtain sb' where sb': "overflow (uint c) sb = Inr (uint c, sb')" "sb_ok sb'" "data sb' = data sb @ [c]"
    using overflow_correct [OF assms(1) _ assms(2), of "uint c"] by auto
  have "uint c \<noteq> traits_eof" using uint_nat [of c] unfolding traits_eof_def by linarith
  then have "sputc c sb = Inr sb'"
    using sb'(1) by (auto simp: sputc_def overflow_def)
  with sb' show ?thesis by blast
qed

lemma put_text_appends:
  assumes "sb_ok sb" and "length (data sb) + length cs + 128 < 2 ^ 31"
  shows "sb_ok (put_text cs sb) \<and> data (put_text cs sb) = data sb @ cs"
  using assms
proof (induction cs arbitrary: sb)
  case (Cons c cs)
  with sputc_appends [of sb c] obtain sb' where "sputc c sb = Inr sb'" "sb_ok sb'" "data sb' = data sb @ [c]"
    by auto
  with Cons show ?case by simp
qed simp

text \<open>
  The daytime service sends the formatted time: a text that outgrows the stream buffer's
  first 128 bytes arrives in one piece and in order, for every cutting by the kernel; what was
  sent when a transfer fails is a prefix of it.
\<close>

theorem daytime_sends_text:
  assumes "0 < length msg" and "length msg + 128 < 2 ^ 31"
    and "stream_moves (c_answers c) (length msg) (length msg) = (m, st, as)"
  shows "holds_after (\<lambda>_ c'. c_sent c' = c_sent c @ take m msg) (\<lambda>_ _. False)
      (\<lambda>c'. c_sent c' = c_sent c @ take m msg) (daytime msg c) \<and>
    (st = All_moved \<longrightarrow> take m msg = msg)"
proof -
  have "data stream_buffer_new = []" by (simp add: data_def stream_buffer_new_def)
  with put_text_appends [of stream_buffer_new msg] assms(2) stream_buffer_new_ok
  have d: "data (put_text msg stream_buffer_new) = msg" by simp
  note send = co_send_all [of "[msg]" c m st as]
  let ?c = "c\<lparr>c_sent := c_sent c @ take m msg, c_answers := as\<rparr>"
  let ?P = "\<lambda>c'. c_sent c' = c_sent c @ take m msg"
  have "holds_after (\<lambda>_ . ?P) (\<lambda>_ . ?P) ?P (co_await (co_send [msg]) (\<lambda>_. co_await co_shutdown (\<lambda>_. co_close)) c)"
  proof (rule holds_await [where P' = "\<lambda>_. ?P"])
    show "holds_after (\<lambda>_. ?P) (\<lambda>_. ?P) ?P (co_send [msg] c)"
      using send assms by (cases st) (auto simp: Let_def)
  next
    fix v :: size_t and c1 :: conn
    assume "?P c1"
    moreover obtain n st' as' where "drain (c_answers c1) (length (c_in c1)) = (n, st', as')" by (metis prod_cases3)
    ultimately show "holds_after (\<lambda>_. ?P) (\<lambda>_. ?P) ?P (co_await co_shutdown (\<lambda>_. co_close) c1)"
      using co_shutdown_cases [of c1]
        co_close_drains [of "c1\<lparr>c_trace := c_trace c1 @ [Sys_shutdown (fd_get (c_socket c1)) SHUT_WR]\<rparr>" n st' as']
      by (auto simp: Let_def split: if_splits)
  qed
  then have "holds_after (\<lambda>_ . ?P) (\<lambda>_ _. False) ?P (daytime msg c)"
    unfolding daytime_def d Let_def
    by - (rule holds_await [where P' = "\<lambda>_. ?P"], rule holds_try [where Q' = "\<lambda>_. ?P"], auto simp: socket_destructor_def)
  then show ?thesis
    using stream_moves_bounds(4) [OF assms(3)] by auto
qed

theorem daytime_sends_text_witness:
  "holds_after (\<lambda>_ c'. c_sent c' = [72, 105, 10]) (\<lambda>_ _. False) (\<lambda>c'. c_sent c' = [72, 105, 10])
    (daytime [72, 105, 10] (sample_conn [] [Move 0, Move 5, Move 0]))"
  using daytime_sends_text [of "[72, 105, 10]" "sample_conn [] [Move 0, Move 5, Move 0]" 3 All_moved "[Move 0]"]
  by (simp add: Let_def)

section \<open>Time\<close>

text \<open>
  Both ends of the time service describe the eight bytes of a \<open>time_t\<close> by \<open>span{&t, sizeof(t)}\<close>. The
  second argument of a span counts elements, so this is a span of eight \<open>time_t\<close>s. Using a span
  that leaves its object is undefined.
\<close>

definition time_span :: span where
  "time_span = \<lparr> sp_data = 0, sp_size = 8, sp_elem = 8 \<rparr>"

definition within :: "span \<Rightarrow> u8 list \<Rightarrow> 'a co \<Rightarrow> 'a co" where
  "within s obj m c = (if unat (size_bytes s) \<le> length obj then m c else Undefined_behaviour)"

definition time_server :: "u8 list \<Rightarrow> unit co" where
  "time_server now =
    co_await
      (try_catch
        (co_await (within time_span now (co_send [take (unat (size_bytes time_span)) now])) (\<lambda>sent_bytes.
         co_await co_shutdown (\<lambda>_. co_close)))
        (\<lambda>e. co_return ()))
      (\<lambda>_. socket_destructor)"

text \<open>The client; printing the time it received is left out, and so is stopping the service.\<close>

definition time_client :: "sockaddr_in \<Rightarrow> unit co" where
  "time_client address =
    co_await
      (try_catch
        (co_await co_init (\<lambda>_.
         co_await (co_connect (Some 1000000000) address) (\<lambda>_.
         let t = replicate 8 0 in
         co_await (within time_span t (co_recv False 0 (unat (size_bytes time_span)) t)) (\<lambda>_.
         co_return ()))))
        (\<lambda>e. co_return ()))
      (\<lambda>_. hang_up)"

text \<open>
  Both ends of the time service leave their \<open>time_t\<close>: the server sends 64 bytes starting at an
  8-byte variable, always, and the client, once connected, lets the kernel write 64 bytes
  over an 8-byte variable.
\<close>

theorem time_service_overruns:
  assumes "length now = 8" and "c_socket d = socket_new"
    and "\<not> sys_fails (c_kernel d) socket_call (c_trace d)" and "c_answers d = Move n # as"
  shows "time_server now c = Undefined_behaviour \<and> time_client address d = Undefined_behaviour"
proof
  have size: "unat (size_bytes time_span) = 64" by (simp add: size_bytes_def time_span_def)
  show "time_server now c = Undefined_behaviour"
    using assms(1) by (simp add: time_server_def within_def size)
  obtain c1 where c1: "co_init d = Returns () c1" "c_answers c1 = Move n # as"
    using assms(2-4)
    by (auto simp: co_init_def co_sync_def init_throw_def throwing_def init_ec_def fd_get_def socket_new_def
        sync_operation_succeeds)
  have "\<exists>c2. co_connect (Some 1000000000) address c1 = Returns () c2"
    using c1(2) connect_result [where e = None and r = 0 and s = "Some 1" and d = "Some 1000000000" and p = address and a = 64 and f = "c_socket c1"]
    by (auto simp: co_connect_def Let_def split: prod.splits)
  then obtain c2 where "co_connect (Some 1000000000) address c1 = Returns () c2" by blast
  with c1(1) show "time_client address d = Undefined_behaviour"
    by (simp add: time_client_def within_def size co_await_def try_catch_def Let_def)
qed

theorem time_service_overruns_witness:
  "time_server [1, 2, 3, 4, 5, 6, 7, 8] (sample_conn [] []) = Undefined_behaviour \<and>
   time_client socket_address_default ((sample_conn [] [Move 0])\<lparr>c_socket := socket_new\<rparr>) = Undefined_behaviour"
  using time_service_overruns [of "[1, 2, 3, 4, 5, 6, 7, 8]" "(sample_conn [] [Move 0])\<lparr>c_socket := socket_new\<rparr>" 0 "[]"
      "sample_conn [] []" socket_address_default] by simp

section \<open>File transfer\<close>

text \<open>
  The file operations complete with one answer each. A file is its content; \<open>Move n\<close> as the answer
  to \<open>openat\<close> gives descriptor \<open>n\<close>, and as the answer to a read at most \<open>n + 1\<close> bytes.
\<close>

definition answered :: "(answer \<Rightarrow> (cpp_exn + 'a)) \<Rightarrow> 'a co" where
  "answered f c = (case c_answers c of
      [] \<Rightarrow> Suspended c
    | a # as \<Rightarrow> (case f a of Inl e \<Rightarrow> Throws e (c\<lparr>c_answers := as\<rparr>) | Inr v \<Rightarrow> Returns v (c\<lparr>c_answers := as\<rparr>)))"

definition answer_res :: "(nat \<Rightarrow> int) \<Rightarrow> answer \<Rightarrow> int" where
  "answer_res f a = (case a of Move n \<Rightarrow> f n | Fail e \<Rightarrow> - int (Suc e))"

definition co_openat :: "string \<Rightarrow> int \<Rightarrow> nat \<Rightarrow> file_descriptor_base \<Rightarrow> file_descriptor_base co" where
  "co_openat path flags mode file = answered (\<lambda>a.
    case openat_get_result False (set_value (answer_res int a) 0 (openat (Some 1) path flags mode 64)) file of
      (file, Inl e) \<Rightarrow> Inl e | (file, Inr v) \<Rightarrow> Inr file)"

text \<open>\<open>update_statx\<close> followed by \<open>file_size()\<close>.\<close>

definition co_file_size :: "u8 list \<Rightarrow> nat co" where
  "co_file_size content = answered (\<lambda>a.
    case statx_get_result False (set_value (answer_res (\<lambda>n. 0) a) 0 (update_statx (Some 1) 64)) of
      Inl e \<Rightarrow> Inl e | Inr v \<Rightarrow> Inr (length content))"

definition co_read_some :: "u8 list \<Rightarrow> u8 list \<Rightarrow> u8 list co" where
  "co_read_some content buffer = answered (\<lambda>a.
    let op = read_some (Some 1) (spans_from 0 [length buffer]) 64;
        addrs = pending (rd_buffers op);
        (r, bytes) = kernel_recv a (length addrs) content
    in case read_get_result False (set_value r 0 op) of
      Inl e \<Rightarrow> Inl e | Inr v \<Rightarrow> Inr (store addrs bytes buffer))"

definition file_destructor :: "file_descriptor_base \<Rightarrow> unit co" where
  "file_destructor file c = Returns () (c\<lparr>c_trace := fd_destroy file (c_trace c)\<rparr>)"

definition file_transfer :: "string \<Rightarrow> u8 list \<Rightarrow> unit co" where
  "file_transfer path content =
    co_await
      (try_catch
        (co_await (co_openat path 0 0 fd_default) (\<lambda>file.
         try_catch
          (co_await (co_file_size content) (\<lambda>file_size.
           let buffer = replicate file_size 0 in
           co_await (co_read_some content buffer) (\<lambda>buffer.
           co_await (co_send [buffer]) (\<lambda>sent_bytes.
           co_return file))))
          (\<lambda>e. co_return file)))
        (\<lambda>e. co_return fd_default))
      (\<lambda>file.
    co_await shutdown_and_close (\<lambda>_.
    co_await (file_destructor file) (\<lambda>_.
    socket_destructor)))"

lemma opened:
  "openat_get_result False (set_value (int n) 0 (openat (Some 1) path flags mode 64)) file = (fd_set (int n) file, Inr V_void)"
  by (simp only: openat_result of_nat_0_le_iff async_throw_or_return_def if_False ec_set_simps list.case)

lemma file_results:
  "statx_get_result False (set_value 0 0 (update_statx (Some 1) 64)) = Inr V_void"
  "0 \<le> r \<Longrightarrow> read_get_result False (set_value r 0 (read_some (Some 1) args 64)) = Inr (V_arg 0 (word_of_int r))"
  "rd_buffers (read_some (Some 1) args 64) = buffer_sequence_base args"
  by (simp_all add: async_throw_or_return_def statx_get_result_def read_get_result_def
      update_statx_def read_some_def read_some_offset_def async_operation.defs set_value_def get_error_code_def
      api_operation_def async_operation_new_def api_policy_def error_code_storage_ptr_def)

text \<open>
  The file server trusts a single read. When the file can be opened and the transfers succeed, it
  sends as many bytes as the file has; but only the first \<open>k\<close> are the file's, where \<open>k\<close> is what
  one \<open>read_some\<close> delivered, and the rest are zeros. The file arrives intact exactly when
  the kernel reads it in one piece, or its unread rest is zero.
\<close>

theorem file_transfer_single_read:
  assumes "c_answers c = Move fd # Move s # Move n # as" and "content \<noteq> []" and "length content < 2 ^ 31"
    and "stream_moves as (length content) (length content) = (m, All_moved, as')"
  shows "holds_after
      (\<lambda>_ c'. c_sent c' = c_sent c @ take (Suc n) content @ replicate (length content - Suc n) 0)
      (\<lambda>_ _. False)
      (\<lambda>c'. c_sent c' = c_sent c @ take (Suc n) content @ replicate (length content - Suc n) 0)
      (file_transfer path content c)"
proof -
  let ?L = "length content"
  let ?buf = "take (Suc n) content @ replicate (?L - Suc n) 0"
  define k where "k = min (Suc n) ?L"
  let ?read = "c\<lparr>c_answers := as\<rparr>"
  have addrs: "pending (buffer_sequence_base (spans_from 0 [?L])) = map of_nat [0..<0 + ?L]"
    using pending_spans [of 0 "[?L]"] assms(3) by simp
  have "store (map of_nat [0..<0 + ?L]) (take k content) (replicate ?L 0) = write_at 0 (take k content) (replicate ?L 0)"
    using assms(3) by (intro store_write_at) (auto simp: k_def)
  also have "\<dots> = ?buf" by (cases "Suc n \<le> ?L") (simp_all add: write_at_def k_def min_absorb1 min_absorb2)
  finally have buf: "store (map of_nat [0..<?L]) (take k content) (replicate ?L 0) = ?buf" by simp
  have opn: "co_openat path 0 0 fd_default c = Returns (fd_set (int fd) fd_default) (c\<lparr>c_answers := Move s # Move n # as\<rparr>)"
    using assms(1) by (simp add: co_openat_def answered_def answer_res_def opened del: One_nat_def)
  have size: "co_file_size content (c\<lparr>c_answers := Move s # Move n # as\<rparr>) = Returns ?L (c\<lparr>c_answers := Move n # as\<rparr>)"
    by (simp add: co_file_size_def answered_def answer_res_def file_results del: One_nat_def)
  have read: "co_read_some content (replicate ?L 0) (c\<lparr>c_answers := Move n # as\<rparr>) = Returns ?buf ?read"
    using addrs buf by (simp add: co_read_some_def answered_def file_results Let_def k_def del: One_nat_def)
  have "co_send [b] ?read = Returns (of_nat m) (?read\<lparr>c_sent := c_sent c @ b, c_answers := as'\<rparr>)"
    if "length b = ?L" for b
    using that co_send_all [of "[b]" ?read m All_moved as'] assms(2-4) stream_moves_bounds(4) [OF assms(4)]
    by (cases "b = []") (auto simp: Let_def)
  moreover have "length ?buf = ?L" by (cases "Suc n \<le> ?L") auto
  ultimately have send: "co_send [?buf] ?read = Returns (of_nat m) (?read\<lparr>c_sent := c_sent c @ ?buf, c_answers := as'\<rparr>)"
    by blast
  let ?c = "?read\<lparr>c_sent := c_sent c @ ?buf, c_answers := as'\<rparr>"
  have "file_transfer path content c =
      co_await shutdown_and_close (\<lambda>_. co_await (file_destructor (fd_set (int fd) fd_default)) (\<lambda>_. socket_destructor)) ?c"
    using opn size read send by (simp add: file_transfer_def co_await_def try_catch_def Let_def)
  also have "holds_after (\<lambda>_ c'. c_sent c' = c_sent c @ ?buf) (\<lambda>_ _. False) (\<lambda>c'. c_sent c' = c_sent c @ ?buf) \<dots>"
    by (rule holds_await, rule holds_mono [OF shutdown_and_close_effect [of ?c], where P' = "\<lambda>_ c'. c_sent c' = c_sent c @ ?buf"])
      (auto simp: file_destructor_def socket_destructor_def co_await_def)
  finally show ?thesis .
qed

theorem file_transfer_single_read_witness:
  "holds_after (\<lambda>_ c'. c_sent c' = [7, 8, 0, 0]) (\<lambda>_ _. False) (\<lambda>c'. c_sent c' = [7, 8, 0, 0])
    (file_transfer ''data'' [7, 8, 9, 10] (sample_conn [] [Move 5, Move 0, Move 1, Move 9, Move 0]))"
  using file_transfer_single_read [of "sample_conn [] [Move 5, Move 0, Move 1, Move 9, Move 0]" 5 0 1 "[Move 9, Move 0]"
      "[7, 8, 9, 10]" 4 "[Move 0]" "''data''"]
  by (simp add: Let_def)

section \<open>Ping-pong client\<close>

text \<open>
  A session sends its buffer and reads it back until the stop token, set by a timer, is seen
  at the head of the loop: after \<open>rounds\<close> iterations. The number of bytes read is a \<open>double\<close> in
  the code and a natural number here; it survives an exception, which ends the loop.
\<close>

fun session_loop :: "nat \<Rightarrow> u8 list \<Rightarrow> nat \<Rightarrow> nat co" where
  "session_loop 0 buffer total_bytes_read = co_return total_bytes_read"
| "session_loop (Suc rounds) buffer total_bytes_read =
    co_await
      (try_catch
        (co_await (co_send [buffer]) (\<lambda>send_bytes.
         co_await (co_recv False 0 (length buffer) buffer) (\<lambda>(buffer, read_bytes).
         co_return (Some (buffer, unat read_bytes)))))
        (\<lambda>e. co_return None))
      (\<lambda>round. case round of
        None \<Rightarrow> co_return total_bytes_read
      | Some (buffer, read_bytes) \<Rightarrow> session_loop rounds buffer (total_bytes_read + read_bytes))"

definition pingpong_session :: "nat \<Rightarrow> nat \<Rightarrow> sockaddr_in \<Rightarrow> nat co" where
  "pingpong_session message_len rounds address =
    co_await
      (try_catch
        (co_await co_init (\<lambda>_. co_await (co_connect None address) (\<lambda>_. co_return True)))
        (\<lambda>e. co_return False))
      (\<lambda>connected.
    co_await (if connected then session_loop rounds (replicate message_len 0) 0 else co_return 0) (\<lambda>total_bytes_read.
    co_await hang_up (\<lambda>_.
    co_return total_bytes_read)))"

text \<open>
  The session counts what it read: after \<open>q\<close> complete rounds the total is \<open>q\<close> messages, and these
  are the first bytes the peer sent; an interrupted round counts nothing.
\<close>

lemma session_loop_counts:
  assumes "length buffer = L" and "0 < L" and "L < 2 ^ 31" and "L < 2 ^ 64"
  shows "holds_after (\<lambda>t c'. \<exists>q \<le> rounds. t = tot + q * L \<and> q * L \<le> length (c_in c) \<and>
      length (c_in c') \<le> length (c_in c) - q * L) (\<lambda>_ _. False) (\<lambda>c'. True) (session_loop rounds buffer tot c)"
  using assms(1)
proof (induction rounds arbitrary: buffer tot c)
  case 0
  then show ?case by simp
next
  case (Suc rounds)
  let ?P = "\<lambda>c t c'. \<exists>q \<le> Suc rounds. t = tot + q * L \<and> q * L \<le> length (c_in c) \<and> length (c_in c') \<le> length (c_in c) - q * L"
  let ?round = "try_catch
        (co_await (co_send [buffer]) (\<lambda>send_bytes.
         co_await (co_recv False 0 (length buffer) buffer) (\<lambda>(buffer, read_bytes).
         co_return (Some (buffer, unat read_bytes)))))
        (\<lambda>e. co_return None)"
  have round: "holds_after (\<lambda>r c'. case r of None \<Rightarrow> length (c_in c') \<le> length (c_in c)
      | Some (b, n) \<Rightarrow> length b = L \<and> n = L \<and> L \<le> length (c_in c) \<and> length (c_in c') = length (c_in c) - L)
      (\<lambda>_ _. False) (\<lambda>_. True) (?round c)" (is "holds_after ?R _ _ _")
  proof (rule holds_try [where Q' = "\<lambda>e c'. length (c_in c') \<le> length (c_in c)"],
      rule holds_await [where P' = "\<lambda>_ c'. c_in c' = c_in c"])
    obtain m st as where "stream_moves (c_answers c) L L = (m, st, as)" by (metis prod_cases3)
    with co_send_all [of "[buffer]" c m st as] Suc.prems assms
    show "holds_after (\<lambda>_ c'. c_in c' = c_in c) (\<lambda>e c'. length (c_in c') \<le> length (c_in c)) (\<lambda>_. True)
        (co_send [buffer] c)"
      by (cases st; cases "buffer = []") (auto simp: Let_def)
  next
    fix v :: size_t and c1 :: conn
    assume c1: "c_in c1 = c_in c"
    obtain m st as where mv: "stream_moves (c_answers c1) (length (c_in c1)) L = (m, st, as)" by (metis prod_cases3)
    note b = stream_moves_bounds [OF mv]
    from b(1) assms(3) have "unat (of_nat m :: size_t) = m" by (intro unat_of_nat_size) simp
    with co_recv_all [OF assms(2,3) _ _ mv, of 0 buffer] Suc.prems assms(4) b(2,4) c1
    show "holds_after ?R (\<lambda>e c'. length (c_in c') \<le> length (c_in c)) (\<lambda>_. True)
        (co_await (co_recv False 0 (length buffer) buffer) (\<lambda>(buffer, read_bytes).
         co_return (Some (buffer, unat read_bytes))) c1)"
      by (cases st) (auto simp: Let_def co_await_def)
  qed auto
  show ?case
    unfolding session_loop.simps
  proof (rule holds_await, rule round)
    fix r :: "(u8 list \<times> nat) option" and c1 :: conn
    assume r: "?R r c1"
    show "holds_after (?P c) (\<lambda>_ _. False) (\<lambda>_. True)
      ((case r of None \<Rightarrow> co_return tot | Some (b, n) \<Rightarrow> session_loop rounds b (tot + n)) c1)"
    proof (cases r)
      case None
      with r show ?thesis by (auto intro!: exI [of _ 0])
    next
      case (Some bn)
      then obtain b n where bn: "r = Some (b, n)" by (cases bn) auto
      with r have *: "length b = L" "n = L" "L \<le> length (c_in c)" "length (c_in c1) = length (c_in c) - L" by auto
      show ?thesis
        unfolding bn option.case prod.case
      proof (rule holds_mono [OF Suc.IH [OF *(1)]])
        fix t and c2 :: conn
        assume "\<exists>q \<le> rounds. t = tot + n + q * L \<and> q * L \<le> length (c_in c1) \<and> length (c_in c2) \<le> length (c_in c1) - q * L"
        then obtain q where "q \<le> rounds" "t = tot + n + q * L" "q * L \<le> length (c_in c1)"
            "length (c_in c2) \<le> length (c_in c1) - q * L" by blast
        with * show "?P c t c2" by (intro exI [of _ "Suc q"]) auto
      qed auto
    qed
  qed
qed

end
