(* ===== verification/Chargen.thy ===== *)
theory Chargen
  imports Coro_Awaitable Simple_Servers
begin

text \<open>
  The character generator (\<open>example/simple/chargen.cpp\<close>) with both of its halves on one connection: \<open>discard\<close>
  reads, \<open>writer\<close> writes, and \<open>chargen\<close> awaits them with \<open>when_all\<close> before it hangs up. An event is the
  completion of one awaited operation.
\<close>

datatype chargen_at = Cg_running | Cg_closing | Cg_done

text \<open>The tasks have index 0 (\<open>discard\<close>) and 1 (\<open>writer\<close>); \<open>cg_sent\<close> is what the connection has carried.\<close>

record chargen =
  cg_reading :: bool
  cg_writing :: bool
  cg_tasks :: "unit when_all_ready_awaitable"
  cg_sent :: "u8 list"
  cg_at :: chargen_at

definition chargen_handle :: nat where
  "chargen_handle = 1"

text \<open>Both halves suspend in their first operation.\<close>

definition chargen_start :: "chargen \<times> bool" where
  "chargen_start =
    (let (tasks, suspended) = wr_co_await chargen_handle [None, None]
           (when_all_ready_awaitable_new [when_all_task_promise_new, when_all_task_promise_new]) in
     (\<lparr> cg_reading = True, cg_writing = True, cg_tasks = tasks, cg_sent = [], cg_at = Cg_running \<rparr>, suspended))"

text \<open>
  Behind \<open>when_all\<close>: an exception of a half would end the coroutine; otherwise \<open>shutdown()\<close> succeeds and \<open>close()\<close>
  suspends, or it throws and the handler ends the coroutine.
\<close>

definition chargen_resume :: "bool \<Rightarrow> chargen \<Rightarrow> chargen checked" where
  "chargen_resume shut c =
    (case collect_results (wr_await_resume (cg_tasks c)) of
       Undefined \<Rightarrow> Undefined
     | Val (Inl e) \<Rightarrow> Val (c\<lparr>cg_at := Cg_done\<rparr>)
     | Val (Inr res) \<Rightarrow> Val (c\<lparr>cg_at := if shut then Cg_closing else Cg_done\<rparr>))"

text \<open>A half whose operation throws catches the exception and returns.\<close>

definition half_returns :: "bool \<Rightarrow> nat \<Rightarrow> chargen \<Rightarrow> chargen checked" where
  "half_returns shut i c =
    (let tasks = wr_complete i (Inr ()) (cg_tasks c); c' = c\<lparr>cg_tasks := tasks\<rparr> in
     if wr_resumed tasks = wr_resumed (cg_tasks c) then Val c' else chargen_resume shut c')"

text \<open>\<open>Cg_write_failed\<close> comes with the number of bytes the failed transfer had carried before.\<close>

datatype chargen_event = Cg_read | Cg_read_failed bool | Cg_wrote | Cg_write_failed nat bool | Cg_closed

fun cg_enabled :: "chargen_event \<Rightarrow> chargen \<Rightarrow> bool" where
  "cg_enabled Cg_read c = cg_reading c"
| "cg_enabled (Cg_read_failed shut) c = cg_reading c"
| "cg_enabled Cg_wrote c = cg_writing c"
| "cg_enabled (Cg_write_failed k shut) c = cg_writing c"
| "cg_enabled Cg_closed c = (cg_at c = Cg_closing)"

fun cg_handle :: "chargen_event \<Rightarrow> chargen \<Rightarrow> chargen checked" where
  "cg_handle Cg_read c = Val c"
| "cg_handle (Cg_read_failed shut) c = half_returns shut 0 (c\<lparr>cg_reading := False\<rparr>)"
| "cg_handle Cg_wrote c = Val (c\<lparr>cg_sent := cg_sent c @ chargen_buffer\<rparr>)"
| "cg_handle (Cg_write_failed k shut) c =
    half_returns shut 1 (c\<lparr>cg_writing := False, cg_sent := cg_sent c @ take k chargen_buffer\<rparr>)"
| "cg_handle Cg_closed c = Val (c\<lparr>cg_at := Cg_done\<rparr>)"

fun cg_run :: "chargen_event list \<Rightarrow> chargen \<Rightarrow> chargen checked option" where
  "cg_run [] c = Some (Val c)"
| "cg_run (e # es) c =
    (if \<not> cg_enabled e c then None
     else case cg_handle e c of Undefined \<Rightarrow> Some Undefined | Val c \<Rightarrow> cg_run es c)"

section \<open>Invariant\<close>

abbreviation half :: "bool \<Rightarrow> (cpp_exn + unit) option" where
  "half running \<equiv> if running then None else Some (Inr ())"

definition cg_tasks_follow :: "chargen \<Rightarrow> bool" where
  "cg_tasks_follow c \<longleftrightarrow> wr_inv (Some chargen_handle) (cg_tasks c) \<and>
    wr_tasks (cg_tasks c) = map promise_for [half (cg_reading c), half (cg_writing c)]"

definition lines_sent :: "bool \<Rightarrow> u8 list \<Rightarrow> bool" where
  "lines_sent whole bs \<longleftrightarrow> (\<exists>q k. bs = concat (replicate q chargen_buffer) @ take k chargen_buffer \<and> (whole \<longrightarrow> k = 0))"

definition cg_inv :: "chargen \<Rightarrow> bool" where
  "cg_inv c \<longleftrightarrow> cg_tasks_follow c \<and> lines_sent (cg_writing c) (cg_sent c) \<and>
    (cg_at c = Cg_running \<longleftrightarrow> cg_reading c \<or> cg_writing c)"

lemma lines_sent_more:
  "lines_sent True bs \<Longrightarrow> lines_sent True (bs @ chargen_buffer)" "lines_sent True bs \<Longrightarrow> lines_sent False (bs @ take k chargen_buffer)"
  "lines_sent True []"
proof -
  assume "lines_sent True bs"
  then obtain q where q: "bs = concat (replicate q chargen_buffer)" by (auto simp: lines_sent_def)
  show "lines_sent True (bs @ chargen_buffer)"
    unfolding lines_sent_def q by (intro exI [of _ "Suc q"] exI [of _ 0]) (simp add: concat_replicate_snoc del: replicate_Suc)
  show "lines_sent False (bs @ take k chargen_buffer)" unfolding lines_sent_def q by blast
qed (auto simp: lines_sent_def)

text \<open>One half returns: the other one goes on alone, or the connection is hung up.\<close>

lemma half_returns_inv:
  assumes "wr_inv (Some chargen_handle) (cg_tasks c)" and "wr_tasks (cg_tasks c) = map promise_for ts"
    and "i < 2" and "ts ! i = None" and "ts[i := Some (Inr ())] = [half (cg_reading c), half (cg_writing c)]"
    and "lines_sent (cg_writing c) (cg_sent c)" and "cg_at c = Cg_running"
  shows "\<exists>c'. half_returns shut i c = Val c' \<and> cg_inv c' \<and> cg_sent c' = cg_sent c \<and> cg_reading c' = cg_reading c \<and> cg_writing c' = cg_writing c"
proof -
  let ?tasks = "wr_complete i (Inr ()) (cg_tasks c)" and ?hs = "[half (cg_reading c), half (cg_writing c)]"
  from assms(5) have "length ts = 2" by (metis length_Cons length_list_update list.size(3) numeral_2_eq_2)
  with assms(3) have "i < length ts" by simp
  note k = wr_complete_known [OF assms(1,2) this assms(4), of "Inr ()", unfolded assms(5)]
  show ?thesis
  proof (cases "cg_reading c \<or> cg_writing c")
    case True
    with k assms(6,7) show ?thesis
      by (auto simp: half_returns_def Let_def cg_inv_def cg_tasks_follow_def)
  next
    case False
    then have "collect_results (wr_tasks ?tasks) = Val (Inr [(), ()])" using k(2) by simp
    with False k assms(6) show ?thesis
      by (auto simp: half_returns_def Let_def cg_inv_def cg_tasks_follow_def chargen_resume_def wr_await_resume_def)
  qed
qed

lemma cg_handle_inv:
  assumes "cg_inv c" and "cg_enabled e c"
  shows "\<exists>c'. cg_handle e c = Val c' \<and> cg_inv c'"
proof -
  have f: "wr_inv (Some chargen_handle) (cg_tasks c)" "wr_tasks (cg_tasks c) = map promise_for [half (cg_reading c), half (cg_writing c)]"
    and l: "lines_sent (cg_writing c) (cg_sent c)" and at: "cg_at c = Cg_running \<longleftrightarrow> cg_reading c \<or> cg_writing c"
    using assms(1) by (simp_all add: cg_inv_def cg_tasks_follow_def)
  show ?thesis
  proof (cases e)
    case (Cg_read_failed shut)
    with assms(2) l at half_returns_inv [of "c\<lparr>cg_reading := False\<rparr>" _ 0 shut, simplified, OF f]
    show ?thesis by auto
  next
    case (Cg_write_failed k shut)
    let ?c = "c\<lparr>cg_writing := False, cg_sent := cg_sent c @ take k chargen_buffer\<rparr>"
    from Cg_write_failed assms(2) l have "lines_sent False (cg_sent ?c)" by (simp add: lines_sent_more)
    with Cg_write_failed assms(2) at half_returns_inv [of ?c _ 1 shut, simplified, OF f] show ?thesis by auto
  next
    case Cg_wrote
    with assms l show ?thesis by (auto simp: cg_inv_def cg_tasks_follow_def lines_sent_more)
  next
    case Cg_closed
    with assms show ?thesis by (auto simp: cg_inv_def cg_tasks_follow_def)
  qed (use assms in simp)
qed

lemma cg_start_inv: "snd chargen_start \<and> cg_inv (fst chargen_start)"
proof -
  let ?ts = "[None, None] :: (cpp_exn + unit) option list"
  let ?new = "when_all_ready_awaitable_new (replicate (length ?ts) when_all_task_promise_new) :: unit when_all_ready_awaitable"
  obtain aw b where a: "wr_try_await chargen_handle ?ts ?new = (aw, b)" by fastforce
  have "length ?ts < 2 ^ 63" by simp
  note r = wr_try_await_registers [OF this a]
  have "wr_co_await chargen_handle ?ts ?new = (aw, b)"
    using a by (simp add: wr_co_await_def wr_is_ready_def counter_is_ready_def when_all_ready_awaitable_new_def when_all_counter_new_def)
  with r show ?thesis by (simp add: chargen_start_def cg_inv_def cg_tasks_follow_def lines_sent_more)
qed

lemma cg_run_inv: "cg_inv c \<Longrightarrow> cg_run es c = Some r \<Longrightarrow> \<exists>c'. r = Val c' \<and> cg_inv c'"
proof (induction es arbitrary: c)
  case (Cons e es)
  then have "cg_enabled e c" by (auto split: if_splits)
  with cg_handle_inv [OF Cons.prems(1) this] Cons show ?case by auto
qed auto

text \<open>
  The character generator serves until both directions have failed. In every order of events its
  coroutine uses no null handle and no missing result, the connection has carried copies of the
  pattern and at most one cut at the end, and it is hung up, or its coroutine has ended, if and only if the
  reading and the writing half have both failed: a client that closes its own direction goes on
  being served.
\<close>

theorem chargen_serves:
  assumes "cg_run es (fst chargen_start) = Some r"
  shows "\<exists>c q k. r = Val c \<and> cg_sent c = concat (replicate q chargen_buffer) @ take k chargen_buffer \<and>
    (cg_at c \<noteq> Cg_running \<longleftrightarrow> \<not> cg_reading c \<and> \<not> cg_writing c)"
  using cg_run_inv [OF _ assms] cg_start_inv by (fastforce simp: cg_inv_def lines_sent_def)

theorem chargen_serves_witness:
  "\<exists>c q k. cg_run [Cg_wrote, Cg_read_failed True, Cg_wrote, Cg_write_failed 5 True, Cg_closed] (fst chargen_start) = Some (Val c) \<and>
    cg_sent c = concat (replicate q chargen_buffer) @ take k chargen_buffer \<and> cg_at c = Cg_done"
proof -
  let ?es = "[Cg_wrote, Cg_read_failed True, Cg_wrote, Cg_write_failed 5 True, Cg_closed]"
  obtain c where c: "cg_run ?es (fst chargen_start) = Some (Val c)" "cg_at c = Cg_done"
    by (simp add: chargen_start_def half_returns_def chargen_resume_def wr_co_await_def wr_is_ready_def counter_is_ready_def
        when_all_ready_awaitable_new_def when_all_counter_new_def wr_try_await_def counter_try_await_def counter_arrive_def
        counter_register_def wr_complete_def wr_notify_def notify_awaitable_completed_def wr_await_resume_def Let_def numeral_2_eq_2)
  from chargen_serves [OF c(1)] c show ?thesis by blast
qed

end
