(* ===== verification/Pingpong_Client.thy ===== *)
theory Pingpong_Client
  imports Coro_Awaitable IO_Service
begin

text \<open>
  The ping-pong client (\<open>example/pingpong/pingpong_client.cpp\<close>) as a whole: its sessions, which run
  concurrently under \<open>when_all\<close>, the timer in an \<open>async_scope\<close> that stops them, and the coroutine
  \<open>run\<close> that awaits both. The coroutines interleave at their awaits; an event is the completion
  of one awaited operation. What one session does on its connection is in \<open>Simple_Servers\<close>.
\<close>

section \<open>State\<close>

datatype pp_at = P_connecting | P_sending | P_receiving | P_closing | P_done

text \<open>The total is a \<open>double\<close> in the code; it is exact below \<open>2\<^sup>53\<close> and a natural number here.\<close>

record pp_session =
  ps_at :: pp_at
  ps_total :: nat

datatype run_at = Run_awaiting | Run_joining | Run_done

text \<open>
  \<open>pp_source\<close> is the state of the stop source, \<open>pp_timer\<close> says that the timer is suspended in \<open>schedule\<close>, and
  \<open>pp_printed\<close> is the total that \<open>run\<close> prints.
\<close>

record pingpong_client =
  pp_source :: bool
  pp_scope :: async_scope
  pp_sessions :: "pp_session list"
  pp_tasks :: "nat when_all_ready_awaitable"
  pp_timer :: bool
  pp_run :: run_at
  pp_printed :: "nat option"
  pp_service :: io_service

definition run_handle :: nat where
  "run_handle = 1"

section \<open>The coroutine run\<close>

text \<open>From the end of \<open>join\<close>: \<open>spurious\<close> is the outcome of the weak compare-exchange in \<open>request_stop\<close>.\<close>

definition run_finish :: "bool \<Rightarrow> pingpong_client \<Rightarrow> pingpong_client" where
  "run_finish spurious w = w\<lparr>pp_run := Run_done, pp_service := fst (request_stop spurious (pp_service w))\<rparr>"

definition run_join :: "bool \<Rightarrow> pingpong_client \<Rightarrow> pingpong_client" where
  "run_join spurious w =
    (if join_await_ready (pp_scope w) then run_finish spurious w
     else
       (let (scope, suspended) = join_arrive (join_register run_handle (pp_scope w));
            w = w\<lparr>pp_scope := scope\<rparr> in
        if suspended then w\<lparr>pp_run := Run_joining\<rparr> else run_finish spurious w))"

text \<open>
  From the end of \<open>when_all\<close>. An exception here would leave \<open>run\<close> with a scope that is not joined, which
  the destructor of the scope rules out by an assertion.
\<close>

definition run_collect :: "bool \<Rightarrow> pingpong_client \<Rightarrow> pingpong_client checked" where
  "run_collect spurious w =
    (case collect_results (wr_await_resume (pp_tasks w)) of
       Val (Inr res) \<Rightarrow> Val (run_join spurious (w\<lparr>pp_printed := Some (sum_list res)\<rparr>))
     | _ \<Rightarrow> Undefined)"

text \<open>
  From the start of \<open>run\<close>: the timer is spawned and suspends, then \<open>when_all\<close> starts the sessions. A
  session whose \<open>init()\<close> fails has no socket to shut down and returns at once; the others suspend
  in \<open>connect\<close>.
\<close>

definition run_start :: "bool \<Rightarrow> bool list \<Rightarrow> io_service \<Rightarrow> pingpong_client checked" where
  "run_start spurious inits svc =
    (let scope = on_work_started async_scope_new;
         (tasks, suspended) = wr_co_await run_handle (map (\<lambda>ok. if ok then None else Some (Inr 0)) inits)
           (when_all_ready_awaitable_new (replicate (length inits) when_all_task_promise_new));
         w = \<lparr> pp_source = False, pp_scope = scope,
               pp_sessions = map (\<lambda>ok. \<lparr> ps_at = if ok then P_connecting else P_done, ps_total = 0 \<rparr>) inits,
               pp_tasks = tasks, pp_timer = True, pp_run = Run_awaiting, pp_printed = None, pp_service = svc \<rparr> in
     if suspended then Val w else run_collect spurious w)"

section \<open>Sessions and timer\<close>

definition set_at :: "nat \<Rightarrow> pp_at \<Rightarrow> pingpong_client \<Rightarrow> pingpong_client" where
  "set_at i p w = w\<lparr>pp_sessions := (pp_sessions w)[i := (pp_sessions w ! i)\<lparr>ps_at := p\<rparr>]\<rparr>"

text \<open>\<open>co_return total_bytes_read\<close>: the task of the session ends, and the last one resumes \<open>run\<close>.\<close>

definition session_return :: "bool \<Rightarrow> nat \<Rightarrow> pingpong_client \<Rightarrow> pingpong_client checked" where
  "session_return spurious i w =
    (let tasks = wr_complete i (Inr (ps_total (pp_sessions w ! i))) (pp_tasks w);
         w' = (set_at i P_done w)\<lparr>pp_tasks := tasks\<rparr> in
     if wr_resumed tasks = wr_resumed (pp_tasks w) then Val w' else run_collect spurious w')"

text \<open>
  Behind the loop: \<open>shutdown()\<close> either succeeds, and \<open>close()\<close> suspends, or throws, and the handler catches it.
\<close>

definition session_hang_up :: "bool \<Rightarrow> bool \<Rightarrow> nat \<Rightarrow> pingpong_client \<Rightarrow> pingpong_client checked" where
  "session_hang_up spurious shut i w =
    (if shut then Val (set_at i P_closing w) else session_return spurious i w)"

text \<open>The head of the loop, up to the next suspension.\<close>

definition session_head :: "bool \<Rightarrow> bool \<Rightarrow> nat \<Rightarrow> pingpong_client \<Rightarrow> pingpong_client checked" where
  "session_head spurious shut i w =
    (if \<not> pp_source w then Val (set_at i P_sending w) else session_hang_up spurious shut i w)"

definition count_read :: "nat \<Rightarrow> nat \<Rightarrow> pingpong_client \<Rightarrow> pingpong_client" where
  "count_read read_bytes i w =
    w\<lparr>pp_sessions := (pp_sessions w)[i := (pp_sessions w ! i)\<lparr>ps_total := ps_total (pp_sessions w ! i) + read_bytes\<rparr>]\<rparr>"

text \<open>
  The timer holds a reference to the stop source in the frame of \<open>run\<close>; when its work is finished the
  scope may resume \<open>run\<close>, through a handle that must not be null.
\<close>

definition timer_fires :: "bool \<Rightarrow> pingpong_client \<Rightarrow> pingpong_client checked" where
  "timer_fires spurious w =
    (if pp_run w = Run_done then Undefined
     else
       (let (scope, resumed) = on_work_finished (pp_scope w);
            w = w\<lparr>pp_source := True, pp_timer := False, pp_scope := scope\<rparr> in
        case resumed of
          None \<Rightarrow> Val w
        | Some None \<Rightarrow> Undefined
        | Some (Some h) \<Rightarrow> Val (run_finish spurious w)))"

section \<open>Events\<close>

text \<open>Where the loop may end the boolean is the outcome of \<open>shutdown()\<close>.\<close>

datatype pp_event =
    Pp_connected nat bool | Pp_sent nat | Pp_received nat bool | Pp_failed nat bool | Pp_closed nat | Pp_timer

definition session_is :: "pp_at set \<Rightarrow> nat \<Rightarrow> pingpong_client \<Rightarrow> bool" where
  "session_is ps i w \<longleftrightarrow> i < length (pp_sessions w) \<and> ps_at (pp_sessions w ! i) \<in> ps"

fun pp_enabled :: "pp_event \<Rightarrow> pingpong_client \<Rightarrow> bool" where
  "pp_enabled (Pp_connected i shut) w = session_is {P_connecting} i w"
| "pp_enabled (Pp_sent i) w = session_is {P_sending} i w"
| "pp_enabled (Pp_received i shut) w = session_is {P_receiving} i w"
| "pp_enabled (Pp_failed i shut) w = session_is {P_connecting, P_sending, P_receiving} i w"
| "pp_enabled (Pp_closed i) w = session_is {P_closing} i w"
| "pp_enabled Pp_timer w = pp_timer w"

fun pp_handle :: "bool \<Rightarrow> nat \<Rightarrow> pp_event \<Rightarrow> pingpong_client \<Rightarrow> pingpong_client checked" where
  "pp_handle spurious message_len (Pp_connected i shut) w = session_head spurious shut i w"
| "pp_handle spurious message_len (Pp_sent i) w = Val (set_at i P_receiving w)"
| "pp_handle spurious message_len (Pp_received i shut) w = session_head spurious shut i (count_read message_len i w)"
| "pp_handle spurious message_len (Pp_failed i shut) w = session_hang_up spurious shut i w"
| "pp_handle spurious message_len (Pp_closed i) w = session_return spurious i w"
| "pp_handle spurious message_len Pp_timer w = timer_fires spurious w"

text \<open>A sequence of events; None if one of them cannot happen.\<close>

fun pp_exec :: "bool \<Rightarrow> nat \<Rightarrow> pp_event list \<Rightarrow> pingpong_client \<Rightarrow> pingpong_client checked option" where
  "pp_exec spurious message_len [] w = Some (Val w)"
| "pp_exec spurious message_len (e # es) w =
    (if \<not> pp_enabled e w then None
     else case pp_handle spurious message_len e w of
       Undefined \<Rightarrow> Some Undefined
     | Val w \<Rightarrow> pp_exec spurious message_len es w)"

definition pp_program :: "bool \<Rightarrow> nat \<Rightarrow> bool list \<Rightarrow> io_service \<Rightarrow> pp_event list \<Rightarrow> pingpong_client checked option" where
  "pp_program spurious message_len inits svc es =
    (case run_start spurious inits svc of
       Undefined \<Rightarrow> Some Undefined
     | Val w \<Rightarrow> pp_exec spurious message_len es w)"

section \<open>Invariant\<close>

definition known :: "pp_session \<Rightarrow> (cpp_exn + nat) option" where
  "known s = (if ps_at s = P_done then Some (Inr (ps_total s)) else None)"

definition all_done :: "pingpong_client \<Rightarrow> bool" where
  "all_done w \<longleftrightarrow> list_all (\<lambda>s. ps_at s = P_done) (pp_sessions w)"

definition totals :: "pingpong_client \<Rightarrow> nat list" where
  "totals w = map ps_total (pp_sessions w)"

definition tasks_follow :: "pingpong_client \<Rightarrow> bool" where
  "tasks_follow w \<longleftrightarrow> wr_inv (Some run_handle) (pp_tasks w) \<and> wr_tasks (pp_tasks w) = map promise_for (map known (pp_sessions w))"

definition pp_inv :: "bool \<Rightarrow> pingpong_client \<Rightarrow> bool" where
  "pp_inv spurious w \<longleftrightarrow> tasks_follow w \<and> pp_source w = (\<not> pp_timer w) \<and>
    pp_printed w = (if all_done w then Some (sum_list (totals w)) else None) \<and>
    (case pp_run w of
       Run_awaiting \<Rightarrow> \<not> all_done w \<and> as_count (pp_scope w) = (if pp_timer w then 2 else 1)
     | Run_joining \<Rightarrow> all_done w \<and> pp_timer w \<and> pp_scope w = \<lparr> as_count = 1, as_continuation = Some run_handle \<rparr>
     | Run_done \<Rightarrow> all_done w \<and> \<not> pp_timer w \<and> (spurious \<or> ma_is_stop_requested (pp_service w)))"

lemma all_known: "all_done w \<longleftrightarrow> None \<notin> set (map known (pp_sessions w))"
  by (auto simp: all_done_def list_all_iff known_def image_iff)

lemma collect_done: "list_all (\<lambda>s. ps_at s = P_done) ss \<Longrightarrow> collect_results (map promise_for (map known ss)) = Val (Inr (map ps_total ss))"
  by (induction ss) (simp_all add: known_def)

lemma request_stop_sets: "spurious \<or> ma_is_stop_requested (fst (request_stop spurious svc))"
  by (simp add: request_stop_def)

text \<open>When every session is done, \<open>run\<close> prints the sum and joins the scope, which holds the timer.\<close>

lemma run_collect_inv:
  assumes "tasks_follow w" and "all_done w" and "pp_source w = (\<not> pp_timer w)"
    and "as_count (pp_scope w) = (if pp_timer w then 2 else 1)"
  obtains w' where "run_collect spurious w = Val w'" and "pp_inv spurious w'"
    and "pp_sessions w' = pp_sessions w" and "pp_timer w' = pp_timer w"
proof -
  have "collect_results (wr_await_resume (pp_tasks w)) = Val (Inr (totals w))"
    using assms(1,2) collect_done by (simp add: tasks_follow_def wr_await_resume_def totals_def all_done_def)
  then have r: "run_collect spurious w = Val (run_join spurious (w\<lparr>pp_printed := Some (sum_list (totals w))\<rparr>))"
    by (simp add: run_collect_def)
  let ?w = "run_join spurious (w\<lparr>pp_printed := Some (sum_list (totals w))\<rparr>)"
  have "pp_inv spurious ?w \<and> pp_sessions ?w = pp_sessions w \<and> pp_timer ?w = pp_timer w"
    using assms request_stop_sets [of spurious "pp_service w"]
    by (auto simp: pp_inv_def run_join_def run_finish_def join_await_ready_def join_arrive_def join_register_def
        tasks_follow_def all_done_def totals_def Let_def)
  with r show thesis by (intro that [of ?w]) auto
qed

lemma set_at_simps [simp]:
  "pp_source (set_at i p w) = pp_source w" "pp_scope (set_at i p w) = pp_scope w" "pp_tasks (set_at i p w) = pp_tasks w"
  "pp_timer (set_at i p w) = pp_timer w" "pp_run (set_at i p w) = pp_run w" "pp_printed (set_at i p w) = pp_printed w"
  "pp_service (set_at i p w) = pp_service w"
  "pp_sessions (set_at i p w) = (pp_sessions w)[i := (pp_sessions w ! i)\<lparr>ps_at := p\<rparr>]"
  by (simp_all add: set_at_def)

lemma known_update:
  "i < length ss \<Longrightarrow> known (ss ! i) = None \<Longrightarrow> ps_at s \<noteq> P_done \<Longrightarrow> map known (ss[i := s]) = map known ss"
  by (simp add: map_update known_def list_update_same_conv)

text \<open>A session that goes on changes nothing that others see.\<close>

lemma update_inv:
  assumes "pp_inv spurious w" and "i < length (pp_sessions w)" and "ps_at (pp_sessions w ! i) \<noteq> P_done" and "ps_at s \<noteq> P_done"
  shows "pp_inv spurious (w\<lparr>pp_sessions := (pp_sessions w)[i := s]\<rparr>)"
proof -
  let ?w = "w\<lparr>pp_sessions := (pp_sessions w)[i := s]\<rparr>"
  have m: "map known (pp_sessions ?w) = map known (pp_sessions w)"
    using assms(2-4) by (simp add: known_update known_def)
  then have "all_done ?w = all_done w" unfolding all_known by simp
  moreover have "\<not> all_done w" using assms(2,3) by (auto simp: all_done_def list_all_length)
  ultimately show ?thesis using assms(1) m by (cases "pp_run w") (simp_all add: pp_inv_def tasks_follow_def)
qed

lemma session_return_inv:
  assumes "pp_inv spurious w" and "i < length (pp_sessions w)" and "ps_at (pp_sessions w ! i) \<noteq> P_done"
  obtains w' where "session_return spurious i w = Val w'" and "pp_inv spurious w'"
    and "pp_sessions w' = (pp_sessions w)[i := (pp_sessions w ! i)\<lparr>ps_at := P_done\<rparr>]" and "pp_timer w' = pp_timer w"
proof -
  define t where "t = ps_total (pp_sessions w ! i)"
  define tasks where "tasks = wr_complete i (Inr t) (pp_tasks w)"
  define w' where "w' = (set_at i P_done w)\<lparr>pp_tasks := tasks\<rparr>"
  have nd: "\<not> all_done w" using assms(2,3) by (auto simp: all_done_def list_all_length)
  with assms(1) have run: "pp_run w = Run_awaiting" by (auto simp: pp_inv_def split: run_at.splits)
  have f: "wr_inv (Some run_handle) (pp_tasks w)" "wr_tasks (pp_tasks w) = map promise_for (map known (pp_sessions w))"
    using assms(1) by (simp_all add: pp_inv_def tasks_follow_def)
  have i: "i < length (map known (pp_sessions w))" "map known (pp_sessions w) ! i = None" using assms(2,3) by (simp_all add: known_def)
  have k: "(map known (pp_sessions w))[i := Some (Inr t)] = map known (pp_sessions w')"
    by (simp add: w'_def map_update known_def t_def)
  note c = wr_complete_known [OF f i, of "Inr t", folded tasks_def, unfolded k]
  have tf: "tasks_follow w'" using c by (simp add: tasks_follow_def w'_def)
  have r: "wr_resumed tasks = wr_resumed (pp_tasks w) \<longleftrightarrow> \<not> all_done w'" using c(3) by (simp add: all_known)
  have e: "session_return spurious i w = (if \<not> all_done w' then Val w' else run_collect spurious w')"
    using r by (simp add: session_return_def Let_def tasks_def w'_def t_def)
  have same: "pp_source w' = (\<not> pp_timer w')" "as_count (pp_scope w') = (if pp_timer w' then 2 else 1)" "pp_timer w' = pp_timer w"
    "pp_run w' = Run_awaiting" "pp_printed w' = None"
    "pp_sessions w' = (pp_sessions w)[i := (pp_sessions w ! i)\<lparr>ps_at := P_done\<rparr>]"
    using assms(1) run nd by (simp_all add: pp_inv_def w'_def)
  show thesis
  proof (cases "all_done w'")
    case True
    from run_collect_inv [OF tf True same(1,2)] obtain w'' where "run_collect spurious w' = Val w''" "pp_inv spurious w''"
      "pp_sessions w'' = pp_sessions w'" "pp_timer w'' = pp_timer w'" by blast
    with e True same show thesis by (intro that [of w'']) simp_all
  next
    case False
    with e tf same show thesis by (intro that [of w']) (simp_all add: pp_inv_def)
  qed
qed

section \<open>Every event\<close>

text \<open>What an event does to a session, and how many completions it needs once the stop is requested.\<close>

fun remaining :: "pp_at \<Rightarrow> nat" where
  "remaining P_connecting = 2" | "remaining P_sending = 3" | "remaining P_receiving = 2" | "remaining P_closing = 1" | "remaining P_done = 0"

definition pp_remaining :: "pingpong_client \<Rightarrow> nat" where
  "pp_remaining w = sum_list (map (\<lambda>s. remaining (ps_at s)) (pp_sessions w))"

fun about :: "nat \<Rightarrow> pp_event \<Rightarrow> bool" where
  "about i (Pp_received j shut) = (i = j)"
| "about i e = False"

definition received :: "nat \<Rightarrow> pp_event list \<Rightarrow> nat" where
  "received i es = length (filter (about i) es)"

lemma received_simps [simp]: "received i [] = 0" "received i (e # es) = (if about i e then 1 else 0) + received i es"
  by (simp_all add: received_def)

text \<open>\<open>moves_on e w w'\<close>: one session, if any, has moved, and it alone may have counted a message.\<close>

definition moves_on :: "nat \<Rightarrow> pp_event \<Rightarrow> pingpong_client \<Rightarrow> pingpong_client \<Rightarrow> bool" where
  "moves_on L e w w' \<longleftrightarrow> length (pp_sessions w') = length (pp_sessions w) \<and>
    list_all (\<lambda>i. ps_total (pp_sessions w' ! i) = ps_total (pp_sessions w ! i) + (if about i e then L else 0)) [0..<length (pp_sessions w)] \<and>
    pp_timer w' = (pp_timer w \<and> e \<noteq> Pp_timer) \<and> (\<not> pp_timer w \<longrightarrow> pp_remaining w' < pp_remaining w)"

lemma moves_onI:
  assumes "i < length (pp_sessions w)" and "pp_sessions w' = (pp_sessions w)[i := s]"
    and "ps_total s = ps_total (pp_sessions w ! i) + (if about i e then L else 0)" and "\<And>j. about j e \<Longrightarrow> j = i"
    and "pp_timer w' = pp_timer w" and "e \<noteq> Pp_timer" and "\<not> pp_timer w \<Longrightarrow> remaining (ps_at s) < remaining (ps_at (pp_sessions w ! i))"
  shows "moves_on L e w w'"
proof -
  have "pp_remaining w' < pp_remaining w" if "\<not> pp_timer w"
  proof -
    let ?f = "\<lambda>s. remaining (ps_at s)" and ?ss = "pp_sessions w"
    have "sum_list (map ?f ?ss) = sum_list (map ?f (take i ?ss)) + ?f (?ss ! i) + sum_list (map ?f (drop (Suc i) ?ss))"
      using assms(1) by (subst id_take_nth_drop [of i ?ss]) simp_all
    moreover have "sum_list (map ?f (?ss[i := s])) = sum_list (map ?f (take i ?ss)) + ?f s + sum_list (map ?f (drop (Suc i) ?ss))"
      using assms(1) by (simp add: upd_conv_take_nth_drop)
    ultimately show ?thesis using assms(2,7) that by (simp add: pp_remaining_def)
  qed
  moreover have "\<not> about j e" if "j \<noteq> i" for j using assms(4) that by blast
  ultimately show ?thesis using assms(1-3,5,6) by (auto simp: moves_on_def list_all_iff nth_list_update)
qed

lemma session_hang_up_inv:
  assumes "pp_inv spurious w" and "i < length (pp_sessions w)" and "ps_at (pp_sessions w ! i) \<notin> {P_closing, P_done}"
  obtains w' s where "session_hang_up spurious shut i w = Val w'" and "pp_inv spurious w'" and "pp_timer w' = pp_timer w"
    and "pp_sessions w' = (pp_sessions w)[i := s]" and "ps_total s = ps_total (pp_sessions w ! i)" and "remaining (ps_at s) \<le> 1"
proof (cases shut)
  case True
  with update_inv [OF assms(1,2), of "(pp_sessions w ! i)\<lparr>ps_at := P_closing\<rparr>"] assms(3) show thesis
    by (intro that [of "set_at i P_closing w" "(pp_sessions w ! i)\<lparr>ps_at := P_closing\<rparr>"]) (simp_all add: session_hang_up_def set_at_def)
next
  case False
  from assms(3) have "ps_at (pp_sessions w ! i) \<noteq> P_done" by simp
  from session_return_inv [OF assms(1,2) this] obtain w' where "session_return spurious i w = Val w'" "pp_inv spurious w'"
    "pp_sessions w' = (pp_sessions w)[i := (pp_sessions w ! i)\<lparr>ps_at := P_done\<rparr>]" "pp_timer w' = pp_timer w" by blast
  with False show thesis
    by (intro that [of w' "(pp_sessions w ! i)\<lparr>ps_at := P_done\<rparr>"]) (simp_all add: session_hang_up_def)
qed

lemma session_head_inv:
  assumes "pp_inv spurious w" and "i < length (pp_sessions w)" and "ps_at (pp_sessions w ! i) \<notin> {P_closing, P_done}"
  obtains w' s where "session_head spurious shut i w = Val w'" and "pp_inv spurious w'" and "pp_timer w' = pp_timer w"
    and "pp_sessions w' = (pp_sessions w)[i := s]" and "ps_total s = ps_total (pp_sessions w ! i)"
    and "\<not> pp_timer w \<Longrightarrow> remaining (ps_at s) \<le> 1"
proof (cases "pp_timer w")
  case True
  with assms(1) have "\<not> pp_source w" by (simp add: pp_inv_def)
  with update_inv [OF assms(1,2), of "(pp_sessions w ! i)\<lparr>ps_at := P_sending\<rparr>"] assms(3) True show thesis
    by (intro that [of "set_at i P_sending w" "(pp_sessions w ! i)\<lparr>ps_at := P_sending\<rparr>"]) (simp_all add: session_head_def set_at_def)
next
  case False
  with assms(1) have "pp_source w" by (simp add: pp_inv_def)
  with session_hang_up_inv [OF assms] that show thesis by (metis session_head_def)
qed

lemma timer_fires_inv:
  assumes "pp_inv spurious w" and "pp_timer w"
  obtains w' where "timer_fires spurious w = Val w'" and "pp_inv spurious w'" and "pp_sessions w' = pp_sessions w" and "\<not> pp_timer w'"
proof (cases "pp_run w")
  case Run_awaiting
  with assms show thesis
    by (intro that [of "w\<lparr>pp_source := True, pp_timer := False, pp_scope := fst (on_work_finished (pp_scope w))\<rparr>"])
      (simp_all add: timer_fires_def on_work_finished_def pp_inv_def tasks_follow_def all_done_def totals_def Let_def)
next
  case Run_joining
  with assms request_stop_sets [of spurious "pp_service w"] show thesis
    by (intro that [of "run_finish spurious (w\<lparr>pp_source := True, pp_timer := False, pp_scope := fst (on_work_finished (pp_scope w))\<rparr>)"])
      (simp_all add: timer_fires_def on_work_finished_def pp_inv_def tasks_follow_def all_done_def totals_def run_finish_def Let_def)
qed (use assms in \<open>simp add: pp_inv_def\<close>)

lemma pp_handle_inv:
  assumes "pp_inv spurious w" and "pp_enabled e w"
  shows "\<exists>w'. pp_handle spurious L e w = Val w' \<and> pp_inv spurious w' \<and> moves_on L e w w'"
proof (cases e)
  case (Pp_connected i shut)
  with assms(2) have i: "i < length (pp_sessions w)" "ps_at (pp_sessions w ! i) = P_connecting" by (simp_all add: session_is_def)
  then have "ps_at (pp_sessions w ! i) \<notin> {P_closing, P_done}" by simp
  from session_head_inv [OF assms(1) i(1) this] obtain w' s where h: "session_head spurious shut i w = Val w'" "pp_inv spurious w'"
    "pp_timer w' = pp_timer w" "pp_sessions w' = (pp_sessions w)[i := s]" "ps_total s = ps_total (pp_sessions w ! i)"
    "\<not> pp_timer w \<Longrightarrow> remaining (ps_at s) \<le> 1" by metis
  have "moves_on L e w w'" by (rule moves_onI [OF i(1) h(4)]) (use h i Pp_connected in \<open>auto\<close>)
  with h Pp_connected show ?thesis by simp
next
  case (Pp_sent i)
  with assms(2) have i: "i < length (pp_sessions w)" "ps_at (pp_sessions w ! i) = P_sending" by (simp_all add: session_is_def)
  let ?s = "(pp_sessions w ! i)\<lparr>ps_at := P_receiving\<rparr>"
  have "moves_on L e w (set_at i P_receiving w)" by (rule moves_onI [OF i(1), of _ ?s]) (use i Pp_sent in \<open>auto\<close>)
  with update_inv [OF assms(1) i(1), of ?s] i Pp_sent show ?thesis by (simp add: set_at_def)
next
  case (Pp_received i shut)
  with assms(2) have i: "i < length (pp_sessions w)" "ps_at (pp_sessions w ! i) = P_receiving" by (simp_all add: session_is_def)
  let ?w = "count_read L i w"
  have c: "pp_inv spurious ?w" "i < length (pp_sessions ?w)" "ps_at (pp_sessions ?w ! i) \<notin> {P_closing, P_done}"
    using update_inv [OF assms(1) i(1), of "(pp_sessions w ! i)\<lparr>ps_total := ps_total (pp_sessions w ! i) + L\<rparr>"] i
    by (simp_all add: count_read_def)
  from session_head_inv [OF c] obtain w' s where h: "session_head spurious shut i ?w = Val w'" "pp_inv spurious w'"
    "pp_timer w' = pp_timer ?w" "pp_sessions w' = (pp_sessions ?w)[i := s]" "ps_total s = ps_total (pp_sessions ?w ! i)"
    "\<not> pp_timer ?w \<Longrightarrow> remaining (ps_at s) \<le> 1" by metis
  have "moves_on L e w w'"
    by (rule moves_onI [OF i(1), of _ s]) (use h i Pp_received in \<open>auto simp: count_read_def\<close>)
  with h Pp_received show ?thesis by simp
next
  case (Pp_failed i shut)
  with assms(2) have i: "i < length (pp_sessions w)" "ps_at (pp_sessions w ! i) \<notin> {P_closing, P_done}"
    "2 \<le> remaining (ps_at (pp_sessions w ! i))" by (auto simp: session_is_def)
  from session_hang_up_inv [OF assms(1) i(1,2)] obtain w' s where h: "session_hang_up spurious shut i w = Val w'" "pp_inv spurious w'"
    "pp_timer w' = pp_timer w" "pp_sessions w' = (pp_sessions w)[i := s]" "ps_total s = ps_total (pp_sessions w ! i)"
    "remaining (ps_at s) \<le> 1" by metis
  have "moves_on L e w w'" by (rule moves_onI [OF i(1) h(4)]) (use h i Pp_failed in \<open>auto\<close>)
  with h Pp_failed show ?thesis by simp
next
  case (Pp_closed i)
  with assms(2) have i: "i < length (pp_sessions w)" "ps_at (pp_sessions w ! i) = P_closing" by (simp_all add: session_is_def)
  then have "ps_at (pp_sessions w ! i) \<noteq> P_done" by simp
  from session_return_inv [OF assms(1) i(1) this] obtain w' where h: "session_return spurious i w = Val w'" "pp_inv spurious w'"
    "pp_sessions w' = (pp_sessions w)[i := (pp_sessions w ! i)\<lparr>ps_at := P_done\<rparr>]" "pp_timer w' = pp_timer w" by blast
  have "moves_on L e w w'" by (rule moves_onI [OF i(1) h(3)]) (use h i Pp_closed in \<open>auto\<close>)
  with h Pp_closed show ?thesis by simp
next
  case Pp_timer
  with assms timer_fires_inv [OF assms(1)] obtain w' where "timer_fires spurious w = Val w'" "pp_inv spurious w'"
    "pp_sessions w' = pp_sessions w" "\<not> pp_timer w'" by auto
  with assms(2) Pp_timer show ?thesis by (auto simp: moves_on_def list_all_iff)
qed

section \<open>Whole runs\<close>

lemma run_start_inv:
  assumes "length inits < 2 ^ 63"
  obtains w where "run_start spurious inits svc = Val w" and "pp_inv spurious w" and "pp_timer w"
    and "length (pp_sessions w) = length inits" and "list_all (\<lambda>s. ps_total s = 0) (pp_sessions w)"
proof -
  let ?ts = "map (\<lambda>ok. if ok then None else Some (Inr 0)) inits :: (cpp_exn + nat) option list"
  let ?new = "when_all_ready_awaitable_new (replicate (length ?ts) when_all_task_promise_new) :: nat when_all_ready_awaitable"
  obtain tasks suspended where a: "wr_try_await run_handle ?ts ?new = (tasks, suspended)" by fastforce
  have l: "length ?ts < 2 ^ 63" using assms by simp
  note r = wr_try_await_registers [OF l a]
  have co: "wr_co_await run_handle ?ts ?new = (tasks, suspended)"
    using a by (simp add: wr_co_await_def wr_is_ready_def counter_is_ready_def when_all_ready_awaitable_new_def when_all_counter_new_def)
  define w where "w = \<lparr> pp_source = False, pp_scope = on_work_started async_scope_new,
    pp_sessions = map (\<lambda>ok. \<lparr> ps_at = if ok then P_connecting else P_done, ps_total = 0 \<rparr>) inits,
    pp_tasks = tasks, pp_timer = True, pp_run = Run_awaiting, pp_printed = None, pp_service = svc \<rparr>"
  have "map known (pp_sessions w) = ?ts" by (simp add: w_def known_def)
  with r have f: "tasks_follow w" "suspended = (\<not> all_done w)" unfolding all_known by (simp_all add: tasks_follow_def w_def)
  have e: "run_start spurious inits svc = (if suspended then Val w else run_collect spurious w)"
    using co by (simp add: run_start_def Let_def w_def)
  have w: "pp_source w = (\<not> pp_timer w)" "as_count (pp_scope w) = (if pp_timer w then 2 else 1)" "pp_timer w"
    "length (pp_sessions w) = length inits" "list_all (\<lambda>s. ps_total s = 0) (pp_sessions w)"
    by (simp_all add: w_def on_work_started_def async_scope_new_def list_all_iff)
  show thesis
  proof (cases suspended)
    case True
    with e f w show thesis by (intro that [of w]) (simp_all add: pp_inv_def w_def)
  next
    case False
    with f(2) have "all_done w" by simp
    from run_collect_inv [OF f(1) this w(1,2)] obtain w' where "run_collect spurious w = Val w'" "pp_inv spurious w'"
      "pp_sessions w' = pp_sessions w" "pp_timer w' = pp_timer w" by blast
    with e False w show thesis by (intro that [of w']) simp_all
  qed
qed

lemma pp_exec_inv:
  assumes "pp_inv spurious w" and "pp_exec spurious L es w = Some r"
  shows "\<exists>w'. r = Val w' \<and> pp_inv spurious w' \<and> length (pp_sessions w') = length (pp_sessions w) \<and>
    list_all (\<lambda>i. ps_total (pp_sessions w' ! i) = ps_total (pp_sessions w ! i) + L * received i es) [0..<length (pp_sessions w)] \<and>
    pp_timer w' = (pp_timer w \<and> Pp_timer \<notin> set es) \<and> (\<not> pp_timer w \<longrightarrow> pp_remaining w' + length es \<le> pp_remaining w)"
  using assms
proof (induction es arbitrary: w)
  case (Cons e es)
  from Cons.prems(2) have en: "pp_enabled e w" by (auto split: if_splits)
  from pp_handle_inv [OF Cons.prems(1) en] obtain w1 where w1: "pp_handle spurious L e w = Val w1" "pp_inv spurious w1" "moves_on L e w w1" by blast
  with Cons.prems(2) en have "pp_exec spurious L es w1 = Some r" by simp
  from Cons.IH [OF w1(2) this] w1(3) show ?case
    by (auto simp: moves_on_def list_all_iff algebra_simps)
qed (auto simp: list_all_iff)

lemma pp_program_inv:
  assumes "length inits < 2 ^ 63" and "pp_program spurious L inits svc es = Some r"
  shows "\<exists>w. r = Val w \<and> pp_inv spurious w \<and> length (pp_sessions w) = length inits \<and>
    list_all (\<lambda>i. ps_total (pp_sessions w ! i) = L * received i es) [0..<length inits] \<and> (pp_timer w \<longleftrightarrow> Pp_timer \<notin> set es)"
proof -
  from run_start_inv [OF assms(1), of spurious svc] obtain w0 where w0: "run_start spurious inits svc = Val w0" "pp_inv spurious w0"
    "pp_timer w0" "length (pp_sessions w0) = length inits" "list_all (\<lambda>s. ps_total s = 0) (pp_sessions w0)" by blast
  then have "pp_exec spurious L es w0 = Some r" using assms(2) by (simp add: pp_program_def)
  from pp_exec_inv [OF w0(2) this] w0 show ?thesis by (auto simp: list_all_iff)
qed

text \<open>
  C21: The ping-pong client reports what its sessions read. Whatever the order of completions and failures
  of any number of sessions and of the timer, no dead frame and no null handle is used; \<open>run\<close>
  prints a total exactly when every session has returned, which is the message length times
  the number of messages received by all sessions; and \<open>run\<close> ends, having requested the stop of the
  service, exactly when in addition the timer has fired.
\<close>

theorem pingpong_client_reports:
  assumes "length inits < 2 ^ 63" and "pp_program spurious L inits svc es = Some r"
  shows "\<exists>w. r = Val w \<and>
    pp_printed w = (if all_done w then Some (L * (\<Sum>i < length inits. received i es)) else None) \<and>
    (pp_run w = Run_done \<longleftrightarrow> all_done w \<and> Pp_timer \<in> set es) \<and>
    (pp_run w = Run_done \<longrightarrow> spurious \<or> ma_is_stop_requested (pp_service w))"
proof -
  from pp_program_inv [OF assms] obtain w where w: "r = Val w" "pp_inv spurious w" "length (pp_sessions w) = length inits"
    "list_all (\<lambda>i. ps_total (pp_sessions w ! i) = L * received i es) [0..<length inits]" "pp_timer w \<longleftrightarrow> Pp_timer \<notin> set es" by blast
  have "totals w = map (\<lambda>i. L * received i es) [0..<length inits]"
    using w(3,4) by (intro nth_equalityI) (simp_all add: totals_def list_all_iff)
  then have "sum_list (totals w) = L * (\<Sum>i < length inits. received i es)"
    by (simp add: interv_sum_list_conv_sum_set_nat sum_distrib_left lessThan_atLeast0)
  with w(1,2,5) show ?thesis by (cases "pp_run w") (auto simp: pp_inv_def)
qed

text \<open>
  C22: The ping-pong client ends. Once the timer has fired every session needs at most three further
  completions, of whatever kind, so that no run of the client is longer; as long as \<open>run\<close> has
  not ended some session waits for one; and when none does, \<open>run\<close> has ended.
\<close>

theorem pingpong_client_ends:
  assumes "length inits < 2 ^ 63" and "pp_program spurious L inits svc es = Some (Val w)" and "Pp_timer \<in> set es"
    and "pp_exec spurious L es' w = Some r"
  shows "length es' \<le> 3 * length inits \<and>
    (\<exists>w'. r = Val w' \<and> (pp_run w' = Run_done \<longleftrightarrow> \<not> (\<exists>e. pp_enabled e w')))"
proof -
  from pp_program_inv [OF assms(1,2)] assms(3) have w: "pp_inv spurious w" "length (pp_sessions w) = length inits" "\<not> pp_timer w" by auto
  from pp_exec_inv [OF w(1) assms(4)] w(3) obtain w' where w': "r = Val w'" "pp_inv spurious w'" "\<not> pp_timer w'"
    "pp_remaining w' + length es' \<le> pp_remaining w" by auto
  have "remaining p \<le> 3" for p by (cases p) simp_all
  then have "pp_remaining w \<le> sum_list (map (\<lambda>_. 3) (pp_sessions w))" unfolding pp_remaining_def by (intro sum_list_mono)
  then have len: "length es' \<le> 3 * length inits" using w'(4) w(2) by (simp add: sum_list_triv)
  have done_iff: "pp_run w' = Run_done \<longleftrightarrow> all_done w'" using w'(2,3) by (cases "pp_run w'") (auto simp: pp_inv_def)
  have "\<exists>e. pp_enabled e w'" if "\<not> all_done w'"
  proof -
    from that obtain i where i: "i < length (pp_sessions w')" "ps_at (pp_sessions w' ! i) \<noteq> P_done" by (auto simp: all_done_def list_all_length)
    then have "pp_enabled (Pp_failed i True) w' \<or> pp_enabled (Pp_closed i) w'"
      by (cases "ps_at (pp_sessions w' ! i)") (simp_all add: session_is_def)
    then show ?thesis by blast
  qed
  moreover have "\<not> pp_enabled e w'" if "all_done w'" for e
    using that w'(3) by (cases e) (auto simp: session_is_def all_done_def list_all_length)
  ultimately show ?thesis using len w'(1) done_iff by blast
qed

lemmas pp_eval = pp_program_def run_start_def run_collect_def run_join_def run_finish_def session_head_def session_hang_up_def
  session_return_def timer_fires_def count_read_def session_is_def set_at_def all_done_def

lemmas aw_eval = wr_co_await_def wr_is_ready_def counter_is_ready_def when_all_ready_awaitable_new_def when_all_counter_new_def
  wr_try_await_def counter_try_await_def counter_arrive_def counter_register_def wr_complete_def wr_notify_def
  notify_awaitable_completed_def wr_await_resume_def on_work_started_def async_scope_new_def on_work_finished_def
  join_await_ready_def join_arrive_def join_register_def request_stop_def

definition sample_events :: "pp_event list" where
  "sample_events = [Pp_connected 0 True, Pp_sent 0, Pp_received 0 True, Pp_sent 0, Pp_timer, Pp_received 0 True, Pp_closed 0]"

lemma sample_run:
  "\<exists>w. pp_program False 64 [True, False] svc sample_events = Some (Val w) \<and> all_done w"
  by (simp add: sample_events_def pp_eval aw_eval Let_def numeral_2_eq_2)

theorem pingpong_client_reports_witness:
  "\<exists>w. pp_program False 64 [True, False] (fst (io_service_new 64 7 None)) sample_events = Some (Val w) \<and>
    pp_printed w = Some 128 \<and> pp_run w = Run_done \<and> ma_is_stop_requested (pp_service w)"
proof -
  obtain w where w: "pp_program False 64 [True, False] (fst (io_service_new 64 7 None)) sample_events = Some (Val w)" "all_done w"
    using sample_run by blast
  have l: "length [True, False] < 2 ^ 63" by simp
  have "received 0 sample_events = 2" "received 1 sample_events = 0" "Pp_timer \<in> set sample_events" by (simp_all add: sample_events_def)
  then have sum: "(\<Sum>i < length [True, False]. received i sample_events) = 2" by (simp add: numeral_2_eq_2)
  from pingpong_client_reports [OF l w(1), unfolded sum] w \<open>Pp_timer \<in> set sample_events\<close> show ?thesis by auto
qed

theorem pingpong_client_ends_witness:
  "\<exists>w w'. pp_program False 64 [True] (fst (io_service_new 64 7 None)) [Pp_connected 0 True, Pp_timer] = Some (Val w) \<and>
    pp_exec False 64 [Pp_sent 0, Pp_received 0 True, Pp_closed 0] w = Some (Val w') \<and> pp_run w' = Run_done \<and> \<not> (\<exists>e. pp_enabled e w')"
proof -
  let ?es = "[Pp_connected 0 True, Pp_timer]" and ?es' = "[Pp_sent 0, Pp_received 0 True, Pp_closed 0]"
  obtain w where w: "pp_program False 64 [True] (fst (io_service_new 64 7 None)) ?es = Some (Val w)"
    by (simp add: pp_eval aw_eval Let_def)
  moreover from this have "\<exists>w'. pp_exec False 64 ?es' w = Some (Val w') \<and> pp_run w' = Run_done"
    by (auto simp: pp_eval aw_eval Let_def)
  then obtain w' where w': "pp_exec False 64 ?es' w = Some (Val w')" "pp_run w' = Run_done" by blast
  moreover have "\<not> (\<exists>e. pp_enabled e w')"
    using pingpong_client_ends [OF _ w _ w'(1)] w'(2) by simp
  ultimately show ?thesis by blast
qed

end
