(* ===== verification/WS_Service.thy ===== *)
theory WS_Service
  imports Connection WS_Frame WS_Handshake
begin

text \<open>
  The WebSocket services of \<open>example/include/common/websocket.h\<close>, \<open>example/websocket/websocket_echo.cpp\<close>
  and \<open>example/websocket/websocket_discard.cpp\<close>: the opening handshake, the reception of a frame
  and the reaction to close, fragmented, unmasked and oversized frames, as coroutines over a
  connection that use the parsers and builders of the library.
\<close>

section \<open>The coroutines\<close>

definition MAX_HTTP_REQUEST_SIZE :: nat where "MAX_HTTP_REQUEST_SIZE = 1024"
definition MAX_WEBSOCKET_FRAME_SIZE :: nat where "MAX_WEBSOCKET_FRAME_SIZE = 1024"
definition MAX_WEBSOCKET_APP_DATA_LEN :: size_t where "MAX_WEBSOCKET_APP_DATA_LEN = 1000"

definition websocket_close_exception :: cpp_exn where "websocket_close_exception = User_exn 1"
definition http_bad_request_exception :: cpp_exn where "http_bad_request_exception = User_exn 2"

text \<open>
  The handshake. The state of its loop is the array, the handler, the bytes received so far and
  whether the response was sent, which leaves the loop. The variable \<open>ret\<close> tested behind the
  loop is the outer one, 0; the results of \<open>parse\<close> go to another variable of that name inside.
  The parser is given the bytes received; what it can read behind them is the rest of the array.
\<close>

definition handshake_round ::
  "bool \<Rightarrow> (u8 list \<Rightarrow> u8 list) \<Rightarrow> u8 list \<times> websocket_request_handler \<times> nat \<times> bool
    \<Rightarrow> (u8 list \<times> websocket_request_handler \<times> nat \<times> bool) co" where
  "handshake_round sse SHA1 = (\<lambda>(buf, parser, recv_bytes, responded).
    co_await (co_recv True recv_bytes (length buf - recv_bytes) buf) (\<lambda>(buf, n).
    let recv_bytes = recv_bytes + unat n in
    case handler_parse_mem sse (drop recv_bytes buf) (take recv_bytes buf) parser of
      Undefined \<Rightarrow> (\<lambda>c. Undefined_behaviour)
    | Val (parser, ret) \<Rightarrow>
        if ret = -1 then co_return (buf, parser, recv_bytes, False)
        else
          (let (parser, response) = generate_response SHA1 (take recv_bytes buf) parser in
           co_await (co_send [response]) (\<lambda>_. co_return (buf, parser, recv_bytes, True)))))"

definition websocket_handshake :: "bool \<Rightarrow> (u8 list \<Rightarrow> u8 list) \<Rightarrow> unit co" where
  "websocket_handshake sse SHA1 =
    (let ret = (0 :: int) in
     co_await
       (while_co (\<lambda>(buf, parser, recv_bytes, responded). \<not> responded \<and> recv_bytes < MAX_HTTP_REQUEST_SIZE)
         (handshake_round sse SHA1) (replicate MAX_HTTP_REQUEST_SIZE 0, handler_new, 0, False)) (\<lambda>_.
     if ret = -2 then co_throw http_bad_request_exception else co_return ()))"

text \<open>The bytes of the status code in memory after \<open>htons\<close>.\<close>

definition u16_bytes :: "u16 \<Rightarrow> u8 list" where
  "u16_bytes w = [ucast w, ucast (drop_bit 8 w)]"

definition websocket_send_close :: "u16 \<Rightarrow> unit co" where
  "websocket_send_close status_code =
    (let header = websocket_frame_header_new (flags_or WS_OP_CLOSE WS_FINAL_FRAME) 2;
         status_code = htons status_code in
     co_await (co_send [header_view header, u16_bytes status_code]) (\<lambda>_.
     co_throw websocket_close_exception))"

definition when_co :: "bool \<Rightarrow> unit co \<Rightarrow> unit co" where
  "when_co b m = (if b then m else co_return ())"

definition websocket_check_parser_result :: "websocket_frame_header_parser \<Rightarrow> size_t co" where
  "websocket_check_parser_result parser =
    (let (flags, mask, len) = parser_result parser in
     co_await (when_co (websocket_flags_not_none (flags_and flags WS_OP_CLOSE)) (websocket_send_close 1000)) (\<lambda>_.
     co_await (when_co (\<not> websocket_flags_not_none (flags_and flags WS_FINAL_FRAME)) (websocket_send_close 1003)) (\<lambda>_.
     co_await (when_co (\<not> websocket_flags_not_none (flags_and flags WS_HAS_MASK)) (websocket_send_close 1008)) (\<lambda>_.
     co_await (when_co (len > MAX_WEBSOCKET_APP_DATA_LEN) (websocket_send_close 1009)) (\<lambda>_.
     co_return len)))))"

text \<open>
  Receiving a frame. The result is the array, unmasked in place, and the stretch of it that
  \<open>data_span\<close> describes. \<open>parse\<close> reports an incomplete header by \<open>npos\<close>, which is \<open>SIZE_MAX\<close>,
  and is compared with \<open>UINT32_MAX\<close>. A span that leaves the array, and leaving the loop by its
  condition, which flows off the end of the coroutine, are undefined.
\<close>

definition UINT32_MAX :: size_t where "UINT32_MAX = 0xFFFFFFFF"

definition recv_data_round ::
  "u8 list \<times> websocket_frame_header_parser \<times> nat \<times> (size_t \<times> size_t) option
    \<Rightarrow> (u8 list \<times> websocket_frame_header_parser \<times> nat \<times> (size_t \<times> size_t) option) co" where
  "recv_data_round = (\<lambda>(buf, parser, recv_bytes, found).
    co_await (co_recv True recv_bytes (length buf - recv_bytes) buf) (\<lambda>(buf, n).
    let recv_bytes = recv_bytes + unat n;
        (parser, ret) = parse parser (take recv_bytes buf) in
    if ret = UINT32_MAX then co_return (buf, parser, recv_bytes, None)
    else
      (let (flags, mask, len) = parser_result parser in
       co_await (websocket_check_parser_result parser) (\<lambda>_.
       if unat ret + unat len \<le> length buf then
         co_return (write_at (unat ret) (fst (websocket_mask (take (unat len) (drop (unat ret) buf)) mask 0)) buf,
           parser, recv_bytes, Some (ret, len))
       else (\<lambda>c. Undefined_behaviour)))))"

definition websocket_recv_data :: "u8 list \<Rightarrow> (u8 list \<times> size_t \<times> size_t) co" where
  "websocket_recv_data buf =
    co_await
      (while_co (\<lambda>(buf, parser, recv_bytes, found). found = None \<and> recv_bytes < MAX_HTTP_REQUEST_SIZE)
        recv_data_round (buf, parser_new, 0, None)) (\<lambda>(buf, parser, recv_bytes, found).
    case found of
      Some data_span \<Rightarrow> co_return (buf, data_span)
    | None \<Rightarrow> (\<lambda>c. Undefined_behaviour))"

definition span_bytes :: "u8 list \<times> size_t \<times> size_t \<Rightarrow> u8 list" where
  "span_bytes = (\<lambda>(buf, off, len). take (unat len) (drop (unat off) buf))"

text \<open>The echo service.\<close>

definition ws_echo_once :: "u8 list \<Rightarrow> u8 list co" where
  "ws_echo_once buf =
    co_await (websocket_recv_data buf) (\<lambda>data_span.
    let header = websocket_frame_header_new (flags_or WS_FINAL_FRAME WS_OP_TEXT)
      (of_nat (length (span_bytes data_span))) in
    co_await (co_send [header_view header, span_bytes data_span]) (\<lambda>sent_bytes.
    co_return (fst data_span)))"

definition ws_disconnect :: "unit co" where
  "ws_disconnect = hang_up"

definition websocket_echo :: "bool \<Rightarrow> (u8 list \<Rightarrow> u8 list) \<Rightarrow> unit co" where
  "websocket_echo sse SHA1 =
    co_await
      (try_catch
        (co_await (websocket_handshake sse SHA1) (\<lambda>_.
         forever ws_echo_once (replicate MAX_WEBSOCKET_FRAME_SIZE 0)))
        (\<lambda>e. co_return ()))
      (\<lambda>_. ws_disconnect)"

text \<open>The discard service.\<close>

definition ws_discard_once :: "u8 list \<Rightarrow> u8 list co" where
  "ws_discard_once buf = co_await (websocket_recv_data buf) (\<lambda>data_span. co_return (fst data_span))"

definition websocket_discard :: "bool \<Rightarrow> (u8 list \<Rightarrow> u8 list) \<Rightarrow> unit co" where
  "websocket_discard sse SHA1 =
    co_await
      (try_catch
        (co_await (websocket_handshake sse SHA1) (\<lambda>_.
         forever ws_discard_once (replicate MAX_WEBSOCKET_FRAME_SIZE 0)))
        (\<lambda>e. co_return ()))
      (\<lambda>_. ws_disconnect)"

section \<open>Client frames\<close>

text \<open>What RFC 6455 has a client send: a header with the mask bit and the payload, masked.\<close>

definition rfc_mask :: "u8 list \<Rightarrow> u8 list \<Rightarrow> u8 list" where
  "rfc_mask m bs = map (\<lambda>i. bs ! i XOR m ! (i mod 4)) [0..<length bs]"

definition client_frame :: "websocket_flags \<Rightarrow> u8 list \<Rightarrow> u8 list \<Rightarrow> u8 list" where
  "client_frame flags m payload = header_bytes flags m (of_nat (length payload)) @ rfc_mask m payload"

lemma length_rfc_mask [simp]: "length (rfc_mask m bs) = length bs"
  by (simp add: rfc_mask_def)

lemma unmask_rfc:
  assumes "websocket_frame_header_parser.m_mask p = m" and "length m = 4"
  shows "fst (websocket_mask (rfc_mask m bs) (mask_uint32_t p) 0) = bs"
  using assms by (auto intro!: nth_equalityI simp: websocket_mask_nth rfc_mask_def le_bytes_mask_uint32 xor.assoc)

definition accepted_flags :: "websocket_flags \<Rightarrow> bool" where
  "accepted_flags flags \<longleftrightarrow> \<not> bit flags 3 \<and> bit flags 4 \<and> bit flags 5"

lemma flag_tests:
  "websocket_flags_not_none (flags_and (flags AND 0x3F) WS_OP_CLOSE) \<longleftrightarrow> bit flags 3"
  "websocket_flags_not_none (flags_and (flags AND 0x3F) WS_FINAL_FRAME) \<longleftrightarrow> bit flags 4"
  "websocket_flags_not_none (flags_and (flags AND 0x3F) WS_HAS_MASK) \<longleftrightarrow> bit flags 5"
proof -
  have "(flags AND 0x3F) AND 8 = flags AND 8" "(flags AND 0x3F) AND 0x10 = flags AND 0x10"
      "(flags AND 0x3F) AND 0x20 = flags AND 0x20"
    by (simp_all add: and.assoc)
  moreover have "flags AND 8 \<noteq> 0 \<longleftrightarrow> bit flags 3"
    using and_exp_eq_0_iff_not_bit [of flags 3] by simp
  ultimately show "websocket_flags_not_none (flags_and (flags AND 0x3F) WS_OP_CLOSE) \<longleftrightarrow> bit flags 3"
    "websocket_flags_not_none (flags_and (flags AND 0x3F) WS_FINAL_FRAME) \<longleftrightarrow> bit flags 4"
    "websocket_flags_not_none (flags_and (flags AND 0x3F) WS_HAS_MASK) \<longleftrightarrow> bit flags 5"
    by (simp_all only: flags_op_defs ws_flag_defs and_pow2_u8)
qed

lemma check_accepts:
  assumes "accepted_flags flags" and "websocket_frame_header_parser.m_flags p = flags AND 0x3F"
    and "m_length p \<le> 1000"
  shows "websocket_check_parser_result p c = Returns (m_length p) c"
  using assms
  by (simp add: websocket_check_parser_result_def parser_result_def flag_tests accepted_flags_def when_co_def
      MAX_WEBSOCKET_APP_DATA_LEN_def not_le [symmetric] co_await_def)

text \<open>The first read of a frame, in the case that it delivers \<open>k\<close> bytes.\<close>

lemma recv_data_first_read:
  assumes "length buf = 1024" and "c_answers c = Move n # as"
    and "k = min (Suc n) (min 1024 (length (c_in c)))" and "0 < k"
  shows "recv_data_round (buf, parser_new, 0, None) c =
    (let (parser, ret) = parse parser_new (take k (c_in c)); buf = write_at 0 (take k (c_in c)) buf;
         (flags, mask, len) = parser_result parser; c' = c\<lparr>c_in := drop k (c_in c), c_answers := as\<rparr> in
     if ret = UINT32_MAX then Returns (buf, parser, k, None) c'
     else co_await (websocket_check_parser_result parser) (\<lambda>_.
       if unat ret + unat len \<le> length buf then
         co_return (write_at (unat ret) (fst (websocket_mask (take (unat len) (drop (unat ret) buf)) mask 0)) buf,
           parser, k, Some (ret, len))
       else (\<lambda>c. Undefined_behaviour)) c')"
proof -
  have k: "k \<le> 1024" "k \<le> length (c_in c)" "unat (of_nat k :: size_t) = k"
    using assms(3) by (auto intro!: unat_of_nat_size)
  have r: "co_recv True 0 1024 buf c =
      Returns (write_at 0 (take k (c_in c)) buf, of_nat k) (c\<lparr>c_in := drop k (c_in c), c_answers := as\<rparr>)"
    using co_recv_some [of 1024 0 buf c] assms(1,2,4) by (simp add: assms(3) [symmetric])
  have t: "take k (write_at 0 (take k (c_in c)) buf) = take k (c_in c)"
    using k assms(1) by (simp add: write_at_def)
  have l: "length buf - 0 = 1024" "length (write_at 0 (take k (c_in c)) buf) = 1024"
    using assms(1) k by simp_all
  obtain p ret where p: "parse parser_new (take k (c_in c)) = (p, ret)" by fastforce
  obtain f m len where "parser_result p = (f, m, len)" by (metis prod_cases3)
  with p show ?thesis
    unfolding recv_data_round_def prod.case l(1) co_await_simps(1) [where m = "co_recv True 0 1024 buf" and c = c, OF r] k(3) add_0
    by (simp add: Let_def t)
qed

lemma parse_client_header:
  assumes "length m = 4" and "length (header_bytes flags m len) \<le> k"
    and "input = header_bytes flags m len @ rest"
  obtains p where "parse parser_new (take k input) = (p, calc_frame_header_size flags len)"
    "websocket_frame_header_parser.m_flags p = flags AND 0x3F" "m_length p = len"
    "websocket_frame_header_parser.m_mask p = (if bit flags 5 then m else replicate 4 0)"
proof -
  from assms(2,3) have "take k input = header_bytes flags m len @ take (k - length (header_bytes flags m len)) rest"
    by simp
  with parse_new_header [OF assms(1), of flags len "take (k - length (header_bytes flags m len)) rest"] that
  show thesis by (auto dest!: parse_of_loop(1))
qed

lemma recv_data_found:
  assumes "recv_data_round (buf, parser_new, 0, None) c = Returns (buf', p, k, Some sp) c'"
    and "length (c_answers c') < length (c_answers c)"
  shows "websocket_recv_data buf c = Returns (buf', sp) c'"
  using assms
  by (simp add: websocket_recv_data_def MAX_HTTP_REQUEST_SIZE_def co_await_def
      while_co.simps [of _ _ "(buf, parser_new, 0, None)"] while_co.simps [of _ _ "(buf', p, k, Some sp)"])

lemma recv_data_throws:
  assumes "recv_data_round (buf, parser_new, 0, None) c = Throws e c'"
  shows "websocket_recv_data buf c = Throws e c'"
  using assms
  by (simp add: websocket_recv_data_def MAX_HTTP_REQUEST_SIZE_def co_await_def
      while_co.simps [of _ _ "(buf, parser_new, 0, None)"])

lemma recv_data_undefined:
  assumes "recv_data_round (buf, parser_new, 0, None) c = Undefined_behaviour"
  shows "websocket_recv_data buf c = Undefined_behaviour"
  using assms
  by (simp add: websocket_recv_data_def MAX_HTTP_REQUEST_SIZE_def co_await_def
      while_co.simps [of _ _ "(buf, parser_new, 0, None)"])

text \<open>A frame that one read delivers whole: the payload comes back unmasked.\<close>

lemma recv_data_whole:
  assumes "length buf = 1024" and "length m = 4" and "accepted_flags flags" and "length payload \<le> 1000"
    and "c_in c = client_frame flags m payload @ rest" and "c_answers c = Move n # as"
    and "k = min (Suc n) (min 1024 (length (c_in c)))" and "length (client_frame flags m payload) \<le> k"
  shows "\<exists>sp. websocket_recv_data buf c = Returns sp (c\<lparr>c_in := drop k (c_in c), c_answers := as\<rparr>) \<and>
    span_bytes sp = payload \<and> length (fst sp) = 1024"
proof -
  let ?len = "of_nat (length payload) :: size_t" and ?h = "header_bytes flags m (of_nat (length payload))"
  let ?c = "c\<lparr>c_in := drop k (c_in c), c_answers := as\<rparr>"
  have len: "unat ?len = length payload" using assms(4) by (intro unat_of_nat_size) simp
  have h: "length ?h = unat (calc_frame_header_size flags ?len)" by (rule length_header_bytes [OF assms(2)])
  have fits: "length ?h + length payload \<le> k" "k \<le> 1024" "k \<le> length (c_in c)"
    using assms(7,8) by (simp_all add: client_frame_def)
  obtain p where p: "parse parser_new (take k (c_in c)) = (p, calc_frame_header_size flags ?len)"
      "websocket_frame_header_parser.m_flags p = flags AND 0x3F" "m_length p = ?len"
      "websocket_frame_header_parser.m_mask p = m"
    using parse_client_header [OF assms(2), of flags ?len k "c_in c" "rfc_mask m payload @ rest"] fits assms(3,5)
    by (auto simp: client_frame_def accepted_flags_def)
  let ?buf = "write_at 0 (take k (c_in c)) buf"
  have "take (length payload) (drop (length ?h) ?buf) = rfc_mask m payload"
    using fits assms(1,5) by (simp add: write_at_def client_frame_def)
  then have masked: "take (unat ?len) (drop (unat (calc_frame_header_size flags ?len)) ?buf) = rfc_mask m payload"
    by (simp only: len h)
  have ret: "calc_frame_header_size flags ?len \<noteq> UINT32_MAX"
    using header_size_le [of flags ?len] by (auto simp: UINT32_MAX_def)
  have "?len \<le> 1000" using assms(4) len by (simp add: word_le_nat_alt)
  then have chk: "websocket_check_parser_result p ?c = Returns ?len ?c"
    using check_accepts [OF assms(3) p(2)] p(3) by simp
  have lb: "length ?buf = 1024" using assms(1) fits by simp
  let ?buf' = "write_at (length ?h) payload ?buf"
  have "0 < k" using fits h by (simp add: header_bytes_def)
  from recv_data_first_read [OF assms(1,6,7) this]
  have "recv_data_round (buf, parser_new, 0, None) c =
      Returns (?buf', p, k, Some (calc_frame_header_size flags ?len, ?len)) ?c"
    using p ret chk masked fits lb unmask_rfc [OF p(4) assms(2), of payload]
    by (simp add: parser_result_def len h [symmetric] Let_def co_await_def)
  then have "websocket_recv_data buf c = Returns (?buf', calc_frame_header_size flags ?len, ?len) ?c"
    by (rule recv_data_found) (simp add: assms(6))
  moreover have "span_bytes (?buf', calc_frame_header_size flags ?len, ?len) = payload"
    using slice_write_at [of "length ?h" payload ?buf] lb fits by (simp add: span_bytes_def len h)
  moreover have "length ?buf' = 1024" using lb fits by simp
  ultimately show ?thesis by auto
qed

section \<open>Rejected frames\<close>

text \<open>The status code of the close frame that answers a header, if one does.\<close>

definition close_status :: "websocket_flags \<Rightarrow> size_t \<Rightarrow> u16 option" where
  "close_status flags len =
    (if bit flags 3 then Some 1000 else if \<not> bit flags 4 then Some 1003
     else if \<not> bit flags 5 then Some 1008 else if len > 1000 then Some 1009 else None)"

definition close_frame :: "u16 \<Rightarrow> u8 list" where
  "close_frame status = [0x88, 2, ucast (drop_bit 8 status), ucast status]"

lemma close_header: "header_view (websocket_frame_header_new (flags_or WS_OP_CLOSE WS_FINAL_FRAME) 2) = [0x88, 2]"
  by (simp add: header_view_new header_bytes_def wire_len_code_def flags_op_defs ws_flag_defs)

lemma u16_bytes_htons: "u16_bytes (htons s) = [ucast (drop_bit 8 s), ucast s]"
proof -
  have "ucast (htons s) = (ucast (drop_bit 8 s) :: u8)" "ucast (drop_bit 8 (htons s)) = (ucast s :: u8)"
    by (auto intro!: u8_eqI simp: htons_def bit_simps)
  then show ?thesis by (simp add: u16_bytes_def)
qed

lemma send_close_throws:
  assumes "stream_moves (c_answers c) 4 4 = (4, All_moved, as)"
  shows "websocket_send_close s c =
    Throws websocket_close_exception (c\<lparr>c_sent := c_sent c @ close_frame s, c_answers := as\<rparr>)"
proof -
  let ?b = "[[0x88, 2], [ucast (drop_bit 8 s), ucast s]] :: u8 list list"
  have "length (concat ?b) = 4" by simp
  with co_send_all [of ?b c 4 All_moved as] assms
  have "co_send ?b c = Returns 4 (c\<lparr>c_sent := c_sent c @ close_frame s, c_answers := as\<rparr>)"
    by (simp only: close_frame_def) simp
  then show ?thesis
    by (simp add: websocket_send_close_def close_header u16_bytes_htons co_await_def Let_def)
qed

lemma check_rejects:
  assumes "websocket_frame_header_parser.m_flags p = flags AND 0x3F" and "m_length p = len"
    and "close_status flags len = Some s" and "stream_moves (c_answers c) 4 4 = (4, All_moved, as)"
  shows "websocket_check_parser_result p c =
    Throws websocket_close_exception (c\<lparr>c_sent := c_sent c @ close_frame s, c_answers := as\<rparr>)"
  using assms send_close_throws [OF assms(4)]
  by (auto simp: websocket_check_parser_result_def parser_result_def flag_tests when_co_def
      MAX_WEBSOCKET_APP_DATA_LEN_def close_status_def co_await_def split: if_splits)

text \<open>
  C17: What becomes of a client's frame that one read delivers. A final, masked data frame of at most
  1000 bytes is handed to the program with the client's payload, unmasked as RFC 6455
  prescribes. Every other one is answered by a close frame, and the connection is given up:
  status 1000 for the opcodes 8 to 15, which include ping and pong as well as close, 1003 for
  a fragment, 1008 for an unmasked frame and 1009 for an oversized one, in this order.
\<close>

theorem websocket_frame_verdict:
  assumes "length buf = 1024" and "length m = 4" and "len = of_nat (length payload)"
    and "length payload < 2 ^ 64"
    and "c_in c = header_bytes flags m len @ rfc_mask m payload @ rest" and "c_answers c = Move n # as"
    and "k = min (Suc n) (min 1024 (length (c_in c)))" and "length (header_bytes flags m len) \<le> k"
  shows "case close_status flags len of
      None \<Rightarrow> length (client_frame flags m payload) \<le> k \<longrightarrow>
        (\<exists>sp c'. websocket_recv_data buf c = Returns sp c' \<and> span_bytes sp = payload \<and> c_sent c' = c_sent c)
    | Some s \<Rightarrow> \<forall>as'. stream_moves as 4 4 = (4, All_moved, as') \<longrightarrow>
        (\<exists>c'. websocket_recv_data buf c = Throws websocket_close_exception c' \<and>
          c_sent c' = c_sent c @ close_frame s)"
proof (cases "close_status flags len")
  case None
  then have "accepted_flags flags" "len \<le> 1000"
    by (auto simp: close_status_def accepted_flags_def not_less split: if_splits)
  moreover from this assms(3,4) have "length payload \<le> 1000"
    by (simp add: word_le_nat_alt unat_of_nat_size)
  ultimately show ?thesis
    using None recv_data_whole [OF assms(1,2) _ _ _ assms(6,7)] assms(3,5)
    by (auto simp: client_frame_def) (metis (no_types, lifting) conn.select_convs(3) conn.surjective conn.update_convs(1,2))
next
  case (Some s)
  obtain p where p: "parse parser_new (take k (c_in c)) = (p, calc_frame_header_size flags len)"
      "websocket_frame_header_parser.m_flags p = flags AND 0x3F" "m_length p = len"
    using parse_client_header [OF assms(2,8,5)] by metis
  have ret: "calc_frame_header_size flags len \<noteq> UINT32_MAX"
    using header_size_le [of flags len] by (auto simp: UINT32_MAX_def)
  have "0 < k" using assms(8) by (simp add: header_bytes_def)
  note first = recv_data_first_read [OF assms(1,6,7) this]
  show ?thesis
    unfolding Some option.case
  proof (intro allI impI)
    fix as' assume mv: "stream_moves as 4 4 = (4, All_moved, as')"
    let ?c = "c\<lparr>c_in := drop k (c_in c), c_answers := as\<rparr>"
    have "websocket_check_parser_result p ?c =
        Throws websocket_close_exception (?c\<lparr>c_sent := c_sent ?c @ close_frame s, c_answers := as'\<rparr>)"
      by (rule check_rejects [OF p(2,3) Some]) (simp add: mv)
    with first p(1) ret have "recv_data_round (buf, parser_new, 0, None) c =
        Throws websocket_close_exception (?c\<lparr>c_sent := c_sent c @ close_frame s, c_answers := as'\<rparr>)"
      by (simp add: parser_result_def Let_def co_await_def)
    from recv_data_throws [OF this]
    show "\<exists>c'. websocket_recv_data buf c = Throws websocket_close_exception c' \<and> c_sent c' = c_sent c @ close_frame s"
      by simp
  qed
qed

theorem websocket_frame_verdict_witness:
  "let c = \<lparr> c_in = header_bytes 0x39 [1, 2, 3, 4] 1 @ rfc_mask [1, 2, 3, 4] [7], c_answers = [Move 99, Move 3],
      c_sent = [], c_kernel = friendly_kernel, c_trace = [], c_socket = socket_new \<rparr> in
    \<exists>c'. websocket_recv_data (replicate 1024 0) c = Throws websocket_close_exception c' \<and>
      c_sent c' = [0x88, 2, 0x03, 0xE8]"
proof -
  let ?i = "header_bytes 0x39 [1, 2, 3, 4] 1 @ rfc_mask [1, 2, 3, 4] [7]"
  let ?c = "\<lparr> c_in = ?i, c_answers = [Move 99, Move 3],
      c_sent = [], c_kernel = friendly_kernel, c_trace = [], c_socket = socket_new \<rparr>"
  have "close_status 0x39 1 = Some 1000" by (simp add: close_status_def)
  moreover have "stream_moves [Move 3] 4 4 = (4, All_moved, [])" by simp
  moreover have "length (header_bytes 0x39 [1, 2, 3, 4] 1) = 6"
    by (simp add: header_bytes_def)
  moreover have "close_frame 1000 = [0x88, 2, 0x03, 0xE8]" by (simp add: close_frame_def)
  ultimately show ?thesis
    using websocket_frame_verdict [of "replicate 1024 0" "[1, 2, 3, 4]" 1 "[7]" ?c "0x39" "[]" 99 "[Move 3]"]
    by (auto simp: Let_def)
qed

section \<open>Frames that arrive in pieces\<close>

lemma mask_loop_short:
  "m_require p = of_nat n \<Longrightarrow> length xs < n \<Longrightarrow> n \<le> 4 \<Longrightarrow>
    m_require (fst (mask_loop p xs)) = of_nat (n - length xs)"
proof (induction p xs arbitrary: n rule: mask_loop.induct)
  case (2 p x xs)
  then obtain n' where n: "n = Suc n'" by (cases n) auto
  from 2(4) n have "n = 1 \<or> n = 2 \<or> n = 3 \<or> n = 4" by auto
  then have "of_nat n \<noteq> (0 :: size_t)" by auto
  with 2 n show ?case by simp
qed simp

lemma parse_cut_header:
  assumes "length m = 4" and "bit flags 5" and "len < 126" and "2 \<le> k" and "k < 6"
  shows "\<exists>p. parse parser_new (take k (header_bytes flags m len @ rest)) = (p, npos) \<and>
    websocket_frame_header_parser.m_flags p = flags AND 0x3F \<and> m_length p = len"
proof -
  let ?b0 = "(if bit flags 4 then 0x80 else 0) OR (flags AND 0xF) :: u8"
  let ?b1 = "(if bit flags 5 then 0x80 else 0) OR ucast (wire_len_code len) :: u8"
  let ?xs = "take (k - 2) m"
  obtain j where j: "k = Suc (Suc j)" "j < 4" using assms(4,5) by (cases k; cases "k - 1") auto
  have "take k (header_bytes flags m len @ rest) = ?b0 # ?b1 # ?xs"
    using assms(1-3) j by (simp add: header_bytes_def)
  moreover define p1 where "p1 = on_start ?b0 parser_new"
  moreover define p2 where "p2 = on_head ?b1 p1"
  moreover have p1: "m_state p1 = S_head" "websocket_frame_header_parser.m_flags p1 = flags AND 0xF OR (if bit flags 4 then 0x10 else 0)"
    by (simp_all add: p1_def on_start_wire)
  moreover have p2: "m_state p2 = S_mask" "m_require p2 = 4" "websocket_frame_header_parser.m_flags p2 = flags AND 0x3F"
      "m_length p2 = len"
    using on_head_wire [OF p1(2), of len] assms(2,3) by (simp_all add: p2_def Let_def)
  moreover have "m_require (fst (mask_loop p2 ?xs)) \<noteq> 0" if "?xs \<noteq> []"
  proof -
    have "j = 0 \<or> j = 1 \<or> j = 2 \<or> j = 3" using j(2) by auto
    then show ?thesis using mask_loop_short [of p2 4 ?xs] p2(2) j assms(1) by auto
  qed
  ultimately show ?thesis
    using loops_frame(5,6) [of p2 ?xs]
    by (cases ?xs) (auto simp: parse_def parser_new_def Let_def split: prod.splits)
qed

text \<open>
  A frame whose header arrives in two pieces. The incomplete parse is reported as \<open>SIZE_MAX\<close> but
  compared with \<open>UINT32_MAX\<close>, so the code goes on as if the header were complete: for a small
  data frame cut inside its mask, the checks pass and the payload is unmasked in front of the
  array, which is undefined behaviour.
\<close>

theorem cut_header_undefined:
  assumes "length buf = 1024" and "length m = 4" and "accepted_flags flags" and "length payload < 126"
    and "c_in c = client_frame flags m payload @ rest" and "c_answers c = Move n # as"
    and "n = 1 \<or> n = 2 \<or> n = 3 \<or> n = 4"
  shows "websocket_recv_data buf c = Undefined_behaviour"
proof -
  let ?len = "of_nat (length payload) :: size_t" and ?k = "Suc n"
  have len: "?len < 126" "?len \<le> 1000" using assms(4) by (simp_all add: word_less_nat_alt word_le_nat_alt unat_of_nat_size)
  have "length (header_bytes flags m ?len) = 6"
    using assms(2,3) len by (simp add: header_bytes_def accepted_flags_def)
  then have k: "?k = min (Suc n) (min 1024 (length (c_in c)))" "0 < ?k" "2 \<le> ?k" "?k < 6"
    using assms(5,7) by (auto simp: client_frame_def)
  let ?c = "c\<lparr>c_in := drop ?k (c_in c), c_answers := as\<rparr>"
  obtain p where p: "parse parser_new (take ?k (c_in c)) = (p, npos)"
      "websocket_frame_header_parser.m_flags p = flags AND 0x3F" "m_length p = ?len"
    using parse_cut_header [OF assms(2) _ len(1) k(3,4), of flags "rfc_mask m payload @ rest"] assms(3,5)
    by (auto simp: client_frame_def accepted_flags_def)
  have "websocket_check_parser_result p ?c = Returns ?len ?c"
    using check_accepts [OF assms(3) p(2)] p(3) len(2) by simp
  moreover have "npos \<noteq> UINT32_MAX" by (simp add: UINT32_MAX_def)
  moreover have "unat npos = 2 ^ 64 - 1" by (simp add: unsigned_minus_1_eq_mask mask_eq_exp_minus_1)
  then have "\<not> unat npos + unat ?len \<le> 1024" by simp
  moreover have "length (write_at 0 (take ?k (c_in c)) buf) = 1024"
    using assms(1) k(1) by (simp add: min_def split: if_splits)
  ultimately have "recv_data_round (buf, parser_new, 0, None) c = Undefined_behaviour"
    using recv_data_first_read [OF assms(1,6) k(1,2)] p
    by (simp add: parser_result_def Let_def co_await_def)
  then show ?thesis by (rule recv_data_undefined)
qed

theorem cut_header_undefined_witness:
  "websocket_recv_data (replicate 1024 0) \<lparr> c_in = client_frame 0x31 [1, 2, 3, 4] [7, 8], c_answers = [Move 3],
    c_sent = [], c_kernel = friendly_kernel, c_trace = [], c_socket = socket_new \<rparr> = Undefined_behaviour"
  by (rule cut_header_undefined [where m = "[1, 2, 3, 4]" and flags = "0x31" and payload = "[7, 8]" and rest = "[]" and n = 3 and as = "[]"])
    (simp_all add: accepted_flags_def)

section \<open>The opening handshake\<close>

text \<open>The handshake when one read decides it: the parser gave a verdict other than -1.\<close>

lemma handshake_first_read:
  assumes "c_answers c = Move n # as" and "k = min (Suc n) (min 1024 (length (c_in c)))" and "0 < k"
    and "handler_parse_mem sse (replicate (1024 - k) 0) (take k (c_in c)) handler_new = Val (h, ret)"
    and "ret \<noteq> -1" and "snd (generate_response SHA1 (take k (c_in c)) h) = resp" and "resp \<noteq> []" and "length resp < 2 ^ 31"
    and "stream_moves as (length resp) (length resp) = (length resp, All_moved, as')"
  shows "websocket_handshake sse SHA1 c =
    Returns () (c\<lparr>c_in := drop k (c_in c), c_sent := c_sent c @ resp, c_answers := as'\<rparr>)"
proof -
  let ?z = "replicate 1024 0 :: u8 list" and ?r = "take k (c_in c)"
  let ?c = "c\<lparr>c_in := drop k (c_in c), c_answers := as\<rparr>"
  have k: "k \<le> 1024" "k \<le> length (c_in c)" "unat (of_nat k :: size_t) = k"
    using assms(2) by (auto intro!: unat_of_nat_size)
  have r: "co_recv True 0 1024 ?z c = Returns (write_at 0 ?r ?z, of_nat k) ?c"
    using co_recv_some [of 1024 0 ?z c] assms(1,3) by (simp add: assms(2) [symmetric])
  have t: "take k (write_at 0 ?r ?z) = ?r" "drop k (write_at 0 ?r ?z) = replicate (1024 - k) 0"
    using k by (simp_all add: write_at_def)
  obtain h' where g: "generate_response SHA1 ?r h = (h', resp)" using assms(6) by (metis prod.collapse)
  have s: "co_send [resp] ?c = Returns (of_nat (length resp)) (?c\<lparr>c_sent := c_sent c @ resp, c_answers := as'\<rparr>)"
    using co_send_all [of "[resp]" ?c "length resp" All_moved as'] assms(7-9) by simp
  have "handshake_round sse SHA1 (?z, handler_new, 0, False) c =
      Returns (write_at 0 ?r ?z, h', k, True) (?c\<lparr>c_sent := c_sent c @ resp, c_answers := as'\<rparr>)"
    using r s g assms(4,5) k(3) t by (simp add: handshake_round_def co_await_def Let_def)
  moreover have "length as' < length as"
    using stream_moves_bounds(3) [OF assms(9)] by simp
  ultimately show ?thesis
    using assms(1)
    by (simp add: websocket_handshake_def MAX_HTTP_REQUEST_SIZE_def co_await_def
        while_co.simps [of _ _ "(?z, handler_new, 0, False)"] while_co.simps [of _ _ "(write_at 0 ?r ?z, h', k, True)"])
qed

definition upgrade_accepted :: "http_request \<Rightarrow> bool" where
  "upgrade_accepted r \<longleftrightarrow> req_method r = ascii ''GET'' \<and> req_minor r = 1 \<and> list_all header_accepted (req_headers r)"

definition handshake_answer :: "(u8 list \<Rightarrow> u8 list) \<Rightarrow> http_request \<Rightarrow> nat \<Rightarrow> u8 list" where
  "handshake_answer SHA1 r k =
    (if length (print_request r) \<le> k \<and> upgrade_accepted r
     then accept_response (SHA1 (hashed (request_key (req_headers r))))
     else websocket_handshake_response_bad_request)"

lemma handshake_answer_length:
  assumes "\<And>x. length (SHA1 x) = 20"
  shows "handshake_answer SHA1 r k \<noteq> []" and "length (handshake_answer SHA1 r k) < 2 ^ 31"
  using assms
  by (simp_all add: handshake_answer_def accept_response_def websocket_handshake_response_bad_request_def
      length_base64_spec response_head_def ascii_def)

lemma handler_parse_cut:
  assumes "request_wf r" and "length (req_headers r) \<le> 100"
    and "k < length (print_request r)" and "k \<noteq> 0"
    and "behind = [] \<Longrightarrow> last (take k (print_request r)) \<noteq> 0x20" and "behind \<noteq> [] \<Longrightarrow> hd behind \<noteq> 0x20"
  obtains h where "handler_parse_mem sse behind (take k (print_request r)) handler_new = Val (h, -2)"
    and "snd (generate_response SHA1 (take k (print_request r)) h) = websocket_handshake_response_bad_request"
proof -
  let ?o = "hp_out http_parser_new"
  have "snd (phr_parse_request_mem sse behind (take k (print_request r)) ?o 0) = Val (- 2)"
  proof (cases behind)
    case Nil
    with assms request_prefix_partial [of r ?o k sse] show ?thesis
      by (simp add: http_parser_new_def phr_parse_request_def)
  next
    case (Cons b bs)
    with assms show ?thesis by (simp add: request_mem_prefix http_parser_new_def)
  qed
  then obtain out where "phr_parse_request_mem sse behind (take k (print_request r)) ?o 0 = (out, Val (- 2))"
    by (metis prod.collapse)
  then have "http_parse_mem sse behind (take k (print_request r)) http_parser_new =
      (http_parser_new\<lparr>hp_out := out, last_len := length (take k (print_request r))\<rparr>, Val (- 2))"
    by (simp add: http_parse_mem_def http_parser_new_def)
  with that show thesis
    by (simp add: handler_parse_mem_def handler_new_def generate_response_def)
qed

text \<open>
  C19: The handshake with a client that sends a well-formed request (of at most 100 headers,
  followed by anything) and takes the whole response is decided by its first read. When that read delivers the whole
  request, the answer is 101 with the accept key, or 400 if the request is not acceptable; when
  it delivers a part, the answer is 400 although the request may be perfect, because the loop
  waits for more on -1, which is the parser's "malformed", and not on -2, its "incomplete". Either
  way the handshake returns normally, since the variable it tests for throwing
  \<open>http_bad_request_exception\<close> is never written: a refused client goes on to be served. One
  case is left out by hypothesis: a read that fills all 1024 bytes of the array with a part of
  a request that ends in a space, where the parser may look for the end of the spaces behind
  the array. After a shorter part it stops at the zeros in the rest of the array.
\<close>

theorem handshake_first_read_decides:
  assumes "request_wf r" and "length (req_headers r) \<le> 100" and "length (print_request r) < 2 ^ 31"
    and "\<And>x. length (SHA1 x) = 20" and "c_in c = print_request r @ post" and "c_answers c = Move n # as"
    and "k = min (Suc n) (min 1024 (length (c_in c)))"
    and "k = 1024 \<and> k < length (print_request r) \<longrightarrow> last (take k (print_request r)) \<noteq> 0x20"
    and "resp = handshake_answer SHA1 r k"
    and "stream_moves as (length resp) (length resp) = (length resp, All_moved, as')"
  shows "websocket_handshake sse SHA1 c =
    Returns () (c\<lparr>c_in := drop k (c_in c), c_sent := c_sent c @ resp, c_answers := as'\<rparr>)"
proof -
  have "0 < length (c_in c)" using assms(5) by (simp add: print_request_def)
  then have k: "0 < k" using assms(7) by simp
  have resp: "resp \<noteq> []" "length resp < 2 ^ 31"
    using handshake_answer_length [of SHA1 r k] assms(4,9) by simp_all
  let ?behind = "replicate (1024 - k) 0 :: u8 list"
  have k1024: "k \<le> 1024" using assms(7) by simp
  obtain h ret where h: "handler_parse_mem sse ?behind (take k (c_in c)) handler_new = Val (h, ret)" "ret \<noteq> -1"
      "snd (generate_response SHA1 (take k (c_in c)) h) = resp"
  proof (cases "k < length (print_request r)")
    case True
    then have t: "take k (c_in c) = take k (print_request r)" using assms(5) by simp
    have e: "last (take k (print_request r)) \<noteq> 0x20" if "?behind = []" using that True assms(8) k1024 by simp
    have z: "hd ?behind \<noteq> 0x20" if "?behind \<noteq> []" using that by (cases "1024 - k") simp_all
    from k have "k \<noteq> 0" by simp
    from handler_parse_cut [OF assms(1,2) True this e z] obtain h where "handler_parse_mem sse ?behind (take k (print_request r)) handler_new = Val (h, -2)"
        "snd (generate_response SHA1 (take k (print_request r)) h) = websocket_handshake_response_bad_request"
      by blast
    moreover from True have "resp = websocket_handshake_response_bad_request"
      by (simp add: assms(9) handshake_answer_def)
    ultimately show thesis by (intro that [of h "-2"]) (simp_all add: t)
  next
    case False
    then have t: "take k (c_in c) = print_request r @ take (k - length (print_request r)) post" using assms(5) by simp
    from False have "resp = (if req_method r = ascii ''GET'' \<and> req_minor r = 1 \<and> list_all header_accepted (req_headers r)
       then accept_response (SHA1 (hashed (request_key (req_headers r))))
       else websocket_handshake_response_bad_request)"
      by (simp add: assms(9) handshake_answer_def upgrade_accepted_def)
    note resp_is = this
    show thesis
    proof (rule generate_response_print [OF assms(1-4), of sse "take (k - length (print_request r)) post"])
      fix h assume "handler_parse sse (print_request r @ take (k - length (print_request r)) post) handler_new =
          Val (h, int (length (print_request r)))"
        and "snd (generate_response SHA1 (print_request r @ take (k - length (print_request r)) post) h) =
          (if req_method r = ascii ''GET'' \<and> req_minor r = 1 \<and> list_all header_accepted (req_headers r)
           then accept_response (SHA1 (hashed (request_key (req_headers r))))
           else websocket_handshake_response_bad_request)"
      then show thesis by (intro that) (simp_all only: t resp_is handler_parse_mem_inside, simp)
    qed
  qed
  from handshake_first_read [OF assms(6,7) k h resp assms(10)] show ?thesis .
qed

text \<open>A request cut behind the space that ends its method.\<close>

theorem handshake_first_read_decides_witness:
  "let c = \<lparr> c_in = print_request upgrade_request, c_answers = [Move 3, Move 99],
      c_sent = [], c_kernel = friendly_kernel, c_trace = [], c_socket = socket_new \<rparr> in
    last (take 4 (c_in c)) = 0x20 \<and>
    websocket_handshake False (\<lambda>_. replicate 20 7) c =
      Returns () (c\<lparr>c_in := drop 4 (print_request upgrade_request),
        c_sent := websocket_handshake_response_bad_request, c_answers := []\<rparr>)"
proof -
  let ?c = "\<lparr> c_in = print_request upgrade_request, c_answers = [Move 3, Move 99],
      c_sent = [], c_kernel = friendly_kernel, c_trace = [], c_socket = socket_new \<rparr>"
  have l: "length (print_request upgrade_request) > 4" "last (take 4 (print_request upgrade_request)) = 0x20"
    by (simp_all add: upgrade_request_def print_request_def request_line_def ascii_def)
  have n: "length (req_headers upgrade_request) \<le> 100" by (simp add: upgrade_request_def)
  have r: "length websocket_handshake_response_bad_request = 26"
    by (simp add: websocket_handshake_response_bad_request_def ascii_def)
  have a: "handshake_answer (\<lambda>_. replicate 20 7) upgrade_request 4 = websocket_handshake_response_bad_request"
    using l(1) by (simp add: handshake_answer_def)
  have m: "stream_moves [Move 99] 26 26 = (26, All_moved, [])" by (simp add: Let_def)
  have "websocket_handshake False (\<lambda>_. replicate 20 7) ?c =
    Returns () (?c\<lparr>c_in := drop 4 (c_in ?c), c_sent := c_sent ?c @ websocket_handshake_response_bad_request, c_answers := []\<rparr>)"
    by (rule handshake_first_read_decides [where k = 4 and n = 3 and as = "[Move 99]" and post = "[]",
          OF upgrade_request_wf n upgrade_request_short])
      (use l r a m in \<open>simp_all add: min_def\<close>)
  with l show ?thesis by (simp add: Let_def)
qed

section \<open>The echo service\<close>

text \<open>
  One turn of the WebSocket echo service: a client's frame that one read delivers is answered by one
  unmasked final text frame with the client's payload.
\<close>

theorem websocket_echo_turn:
  assumes "length buf = 1024" and "length m = 4" and "accepted_flags flags"
    and "payload \<noteq> []" and "length payload \<le> 1000"
    and "c_in c = client_frame flags m payload @ rest" and "c_answers c = Move n # as"
    and "k = min (Suc n) (min 1024 (length (c_in c)))" and "length (client_frame flags m payload) \<le> k"
    and "reply = header_bytes 0x11 [0, 0, 0, 0] (of_nat (length payload)) @ payload"
    and "stream_moves as (length reply) (length reply) = (length reply, All_moved, as')"
  shows "\<exists>buf'. length buf' = 1024 \<and> ws_echo_once buf c =
    Returns buf' (c\<lparr>c_in := drop k (c_in c), c_sent := c_sent c @ reply, c_answers := as'\<rparr>)"
proof -
  let ?c = "c\<lparr>c_in := drop k (c_in c), c_answers := as\<rparr>"
  let ?h = "header_view (websocket_frame_header_new (flags_or WS_FINAL_FRAME WS_OP_TEXT) (of_nat (length payload)))"
  obtain sp where sp: "websocket_recv_data buf c = Returns sp ?c" "span_bytes sp = payload" "length (fst sp) = 1024"
    using recv_data_whole [OF assms(1-3,5-9)] by auto
  have h: "?h = header_bytes 0x11 [0, 0, 0, 0] (of_nat (length payload))"
    by (simp add: header_view_new flags_op_defs ws_flag_defs)
  have "length ?h + length payload < 2 ^ 31" "?h \<noteq> []"
    using assms(5) by (simp_all add: h header_bytes_def)
  then have "co_send [?h, payload] ?c = Returns (of_nat (length reply)) (?c\<lparr>c_sent := c_sent c @ reply, c_answers := as'\<rparr>)"
    using co_send_all [of "[?h, payload]" ?c "length reply" All_moved as'] assms(4,10,11)
    by (simp add: h)
  with sp show ?thesis
    by (simp add: ws_echo_once_def co_await_def Let_def)
qed

theorem websocket_echo_turn_witness:
  "let c = \<lparr> c_in = client_frame 0x31 [1, 2, 3, 4] [7, 8], c_answers = [Move 99, Move 0, Move 9],
      c_sent = [], c_kernel = friendly_kernel, c_trace = [], c_socket = socket_new \<rparr> in
    \<exists>buf'. ws_echo_once (replicate 1024 0) c =
      Returns buf' (c\<lparr>c_in := [], c_sent := [0x81, 2, 7, 8], c_answers := []\<rparr>)"
proof -
  let ?c = "\<lparr> c_in = client_frame 0x31 [1, 2, 3, 4] [7, 8], c_answers = [Move 99, Move 0, Move 9],
      c_sent = [], c_kernel = friendly_kernel, c_trace = [], c_socket = socket_new \<rparr>"
  have "length (client_frame 0x31 [1, 2, 3, 4] [7, 8]) = 8"
    by (simp add: client_frame_def header_bytes_def)
  moreover have "header_bytes 0x11 [0, 0, 0, 0] 2 @ [7, 8] = [0x81, 2, 7, 8]"
    by (simp add: header_bytes_def wire_len_code_def)
  ultimately have "\<exists>buf'. length buf' = 1024 \<and> ws_echo_once (replicate 1024 0) ?c =
    Returns buf' (?c\<lparr>c_in := drop 8 (c_in ?c), c_sent := c_sent ?c @ [0x81, 2, 7, 8], c_answers := []\<rparr>)"
    by (intro websocket_echo_turn [of _ "[1, 2, 3, 4]" "0x31" "[7, 8]" _ "[]" 99 "[Move 0, Move 9]"])
      (simp_all add: accepted_flags_def)
  then show ?thesis by (auto simp: Let_def client_frame_def header_bytes_def)
qed

end
