(* ===== verification/Chat_Room.thy ===== *)
theory Chat_Room
  imports Coro_Task Socket_Sync WS_Handshake
begin

text \<open>
  The room and the sessions of the two chat servers, \<open>example/chat/chat_server.cpp\<close> and
  \<open>example/websocket/websocket_chat.cpp\<close>, whose room, sessions and writers are the same; the way a reader finds
  messages in its input is in \<open>Chat_Server\<close>. All coroutines run on one service and are
  interleaved where they suspend, so the behaviour is a sequence of completions, each handled
  to the end. \<open>m_event.set()\<close> resumes a waiting writer inside \<open>deliver\<close>, and the model runs
  the writer there as well.
\<close>

section \<open>Sessions\<close>

text \<open>
  A session has two coroutines, which are suspended in the places named here. \<open>s_sent\<close> is what
  the writer has sent, a record for the proofs.
\<close>

datatype writer_at = W_sending | W_waiting | W_closing | W_done
datatype reader_at = R_receiving | R_closing | R_done

record chat_session =
  m_address :: "u8 list"
  m_message_head :: "u8 list"
  m_write_msgs :: "u8 list list"
  m_event :: auto_reset_state
  m_stop_source :: bool
  s_reader :: reader_at
  s_writer :: writer_at
  s_sent :: "u8 list list"

definition make_message_head :: "u8 list \<Rightarrow> cpp_exn + u8 list" where
  "make_message_head ip_port =
    (let blank = 21 - of_nat (length ip_port) :: size_t in
     if 2 ^ 63 - 1 < blank then Inl Length_error
     else Inr ([0x7C] @ ip_port @ replicate (unat blank) 0x20 @ ascii ''|:''))"

text \<open>
  The writer from the top of its loop to its next suspension. Awaiting an event that is set
  resets it and goes on.
\<close>

function writer_run :: "chat_session \<Rightarrow> chat_session" where
  "writer_run s =
    (if m_stop_source s then s\<lparr>s_writer := W_done\<rparr>
     else if m_write_msgs s = [] then
       (case ar_await_suspend 0 (m_event s) of
          (st, True) \<Rightarrow> s\<lparr>m_event := st, s_writer := W_waiting\<rparr>
        | (st, False) \<Rightarrow> writer_run (s\<lparr>m_event := st\<rparr>))
     else s\<lparr>s_writer := W_sending\<rparr>)"
  by pat_completeness auto
termination
  by (relation "measure (\<lambda>s. if m_event s = Ar_not_set then 0 else 1)")
    (auto simp: ar_await_suspend_def split: if_splits)

declare writer_run.simps [simp del]

definition event_set :: "chat_session \<Rightarrow> chat_session" where
  "event_set s =
    (let (st, old) = ar_set_exchange (m_event s); s = s\<lparr>m_event := st\<rparr> in
     case old of
       None \<Rightarrow> s
     | Some h \<Rightarrow> writer_run (s\<lparr>m_event := ar_set_reset (m_event s)\<rparr>))"

definition session_deliver :: "u8 list \<Rightarrow> chat_session \<Rightarrow> chat_session" where
  "session_deliver message s = event_set (s\<lparr>m_write_msgs := m_write_msgs s @ [message]\<rparr>)"

section \<open>The room\<close>

text \<open>
  The room keeps pointers to sessions; \<open>w_sessions\<close> is the memory they point into, and using the
  pointer of a session that was destroyed is undefined. The set of participants is a list without
  repetitions; its order, which the code leaves to the hash table, makes no difference (lemma
  \<open>deliver_to_all\<close>).
\<close>

record chat_room =
  m_participants :: "nat list"
  m_recent_messages :: "u8 list list"

record chat_world =
  w_room :: chat_room
  w_sessions :: "nat \<rightharpoonup> chat_session"

definition deliver_to :: "u8 list \<Rightarrow> nat \<Rightarrow> chat_world \<Rightarrow> chat_world checked" where
  "deliver_to message p w =
    (case w_sessions w p of
       None \<Rightarrow> Undefined
     | Some s \<Rightarrow> Val (w\<lparr>w_sessions := (w_sessions w)(p \<mapsto> session_deliver message s)\<rparr>))"

fun deliver_each :: "(u8 list \<times> nat) list \<Rightarrow> chat_world \<Rightarrow> chat_world checked" where
  "deliver_each [] w = Val w"
| "deliver_each ((message, p) # ds) w = bind_checked (deliver_to message p w) (deliver_each ds)"

definition deliver_to_all :: "u8 list \<Rightarrow> chat_world \<Rightarrow> chat_world checked" where
  "deliver_to_all message w = deliver_each (map (Pair message) (m_participants (w_room w))) w"

definition deliver_recent_messages :: "nat \<Rightarrow> chat_world \<Rightarrow> chat_world checked" where
  "deliver_recent_messages p w = deliver_each (map (\<lambda>m. (m, p)) (m_recent_messages (w_room w))) w"

definition server_head :: "u8 list" where
  "server_head = ascii ''|        SERVER       |:''"

definition newline :: u8 where
  "newline = 10"

definition get_address :: "nat \<Rightarrow> chat_world \<Rightarrow> u8 list checked" where
  "get_address p w = (case w_sessions w p of None \<Rightarrow> Undefined | Some s \<Rightarrow> Val (m_address s))"

definition welcome_message :: "u8 list \<Rightarrow> u8 list" where
  "welcome_message address = server_head @ address @ ascii '' has joined the chat'' @ [newline]"

definition farewell_message :: "u8 list \<Rightarrow> u8 list" where
  "farewell_message address = server_head @ address @ ascii '' has left the chat'' @ [newline]"

definition room_welcome :: "nat \<Rightarrow> chat_world \<Rightarrow> chat_world checked" where
  "room_welcome p w = bind_checked (get_address p w) (\<lambda>address. deliver_to_all (welcome_message address) w)"

definition room_farewell :: "nat \<Rightarrow> chat_world \<Rightarrow> chat_world checked" where
  "room_farewell p w = bind_checked (get_address p w) (\<lambda>address. deliver_to_all (farewell_message address) w)"

definition participants_insert :: "nat \<Rightarrow> chat_world \<Rightarrow> chat_world" where
  "participants_insert p w = w\<lparr>w_room := (w_room w)\<lparr>m_participants := List.insert p (m_participants (w_room w))\<rparr>\<rparr>"

definition participants_erase :: "nat \<Rightarrow> chat_world \<Rightarrow> chat_world" where
  "participants_erase p w = w\<lparr>w_room := (w_room w)\<lparr>m_participants := remove1 p (m_participants (w_room w))\<rparr>\<rparr>"

definition join :: "nat \<Rightarrow> chat_world \<Rightarrow> chat_world checked" where
  "join p w = bind_checked (room_welcome p (participants_insert p w)) (deliver_recent_messages p)"

definition leave :: "nat \<Rightarrow> chat_world \<Rightarrow> chat_world checked" where
  "leave p w = room_farewell p (participants_erase p w)"

fun pop_to_ten :: "u8 list list \<Rightarrow> u8 list list" where
  "pop_to_ten [] = []"
| "pop_to_ten (m # ms) = (if length (m # ms) > 10 then pop_to_ten ms else m # ms)"

definition room_deliver :: "u8 list \<Rightarrow> chat_world \<Rightarrow> chat_world checked" where
  "room_deliver message w =
    (let recent = pop_to_ten (m_recent_messages (w_room w) @ [message]) in
     deliver_to_all message (w\<lparr>w_room := (w_room w)\<lparr>m_recent_messages := recent\<rparr>\<rparr>))"

fun room_deliver_each :: "u8 list list \<Rightarrow> chat_world \<Rightarrow> chat_world checked" where
  "room_deliver_each [] w = Val w"
| "room_deliver_each (m # ms) w = bind_checked (room_deliver m w) (room_deliver_each ms)"

section \<open>The life of a session\<close>

definition upd_session :: "nat \<Rightarrow> (chat_session \<Rightarrow> chat_session) \<Rightarrow> chat_world \<Rightarrow> chat_world" where
  "upd_session p f w = w\<lparr>w_sessions := (w_sessions w)(p := map_option f (w_sessions w p))\<rparr>"

text \<open>The session lives in the frame of the coroutine that awaits \<open>start()\<close>: it goes when both coroutines are done.\<close>

definition reap :: "nat \<Rightarrow> chat_world \<Rightarrow> chat_world" where
  "reap p w = (case w_sessions w p of
      Some s \<Rightarrow> if s_reader s = R_done \<and> s_writer s = W_done then w\<lparr>w_sessions := (w_sessions w)(p := None)\<rparr> else w
    | None \<Rightarrow> w)"

definition session_new :: "u8 list \<Rightarrow> u8 list \<Rightarrow> chat_session" where
  "session_new address head = \<lparr> m_address = address, m_message_head = head, m_write_msgs = [],
    m_event = auto_reset_event_new False, m_stop_source = False,
    s_reader = R_receiving, s_writer = W_done, s_sent = [] \<rparr>"

text \<open>
  \<open>start\<close>: join, then both coroutines run to their first suspension, the reader in \<open>recv\<close> and
  the writer after its first turn.
\<close>

definition session_start :: "nat \<Rightarrow> chat_world \<Rightarrow> chat_world checked" where
  "session_start p w = bind_checked (join p w) (\<lambda>w. Val (upd_session p writer_run w))"

text \<open>
  \<open>stop\<close>, run by one of the two coroutines: only the first one leaves the room and
  closes. \<open>closing\<close> and \<open>finished\<close> put that coroutine into the await of \<open>close()\<close> or past its
  end; \<open>shutdown_ok\<close> is false if \<open>shutdown()\<close> throws, which skips the closing.
\<close>

definition session_stop ::
  "(chat_session \<Rightarrow> chat_session) \<Rightarrow> (chat_session \<Rightarrow> chat_session) \<Rightarrow> bool \<Rightarrow> nat \<Rightarrow> chat_world \<Rightarrow> chat_world checked" where
  "session_stop closing finished shutdown_ok p w =
    (case w_sessions w p of
       None \<Rightarrow> Undefined
     | Some s \<Rightarrow>
         if m_stop_source s then Val (upd_session p finished w)
         else bind_checked (leave p (upd_session p (\<lambda>s. s\<lparr>m_stop_source := True\<rparr>) w)) (\<lambda>w.
           Val (upd_session p (if shutdown_ok then closing else finished) w)))"

definition reader_stop :: "bool \<Rightarrow> nat \<Rightarrow> chat_world \<Rightarrow> chat_world checked" where
  "reader_stop = session_stop (s_reader_update (\<lambda>_. R_closing)) (s_reader_update (\<lambda>_. R_done))"

definition writer_stop :: "bool \<Rightarrow> nat \<Rightarrow> chat_world \<Rightarrow> chat_world checked" where
  "writer_stop = session_stop (s_writer_update (\<lambda>_. W_closing)) (s_writer_update (\<lambda>_. W_done))"

text \<open>After \<open>send\<close>: the message is popped and the writer goes on. \<open>pop_front\<close> of an empty queue is undefined.\<close>

definition writer_sent :: "chat_session \<Rightarrow> chat_session" where
  "writer_sent s = (case m_write_msgs s of
      [] \<Rightarrow> s
    | m # ms \<Rightarrow> writer_run (s\<lparr>m_write_msgs := ms, s_sent := s_sent s @ [m]\<rparr>))"

text \<open>The condition of the reader's loop, after the messages it read were delivered.\<close>

definition reader_next :: "chat_session \<Rightarrow> chat_session" where
  "reader_next s = (if m_stop_source s then s\<lparr>s_reader := R_done\<rparr> else s)"

text \<open>
  The completions: a connection is accepted, the reader has read some messages or has failed, the
  writer has sent its message or has failed, and a coroutine's \<open>close()\<close> has ended. The flag of
  a failure says whether \<open>shutdown()\<close> succeeds.
\<close>

datatype chat_event =
    Accepted nat "u8 list"
  | Said nat "u8 list list"
  | Read_failed nat bool
  | Sent nat
  | Send_failed nat bool
  | Reader_closed nat
  | Writer_closed nat

fun at_session :: "(chat_session \<Rightarrow> bool) \<Rightarrow> nat \<Rightarrow> chat_world \<Rightarrow> bool" where
  "at_session P p w = (case w_sessions w p of None \<Rightarrow> False | Some s \<Rightarrow> P s)"

fun enabled :: "chat_event \<Rightarrow> chat_world \<Rightarrow> bool" where
  "enabled (Accepted p address) w \<longleftrightarrow> w_sessions w p = None \<and> length address \<le> 21"
| "enabled (Said p ms) w \<longleftrightarrow> at_session (\<lambda>s. s_reader s = R_receiving) p w"
| "enabled (Read_failed p ok) w \<longleftrightarrow> at_session (\<lambda>s. s_reader s = R_receiving) p w"
| "enabled (Sent p) w \<longleftrightarrow> at_session (\<lambda>s. s_writer s = W_sending) p w"
| "enabled (Send_failed p ok) w \<longleftrightarrow> at_session (\<lambda>s. s_writer s = W_sending) p w"
| "enabled (Reader_closed p) w \<longleftrightarrow> at_session (\<lambda>s. s_reader s = R_closing) p w"
| "enabled (Writer_closed p) w \<longleftrightarrow> at_session (\<lambda>s. s_writer s = W_closing) p w"

fun handle :: "chat_event \<Rightarrow> chat_world \<Rightarrow> chat_world checked" where
  "handle (Accepted p address) w =
    (case make_message_head address of
       Inl e \<Rightarrow> Undefined
     | Inr head \<Rightarrow> session_start p (w\<lparr>w_sessions := (w_sessions w)(p \<mapsto> session_new address head)\<rparr>))"
| "handle (Said p ms) w = bind_checked (room_deliver_each ms w) (\<lambda>w. Val (reap p (upd_session p reader_next w)))"
| "handle (Read_failed p ok) w = bind_checked (reader_stop ok p w) (\<lambda>w. Val (reap p w))"
| "handle (Sent p) w =
    (if at_session (\<lambda>s. m_write_msgs s = []) p w then Undefined else Val (reap p (upd_session p writer_sent w)))"
| "handle (Send_failed p ok) w = bind_checked (writer_stop ok p w) (\<lambda>w. Val (reap p w))"
| "handle (Reader_closed p) w = Val (reap p (upd_session p (s_reader_update (\<lambda>_. R_done)) w))"
| "handle (Writer_closed p) w = Val (reap p (upd_session p (s_writer_update (\<lambda>_. W_done)) w))"

definition chat_init :: chat_world where
  "chat_init = \<lparr> w_room = \<lparr> m_participants = [], m_recent_messages = [] \<rparr>, w_sessions = Map.empty \<rparr>"

text \<open>Handling a list of completions; None if one of them cannot occur.\<close>

fun chat_run :: "chat_event list \<Rightarrow> chat_world \<Rightarrow> chat_world checked option" where
  "chat_run [] w = Some (Val w)"
| "chat_run (e # es) w = (if enabled e w then (case handle e w of Undefined \<Rightarrow> Some Undefined | Val w' \<Rightarrow> chat_run es w') else None)"

section \<open>What a chat room promises\<close>

text \<open>
  The specification knows everything that was said in the room, in one order, the part of it that
  clients said, and for every member the place in the history where it joined and what was replayed to
  it. A member sees its own welcome, the last ten client messages, and from there on everything.
\<close>

record chat_spec =
  history :: "u8 list list"
  talk :: "u8 list list"
  members :: "nat \<rightharpoonup> nat \<times> u8 list list \<times> u8 list"

definition last_ten :: "'a list \<Rightarrow> 'a list" where
  "last_ten xs = drop (length xs - 10) xs"

definition inbox :: "chat_spec \<Rightarrow> nat \<Rightarrow> u8 list list" where
  "inbox \<sigma> p = (case members \<sigma> p of None \<Rightarrow> []
    | Some (k, replay, a) \<Rightarrow> history \<sigma> ! k # replay @ drop (Suc k) (history \<sigma>))"

definition spec_leave :: "nat \<Rightarrow> chat_spec \<Rightarrow> chat_spec" where
  "spec_leave p \<sigma> = (case members \<sigma> p of None \<Rightarrow> \<sigma>
    | Some (k, replay, a) \<Rightarrow> \<sigma>\<lparr>members := (members \<sigma>)(p := None), history := history \<sigma> @ [farewell_message a]\<rparr>)"

fun spec_step :: "chat_event \<Rightarrow> chat_spec \<Rightarrow> chat_spec" where
  "spec_step (Accepted p a) \<sigma> = \<sigma>\<lparr>history := history \<sigma> @ [welcome_message a],
    members := (members \<sigma>)(p \<mapsto> (length (history \<sigma>), last_ten (talk \<sigma>), a))\<rparr>"
| "spec_step (Said p ms) \<sigma> = \<sigma>\<lparr>talk := talk \<sigma> @ ms, history := history \<sigma> @ ms\<rparr>"
| "spec_step (Read_failed p ok) \<sigma> = spec_leave p \<sigma>"
| "spec_step (Send_failed p ok) \<sigma> = spec_leave p \<sigma>"
| "spec_step (Sent p) \<sigma> = \<sigma>"
| "spec_step (Reader_closed p) \<sigma> = \<sigma>"
| "spec_step (Writer_closed p) \<sigma> = \<sigma>"

definition spec_init :: chat_spec where
  "spec_init = \<lparr> history = [], talk = [], members = Map.empty \<rparr>"

section \<open>Writers\<close>

text \<open>
  A session that has not been stopped. Before \<open>start\<close> the writer has not run; afterwards it waits exactly
  when there is nothing to send.
\<close>

definition live :: "bool \<Rightarrow> chat_session \<Rightarrow> bool" where
  "live started s \<longleftrightarrow> \<not> m_stop_source s \<and> s_reader s = R_receiving \<and>
    (if \<not> started then s_writer s = W_done \<and> (\<forall>h. m_event s \<noteq> Ar_waiter h)
     else if m_write_msgs s = [] then s_writer s = W_waiting \<and> m_event s = Ar_waiter 0
     else s_writer s = W_sending \<and> (\<forall>h. m_event s \<noteq> Ar_waiter h))"

lemma writer_run_eq:
  assumes "\<not> m_stop_source s" and "\<forall>h. m_event s \<noteq> Ar_waiter h"
  shows "writer_run s = (if m_write_msgs s = [] then s\<lparr>m_event := Ar_waiter 0, s_writer := W_waiting\<rparr>
    else s\<lparr>s_writer := W_sending\<rparr>)"
proof -
  have "writer_run t = t\<lparr>m_event := Ar_waiter 0, s_writer := W_waiting\<rparr>"
    if "\<not> m_stop_source t" "m_write_msgs t = []" "m_event t = Ar_not_set" for t
    using that by (subst writer_run.simps) (simp add: ar_await_suspend_def)
  from this [of "s\<lparr>m_event := Ar_not_set\<rparr>"] this [of s] assms show ?thesis
    by (cases "m_event s") (subst writer_run.simps, simp add: ar_await_suspend_def)+
qed

lemma writer_run_starts:
  assumes "\<not> m_stop_source s" and "s_reader s = R_receiving" and "\<forall>h. m_event s \<noteq> Ar_waiter h"
  shows "live True (writer_run s)" and "m_write_msgs (writer_run s) = m_write_msgs s"
    and "s_sent (writer_run s) = s_sent s" and "m_address (writer_run s) = m_address s"
  using assms by (simp_all add: writer_run_eq live_def)

lemma live_deliver:
  assumes "live b s"
  shows "live b (session_deliver m s)"
    and "s_sent (session_deliver m s) @ m_write_msgs (session_deliver m s) = s_sent s @ m_write_msgs s @ [m]"
    and "m_address (session_deliver m s) = m_address s"
proof -
  let ?s = "s\<lparr>m_write_msgs := m_write_msgs s @ [m]\<rparr>"
  have "session_deliver m s = (if \<exists>h. m_event s = Ar_waiter h then writer_run (?s\<lparr>m_event := Ar_not_set\<rparr>)
      else ?s\<lparr>m_event := Ar_set\<rparr>)"
    by (cases "m_event s") (simp_all add: session_deliver_def event_set_def ar_set_exchange_def ar_set_reset_def)
  moreover have "(\<exists>h. m_event s = Ar_waiter h) \<longleftrightarrow> b \<and> m_write_msgs s = []"
    using assms by (auto simp: live_def split: if_splits)
  ultimately show "live b (session_deliver m s)"
    and "s_sent (session_deliver m s) @ m_write_msgs (session_deliver m s) = s_sent s @ m_write_msgs s @ [m]"
    and "m_address (session_deliver m s) = m_address s"
    using assms writer_run_starts [of "?s\<lparr>m_event := Ar_not_set\<rparr>"]
    by (auto simp: live_def split: if_splits)
qed

lemma live_deliver_fold:
  assumes "live b s"
  shows "live b (fold session_deliver ms s)
    \<and> s_sent (fold session_deliver ms s) @ m_write_msgs (fold session_deliver ms s) = s_sent s @ m_write_msgs s @ ms
    \<and> m_address (fold session_deliver ms s) = m_address s"
  using assms
proof (induction ms arbitrary: s)
  case (Cons m ms)
  from Cons.IH [OF live_deliver(1) [OF Cons.prems, of m]] live_deliver [OF Cons.prems, of m] show ?case
    by (simp flip: append_assoc)
qed simp

lemma pop_to_ten: "pop_to_ten ms = last_ten ms"
proof (induction ms)
  case (Cons m ms)
  have "length ms - 9 = Suc (length ms - 10)" if "9 < length ms" using that by simp
  with Cons show ?case by (simp add: last_ten_def)
qed (simp add: last_ten_def)

lemma last_ten_snoc: "last_ten (last_ten xs @ [x]) = last_ten (xs @ [x])"
proof -
  have "length xs - (length xs - 10 + 9) + (length xs - 10) = length xs - 9" by arith
  then show ?thesis by (simp add: last_ten_def)
qed

section \<open>Deliveries\<close>

lemma deliver_each_all:
  assumes "distinct ps" and "set ps \<subseteq> dom (w_sessions w)"
  shows "deliver_each (map (Pair m) ps) w =
    Val (w\<lparr>w_sessions := (\<lambda>q. if q \<in> set ps then map_option (session_deliver m) (w_sessions w q) else w_sessions w q)\<rparr>)"
  using assms
proof (induction ps arbitrary: w)
  case (Cons p ps)
  then obtain s where s: "w_sessions w p = Some s" by auto
  let ?w = "w\<lparr>w_sessions := (w_sessions w)(p \<mapsto> session_deliver m s)\<rparr>"
  have "deliver_each (map (Pair m) ps) ?w =
      Val (?w\<lparr>w_sessions := (\<lambda>q. if q \<in> set ps then map_option (session_deliver m) (w_sessions ?w q) else w_sessions ?w q)\<rparr>)"
    using Cons by (intro Cons.IH) auto
  moreover have "(\<lambda>q. if q \<in> set ps then map_option (session_deliver m) (w_sessions ?w q) else w_sessions ?w q) =
      (\<lambda>q. if q \<in> set (p # ps) then map_option (session_deliver m) (w_sessions w q) else w_sessions w q)"
    using Cons.prems(1) s by (auto simp: fun_eq_iff)
  ultimately show ?case using s by (simp add: deliver_to_def)
qed simp

lemma deliver_each_one:
  assumes "w_sessions w p = Some s"
  shows "deliver_each (map (\<lambda>m. (m, p)) ms) w = Val (w\<lparr>w_sessions := (w_sessions w)(p \<mapsto> fold session_deliver ms s)\<rparr>)"
  using assms
proof (induction ms arbitrary: w s)
  case Nil
  then show ?case by (simp add: fun_upd_idem)
next
  case (Cons m ms)
  let ?w = "w\<lparr>w_sessions := (w_sessions w)(p \<mapsto> session_deliver m s)\<rparr>"
  from Cons.IH [of ?w "session_deliver m s"] Cons.prems show ?case
    by (simp add: deliver_to_def cong: if_cong)
qed

section \<open>The room implements the specification\<close>

definition session_rel :: "chat_spec \<Rightarrow> nat \<Rightarrow> chat_session \<Rightarrow> bool" where
  "session_rel \<sigma> p s \<longleftrightarrow> (case members \<sigma> p of
      None \<Rightarrow> m_stop_source s \<and> (s_writer s = W_sending \<longrightarrow> m_write_msgs s \<noteq> [])
    | Some (k, replay, a) \<Rightarrow> live True s \<and> m_address s = a \<and> k < length (history \<sigma>) \<and>
        s_sent s @ m_write_msgs s = inbox \<sigma> p)"

definition chat_rel :: "chat_spec \<Rightarrow> chat_world \<Rightarrow> bool" where
  "chat_rel \<sigma> w \<longleftrightarrow> m_recent_messages (w_room w) = last_ten (talk \<sigma>) \<and>
    distinct (m_participants (w_room w)) \<and> set (m_participants (w_room w)) = dom (members \<sigma>) \<and>
    dom (members \<sigma>) \<subseteq> dom (w_sessions w) \<and> (\<forall>p s. w_sessions w p = Some s \<longrightarrow> session_rel \<sigma> p s)"

lemma session_rel_deliver:
  assumes "session_rel \<sigma> p s" and "p \<in> dom (members \<sigma>)"
  shows "session_rel (\<sigma>\<lparr>history := history \<sigma> @ [m]\<rparr>) p (session_deliver m s)"
  using assms live_deliver [of True s m]
  by (auto simp: session_rel_def inbox_def nth_append split: option.splits)

lemma session_rel_talk [simp]: "session_rel (\<sigma>\<lparr>talk := t\<rparr>) = session_rel \<sigma>"
  by (auto simp: fun_eq_iff session_rel_def inbox_def split: option.splits)

lemma session_rel_other:
  "q \<noteq> p \<Longrightarrow> session_rel (\<sigma>\<lparr>members := (members \<sigma>)(p := x)\<rparr>) q s = session_rel \<sigma> q s"
  by (auto simp: session_rel_def inbox_def split: option.splits)

lemma session_rel_outside:
  "session_rel \<sigma> p s \<Longrightarrow> p \<notin> dom (members \<sigma>) \<Longrightarrow> session_rel (\<sigma>\<lparr>history := h\<rparr>) p s"
  by (auto simp: session_rel_def split: option.splits)

text \<open>A broadcast reaches exactly the participants, whatever their order.\<close>

lemma broadcast_rel:
  assumes "chat_rel \<sigma> w"
  shows "\<exists>w'. deliver_to_all m w = Val w' \<and> w_room w' = w_room w \<and> chat_rel (\<sigma>\<lparr>history := history \<sigma> @ [m]\<rparr>) w'"
proof -
  let ?ps = "m_participants (w_room w)"
  let ?w = "w\<lparr>w_sessions := (\<lambda>q. if q \<in> set ?ps then map_option (session_deliver m) (w_sessions w q) else w_sessions w q)\<rparr>"
  have "deliver_to_all m w = Val ?w"
    unfolding deliver_to_all_def using assms by (intro deliver_each_all) (auto simp: chat_rel_def)
  moreover have "session_rel (\<sigma>\<lparr>history := history \<sigma> @ [m]\<rparr>) p s" if "w_sessions ?w p = Some s" for p s
    using that assms session_rel_deliver [of \<sigma> p _ m] session_rel_outside [of \<sigma> p]
    by (auto simp: chat_rel_def split: if_splits)
  moreover have "dom (w_sessions ?w) = dom (w_sessions w)" by (auto split: if_splits)
  ultimately have "chat_rel (\<sigma>\<lparr>history := history \<sigma> @ [m]\<rparr>) ?w"
    using assms by (simp add: chat_rel_def)
  with \<open>deliver_to_all m w = Val ?w\<close> show ?thesis by simp
qed

lemma room_deliver_rel:
  assumes "chat_rel \<sigma> w"
  shows "\<exists>w'. room_deliver m w = Val w' \<and> chat_rel (\<sigma>\<lparr>talk := talk \<sigma> @ [m], history := history \<sigma> @ [m]\<rparr>) w'"
proof -
  let ?r = "pop_to_ten (m_recent_messages (w_room w) @ [m])"
  let ?w = "w\<lparr>w_room := (w_room w)\<lparr>m_recent_messages := ?r\<rparr>\<rparr>"
  have "chat_rel (\<sigma>\<lparr>talk := talk \<sigma> @ [m]\<rparr>) ?w"
    using assms by (simp add: chat_rel_def pop_to_ten last_ten_snoc)
  from broadcast_rel [OF this, of m] show ?thesis
    by (auto simp: room_deliver_def Let_def)
qed

lemma room_deliver_each_rel:
  assumes "chat_rel \<sigma> w"
  shows "\<exists>w'. room_deliver_each ms w = Val w' \<and> chat_rel (\<sigma>\<lparr>talk := talk \<sigma> @ ms, history := history \<sigma> @ ms\<rparr>) w'"
  using assms
proof (induction ms arbitrary: \<sigma> w)
  case (Cons m ms)
  from room_deliver_rel [OF Cons.prems, of m] obtain w' where
    "room_deliver m w = Val w'" "chat_rel (\<sigma>\<lparr>talk := talk \<sigma> @ [m], history := history \<sigma> @ [m]\<rparr>) w'" by blast
  with Cons.IH [of "\<sigma>\<lparr>talk := talk \<sigma> @ [m], history := history \<sigma> @ [m]\<rparr>" w'] show ?case by auto
qed simp

text \<open>A step of one session's coroutines that the room does not see, and the end of a session.\<close>

lemma upd_session_rel:
  assumes "chat_rel \<sigma> w" and "\<And>s. w_sessions w p = Some s \<Longrightarrow> session_rel \<sigma> p s \<Longrightarrow> session_rel \<sigma> p (f s)"
  shows "chat_rel \<sigma> (upd_session p f w)"
  using assms by (auto simp: chat_rel_def upd_session_def)

lemma reap_rel:
  assumes "chat_rel \<sigma> w"
  shows "chat_rel \<sigma> (reap p w)"
proof (cases "w_sessions w p")
  case (Some s)
  with assms have "p \<notin> dom (members \<sigma>)" if "s_reader s = R_done"
    using that by (auto simp: chat_rel_def session_rel_def live_def split: option.splits)
  with Some assms show ?thesis by (auto simp: reap_def chat_rel_def)
qed (use assms in \<open>simp add: reap_def\<close>)

lemma stopped_rel: "session_rel \<sigma> p s \<Longrightarrow> m_stop_source s \<Longrightarrow> members \<sigma> p = None"
  by (auto simp: session_rel_def live_def split: option.splits)

lemma live_rel: "session_rel \<sigma> p s \<Longrightarrow> \<not> m_stop_source s \<Longrightarrow> \<exists>k r. members \<sigma> p = Some (k, r, m_address s)"
  by (auto simp: session_rel_def split: option.splits)

lemma chat_rel_member:
  assumes "chat_rel \<sigma> w" and "members \<sigma> p = Some (k, r, a)"
  obtains s where "w_sessions w p = Some s" and "live True s" and "s_sent s @ m_write_msgs s = inbox \<sigma> p"
    and "k < length (history \<sigma>)"
proof -
  from assms have "p \<in> dom (w_sessions w)" by (auto simp: chat_rel_def)
  then obtain s where s: "w_sessions w p = Some s" by blast
  with assms(1) have "session_rel \<sigma> p s" by (simp add: chat_rel_def)
  with s assms(2) that show thesis by (simp add: session_rel_def)
qed

lemma session_stop_rel:
  assumes "chat_rel \<sigma> w" and s: "w_sessions w p = Some s"
    and fin: "\<And>f s. f \<in> {closing, finished} \<Longrightarrow> m_stop_source (f s) = m_stop_source s \<and>
      (s_writer (f s) = W_sending \<longrightarrow> s_writer s = W_sending) \<and> m_write_msgs (f s) = m_write_msgs s"
  shows "\<exists>w'. session_stop closing finished ok p w = Val w' \<and> chat_rel (spec_leave p \<sigma>) w'"
proof -
  have rel: "session_rel \<sigma> p s" using assms by (simp add: chat_rel_def)
  have fin_rel: "chat_rel \<sigma>' (upd_session p f w')" if "chat_rel \<sigma>' w'" "members \<sigma>' p = None" "f \<in> {closing, finished}" for \<sigma>' w' f
    using that(1) by (rule upd_session_rel) (use that(2) fin [OF that(3)] in \<open>simp add: session_rel_def\<close>)
  show ?thesis
  proof (cases "m_stop_source s")
    case True
    with rel s fin_rel [OF assms(1)] show ?thesis
      by (simp add: session_stop_def stopped_rel spec_leave_def)
  next
    case False
    from live_rel [OF rel this] obtain k r where m: "members \<sigma> p = Some (k, r, m_address s)" by blast
    let ?w = "participants_erase p (upd_session p (\<lambda>s. s\<lparr>m_stop_source := True\<rparr>) w)"
    let ?\<sigma> = "\<sigma>\<lparr>members := (members \<sigma>)(p := None)\<rparr>"
    have "session_rel ?\<sigma> q t" if "w_sessions ?w q = Some t" for q t
    proof (cases "q = p")
      case True
      with that s rel m show ?thesis
        by (auto simp: participants_erase_def upd_session_def session_rel_def live_def split: if_splits)
    next
      case False
      with that assms(1) show ?thesis
        by (simp add: session_rel_other participants_erase_def upd_session_def chat_rel_def)
    qed
    then have "chat_rel ?\<sigma> ?w"
      using assms(1) s by (auto simp: chat_rel_def participants_erase_def upd_session_def)
    from broadcast_rel [OF this, of "farewell_message (m_address s)"] obtain w' where w':
      "deliver_to_all (farewell_message (m_address s)) ?w = Val w'"
      "chat_rel (?\<sigma>\<lparr>history := history ?\<sigma> @ [farewell_message (m_address s)]\<rparr>) w'" by blast
    have "leave p (upd_session p (\<lambda>s. s\<lparr>m_stop_source := True\<rparr>) w) = Val w'"
      using w'(1) s by (simp add: leave_def room_farewell_def get_address_def participants_erase_def upd_session_def)
    with s False w'(2) m show ?thesis
      using fin_rel [OF w'(2), of "if ok then closing else finished"]
      by (simp add: session_stop_def spec_leave_def)
  qed
qed

lemma reader_stop_rel:
  assumes "chat_rel \<sigma> w" and "w_sessions w p = Some s"
  shows "\<exists>w'. reader_stop ok p w = Val w' \<and> chat_rel (spec_leave p \<sigma>) w'"
  unfolding reader_stop_def by (rule session_stop_rel [OF assms]) auto

lemma writer_stop_rel:
  assumes "chat_rel \<sigma> w" and "w_sessions w p = Some s"
  shows "\<exists>w'. writer_stop ok p w = Val w' \<and> chat_rel (spec_leave p \<sigma>) w'"
  unfolding writer_stop_def by (rule session_stop_rel [OF assms]) auto

lemma message_head:
  assumes "length address \<le> 21"
  shows "make_message_head address = Inr ([0x7C] @ address @ replicate (21 - length address) 0x20 @ ascii ''|:'')"
proof -
  have "unat (21 - of_nat (length address) :: size_t) = 21 - length address"
    using assms by (subst unat_sub) (simp_all add: word_le_nat_alt unat_of_nat_size)
  then show ?thesis using assms by (simp add: make_message_head_def Let_def word_less_nat_alt)
qed

text \<open>The text of every address is short enough for its head, so that accepting a connection is always possible.\<close>

lemma accepted_address: "w_sessions w p = None \<Longrightarrow> enabled (Accepted p (ascii (to_str a))) w"
  using length_to_str [of a] by (simp add: ascii_def)

lemma session_new_live: "live False (session_new a head)" "s_sent (session_new a head) @ m_write_msgs (session_new a head) = []"
    "m_address (session_new a head) = a"
  by (simp_all add: session_new_def live_def auto_reset_event_new_def)

lemma new_member:
  assumes "members \<sigma> p = None" and "replay = last_ten (talk \<sigma>)"
  shows "session_rel (spec_step (Accepted p a) \<sigma>) p
    (writer_run (fold session_deliver replay (session_deliver (welcome_message a) (session_new a head))))"
proof -
  let ?s = "session_deliver (welcome_message a) (session_new a head)"
  let ?t = "fold session_deliver replay ?s"
  note d = live_deliver [OF session_new_live(1), of "welcome_message a" a head]
  note f = live_deliver_fold [OF d(1), of replay]
  have "\<not> m_stop_source ?t" "s_reader ?t = R_receiving" "\<forall>h. m_event ?t \<noteq> Ar_waiter h"
    using f by (simp_all add: live_def)
  from writer_run_starts [OF this] f d session_new_live(2,3) assms show ?thesis
    by (simp add: session_rel_def inbox_def nth_append flip: append_assoc)
qed

lemma session_rel_accept_other:
  assumes "session_rel \<sigma> q s" and "q \<noteq> p"
  shows "session_rel (spec_step (Accepted p a) \<sigma>) q
    (if q \<in> dom (members \<sigma>) then session_deliver (welcome_message a) s else s)"
proof -
  let ?\<sigma> = "\<sigma>\<lparr>history := history \<sigma> @ [welcome_message a]\<rparr>"
  have "session_rel ?\<sigma> q (if q \<in> dom (members \<sigma>) then session_deliver (welcome_message a) s else s)"
    using assms(1) session_rel_deliver session_rel_outside by auto
  with session_rel_other [OF assms(2), of ?\<sigma>] show ?thesis by simp
qed

lemma accept_rel:
  assumes "chat_rel \<sigma> w" and "w_sessions w p = None"
  shows "\<exists>w'. session_start p (w\<lparr>w_sessions := (w_sessions w)(p \<mapsto> session_new a head)\<rparr>) = Val w' \<and>
    chat_rel (spec_step (Accepted p a) \<sigma>) w'"
proof -
  let ?n = "session_new a head" and ?m = "welcome_message a" and ?ps = "m_participants (w_room w)"
  let ?w1 = "participants_insert p (w\<lparr>w_sessions := (w_sessions w)(p \<mapsto> ?n)\<rparr>)"
  let ?w2 = "?w1\<lparr>w_sessions := (\<lambda>q. if q \<in> set (List.insert p ?ps)
      then map_option (session_deliver ?m) (w_sessions ?w1 q) else w_sessions ?w1 q)\<rparr>"
  let ?s = "fold session_deliver (m_recent_messages (w_room w)) (session_deliver ?m ?n)"
  let ?w3 = "?w2\<lparr>w_sessions := (w_sessions ?w2)(p \<mapsto> ?s)\<rparr>"
  have pm: "members \<sigma> p = None" using assms by (auto simp: chat_rel_def)
  have "deliver_to_all ?m ?w1 = Val ?w2"
    using deliver_each_all [of "List.insert p ?ps" ?w1 ?m] assms
    by (auto simp: deliver_to_all_def participants_insert_def chat_rel_def)
  then have "join p (w\<lparr>w_sessions := (w_sessions w)(p \<mapsto> ?n)\<rparr>) = Val ?w3"
    using deliver_each_one [of ?w2 p "session_deliver ?m ?n"]
    by (simp add: join_def room_welcome_def get_address_def deliver_recent_messages_def participants_insert_def session_new_live(3))
  moreover define w' where "w' = upd_session p writer_run ?w3"
  ultimately have start: "session_start p (w\<lparr>w_sessions := (w_sessions w)(p \<mapsto> ?n)\<rparr>) = Val w'"
    by (simp add: session_start_def)
  have sess: "w_sessions w' =
      (\<lambda>q. if q = p then Some (writer_run ?s)
        else map_option (\<lambda>s. if q \<in> dom (members \<sigma>) then session_deliver ?m s else s) (w_sessions w q))"
    using assms(1)
    by (auto simp: w'_def fun_eq_iff upd_session_def participants_insert_def chat_rel_def option.map_ident split: option.split)
  have room: "w_room w' = (w_room w)\<lparr>m_participants := List.insert p ?ps\<rparr>"
    by (simp add: w'_def upd_session_def participants_insert_def)
  have "session_rel (spec_step (Accepted p a) \<sigma>) q t" if q: "w_sessions w' q = Some t" for q t
  proof (cases "q = p")
    case True
    then have "t = writer_run ?s" using q by (simp add: sess)
    moreover have "m_recent_messages (w_room w) = last_ten (talk \<sigma>)" using assms(1) by (simp add: chat_rel_def)
    ultimately show ?thesis using True new_member [OF pm, of _ a head] by simp
  next
    case False
    then obtain s where s: "w_sessions w q = Some s" "t = (if q \<in> dom (members \<sigma>) then session_deliver ?m s else s)"
      using q by (auto simp: sess)
    then have "session_rel \<sigma> q s" using assms(1) by (simp add: chat_rel_def)
    from session_rel_accept_other [OF this False] s(2) show ?thesis by simp
  qed
  moreover have "dom (members \<sigma>) \<subseteq> dom (w_sessions w')"
    using assms(1) by (auto simp: sess chat_rel_def)
  ultimately have "chat_rel (spec_step (Accepted p a) \<sigma>) w'"
    using assms(1) by (auto simp: chat_rel_def room sess)
  with start show ?thesis by blast
qed

lemma writer_sent_rel:
  assumes "session_rel \<sigma> p s" and "s_writer s = W_sending"
  shows "m_write_msgs s \<noteq> []" and "session_rel \<sigma> p (writer_sent s)"
proof -
  show msgs: "m_write_msgs s \<noteq> []"
    using assms by (auto simp: session_rel_def live_def split: option.splits if_splits)
  then obtain m ms where m: "m_write_msgs s = m # ms" by (cases "m_write_msgs s") auto
  let ?s = "s\<lparr>m_write_msgs := ms, s_sent := s_sent s @ [m]\<rparr>"
  show "session_rel \<sigma> p (writer_sent s)"
  proof (cases "members \<sigma> p")
    case None
    with assms m show ?thesis by (simp add: session_rel_def writer_sent_def writer_run.simps)
  next
    case (Some x)
    with assms(1) m have "\<not> m_stop_source ?s" "s_reader ?s = R_receiving" "\<forall>h. m_event ?s \<noteq> Ar_waiter h"
      by (auto simp: session_rel_def live_def)
    from writer_run_starts [OF this] Some assms(1) m show ?thesis
      by (auto simp: session_rel_def writer_sent_def)
  qed
qed

lemma reader_next_rel: "session_rel \<sigma> p s \<Longrightarrow> session_rel \<sigma> p (reader_next s)"
  by (auto simp: session_rel_def reader_next_def live_def split: option.splits)

lemma closed_rel:
  assumes "session_rel \<sigma> p s"
  shows "s_reader s = R_closing \<Longrightarrow> session_rel \<sigma> p (s\<lparr>s_reader := R_done\<rparr>)"
    and "s_writer s = W_closing \<Longrightarrow> session_rel \<sigma> p (s\<lparr>s_writer := W_done\<rparr>)"
  using assms by (auto simp: session_rel_def live_def split: option.splits if_splits)

lemma handle_rel:
  assumes "chat_rel \<sigma> w" and "enabled e w"
  shows "\<exists>w'. handle e w = Val w' \<and> chat_rel (spec_step e \<sigma>) w'"
proof (cases e)
  case (Accepted p a)
  with assms accept_rel show ?thesis by (simp add: message_head)
next
  case (Said p ms)
  from room_deliver_each_rel [OF assms(1), of ms] obtain w' where w': "room_deliver_each ms w = Val w'"
    "chat_rel (spec_step e \<sigma>) w'" using Said by auto
  then show ?thesis
    using Said reap_rel [OF upd_session_rel [OF w'(2), of p reader_next]] reader_next_rel by auto
next
  case (Read_failed p ok)
  with assms(2) obtain s where s: "w_sessions w p = Some s" by (auto split: option.splits)
  from reader_stop_rel [OF assms(1) s] obtain w' where "reader_stop ok p w = Val w'" "chat_rel (spec_leave p \<sigma>) w'" by blast
  with Read_failed reap_rel show ?thesis by auto
next
  case (Send_failed p ok)
  with assms(2) obtain s where s: "w_sessions w p = Some s" by (auto split: option.splits)
  from writer_stop_rel [OF assms(1) s] obtain w' where "writer_stop ok p w = Val w'" "chat_rel (spec_leave p \<sigma>) w'" by blast
  with Send_failed reap_rel show ?thesis by auto
next
  case (Sent p)
  with assms obtain s where s: "w_sessions w p = Some s" "session_rel \<sigma> p s" "s_writer s = W_sending"
    by (auto simp: chat_rel_def split: option.splits)
  with writer_sent_rel [OF s(2,3)] show ?thesis
    using Sent reap_rel [OF upd_session_rel [OF assms(1), of p writer_sent]] by auto
next
  case (Reader_closed p)
  with assms(2) obtain s where "w_sessions w p = Some s" "s_reader s = R_closing" by (auto split: option.splits)
  with closed_rel(1) show ?thesis
    using Reader_closed reap_rel [OF upd_session_rel [OF assms(1), of p "s_reader_update (\<lambda>_. R_done)"]] by auto
next
  case (Writer_closed p)
  with assms(2) obtain s where "w_sessions w p = Some s" "s_writer s = W_closing" by (auto split: option.splits)
  with closed_rel(2) show ?thesis
    using Writer_closed reap_rel [OF upd_session_rel [OF assms(1), of p "s_writer_update (\<lambda>_. W_done)"]] by auto
qed

lemma chat_run_rel:
  assumes "chat_rel \<sigma> w" and "chat_run es w = Some r"
  shows "\<exists>w'. r = Val w' \<and> chat_rel (fold spec_step es \<sigma>) w'"
  using assms
proof (induction es arbitrary: \<sigma> w)
  case (Cons e es)
  then have "enabled e w" by (auto split: if_splits)
  with handle_rel [OF Cons.prems(1)] obtain w' where "handle e w = Val w'" "chat_rel (spec_step e \<sigma>) w'" by blast
  with Cons \<open>enabled e w\<close> show ?case by simp
qed auto

lemma chat_init_rel: "chat_rel spec_init chat_init"
  by (simp add: chat_rel_def spec_init_def chat_init_def last_ten_def)

lemma writer_run_stopped: "m_stop_source s \<Longrightarrow> writer_run s = s\<lparr>s_writer := W_done\<rparr>"
  by (simp add: writer_run.simps)

lemmas chat_eval = chat_init_def message_head session_start_def join_def room_welcome_def get_address_def
  deliver_to_all_def deliver_to_def deliver_recent_messages_def participants_insert_def session_new_def
  upd_session_def writer_run_eq writer_run_stopped session_deliver_def event_set_def ar_set_exchange_def
  ar_set_reset_def auto_reset_event_new_def writer_sent_def reap_def room_deliver_def
  reader_next_def reader_stop_def session_stop_def leave_def room_farewell_def participants_erase_def Let_def

section \<open>Properties\<close>

text \<open>
  C14: The chat room keeps its promise. Whatever completions arrive, in whatever order, no message is
  delivered to a session that was destroyed and no empty queue is popped; the room remembers the
  last ten client messages; its participants are the members; and each member's connection has
  carried, or has queued, its welcome, the ten messages before it joined and then everything
  said since, all members in the same order. A member with queued messages is sending.
\<close>

theorem chat_room_refines:
  assumes "chat_run es chat_init = Some r"
  shows "\<exists>w. r = Val w \<and> (let \<sigma> = fold spec_step es spec_init in
    m_recent_messages (w_room w) = last_ten (talk \<sigma>) \<and> set (m_participants (w_room w)) = dom (members \<sigma>) \<and>
    (\<forall>p \<in> dom (members \<sigma>). \<exists>s. w_sessions w p = Some s \<and> s_sent s @ m_write_msgs s = inbox \<sigma> p \<and>
      (m_write_msgs s \<noteq> [] \<longrightarrow> enabled (Sent p) w)))"
proof -
  let ?\<sigma> = "fold spec_step es spec_init"
  from chat_run_rel [OF chat_init_rel assms] obtain w where w: "r = Val w" "chat_rel ?\<sigma> w" by blast
  have "\<exists>s. w_sessions w p = Some s \<and> s_sent s @ m_write_msgs s = inbox ?\<sigma> p \<and> (m_write_msgs s \<noteq> [] \<longrightarrow> enabled (Sent p) w)"
    if p: "p \<in> dom (members ?\<sigma>)" for p
  proof -
    from p obtain k replay a where "members ?\<sigma> p = Some (k, replay, a)" by auto
    from chat_rel_member [OF w(2) this] obtain s where s: "w_sessions w p = Some s" "live True s"
      "s_sent s @ m_write_msgs s = inbox ?\<sigma> p" .
    moreover from s(1,2) have "m_write_msgs s \<noteq> [] \<longrightarrow> enabled (Sent p) w" by (simp add: live_def)
    ultimately show ?thesis by blast
  qed
  with w show ?thesis by (simp add: chat_rel_def Let_def)
qed

theorem chat_room_refines_witness:
  "\<exists>w. chat_run [Accepted 1 [65], Sent 1, Said 1 [[9]], Accepted 2 [66]] chat_init = Some (Val w) \<and>
    (\<exists>s. w_sessions w 2 = Some s \<and> s_sent s @ m_write_msgs s = [welcome_message [66], [9]])"
proof -
  let ?es = "[Accepted 1 [65], Sent 1, Said 1 [[9]], Accepted 2 [66]]"
  let ?\<sigma> = "fold spec_step ?es spec_init"
  have "chat_run ?es chat_init \<noteq> None"
    by (simp add: chat_eval)
  then obtain r where r: "chat_run ?es chat_init = Some r" by blast
  have "members ?\<sigma> 2 = Some (2, [[9]], [66])" "history ?\<sigma> = [welcome_message [65], [9], welcome_message [66]]"
    by (simp_all add: spec_init_def last_ten_def)
  then have "2 \<in> dom (members ?\<sigma>)" "inbox ?\<sigma> 2 = [welcome_message [66], [9]]" by (auto simp: inbox_def)
  moreover obtain w where "r = Val w" "\<forall>p \<in> dom (members ?\<sigma>). \<exists>s. w_sessions w p = Some s \<and>
      s_sent s @ m_write_msgs s = inbox ?\<sigma> p \<and> (m_write_msgs s \<noteq> [] \<longrightarrow> enabled (Sent p) w)"
    using chat_room_refines [OF r] unfolding Let_def by blast
  ultimately show ?thesis using r by fastforce
qed

text \<open>
  The end of a session. \<open>stop\<close> takes the session out of the room before it says farewell, and sets
  the event of nobody else's writer.
\<close>

lemma deliver_each_outside:
  assumes "deliver_each ds w = Val w'" and "p \<notin> snd ` set ds"
  shows "w_sessions w' p = w_sessions w p \<and> w_room w' = w_room w"
  using assms
proof (induction ds arbitrary: w)
  case (Cons d ds)
  obtain m q where d: "d = (m, q)" by fastforce
  with Cons.prems(1) obtain w1 where "deliver_to m q w = Val w1" "deliver_each ds w1 = Val w'"
    by (cases "deliver_to m q w") auto
  with Cons d show ?case by (auto simp: deliver_to_def split: option.splits)
qed simp

lemma deliver_to_all_outside:
  assumes "deliver_to_all m w = Val w'" and "p \<notin> set (m_participants (w_room w))"
  shows "w_sessions w' p = w_sessions w p \<and> w_room w' = w_room w"
  using deliver_each_outside [OF assms(1) [unfolded deliver_to_all_def]] assms(2)
  by (auto simp: image_image)

lemma room_deliver_each_outside:
  assumes "room_deliver_each ms w = Val w'" and "p \<notin> set (m_participants (w_room w))"
  shows "w_sessions w' p = w_sessions w p"
  using assms
proof (induction ms arbitrary: w)
  case (Cons m ms)
  then obtain w1 where w1: "room_deliver m w = Val w1" "room_deliver_each ms w1 = Val w'"
    by (cases "room_deliver m w") auto
  have "w_sessions w1 p = w_sessions w p \<and> m_participants (w_room w1) = m_participants (w_room w)"
    using deliver_to_all_outside [of m _ w1 p] w1(1) Cons.prems(2) by (auto simp: room_deliver_def Let_def)
  with Cons w1 show ?case by simp
qed simp

definition stuck :: "nat \<Rightarrow> chat_world \<Rightarrow> bool" where
  "stuck p w \<longleftrightarrow> at_session (\<lambda>s. m_stop_source s \<and> s_writer s = W_waiting) p w"

lemma stuck_upd [simp]:
  "q \<noteq> p \<Longrightarrow> stuck p (upd_session q f w) = stuck p w"
  "q \<noteq> p \<Longrightarrow> stuck p (reap q w) = stuck p w"
  by (auto simp: stuck_def upd_session_def reap_def split: option.splits)

lemma stuck_sessions: "w_sessions w' p = w_sessions w p \<Longrightarrow> stuck p w' = stuck p w"
  by (simp add: stuck_def)

lemma stop_stuck:
  assumes "chat_rel \<sigma> w" and "stuck p w" and "session_stop closing finished ok q w = Val w'"
    and "q = p \<Longrightarrow> finished = s_reader_update (\<lambda>_. R_done)"
  shows "stuck p w'"
proof (cases "q = p")
  case True
  with assms show ?thesis
    by (auto simp: stuck_def session_stop_def upd_session_def split: option.splits)
next
  case False
  obtain s where s: "w_sessions w q = Some s" using assms(3) by (auto simp: session_stop_def split: option.splits)
  show ?thesis
  proof (cases "m_stop_source s")
    case True
    with s assms(2,3) False show ?thesis by (auto simp: session_stop_def)
  next
    case nstop: False
    let ?u = "upd_session q (\<lambda>s. s\<lparr>m_stop_source := True\<rparr>) w"
    let ?w = "participants_erase q ?u"
    from s nstop assms(3) obtain w1 where w1: "leave q ?u = Val w1"
        "w' = upd_session q (if ok then closing else finished) w1"
      by (cases "leave q ?u") (auto simp: session_stop_def)
    have "p \<notin> set (m_participants (w_room w))"
      using assms(1,2) by (auto simp: stuck_def chat_rel_def session_rel_def live_def split: option.splits)
    then have "p \<notin> set (m_participants (w_room ?w))"
      by (auto simp: participants_erase_def upd_session_def dest: notin_set_remove1)
    moreover from w1(1) obtain m where "deliver_to_all m ?w = Val w1"
      by (cases "get_address q ?w") (auto simp: leave_def room_farewell_def)
    ultimately have "w_sessions w1 p = w_sessions ?w p" using deliver_to_all_outside by blast
    then have "stuck p w1 = stuck p ?u" by (simp add: stuck_def participants_erase_def)
    with w1(2) assms(2) False show ?thesis by simp
  qed
qed

lemma reap_stuck: "stuck p w \<Longrightarrow> stuck p (reap q w)"
  by (cases "q = p") (auto simp: stuck_def reap_def split: option.splits)

lemma handle_stuck:
  assumes "chat_rel \<sigma> w" and "stuck p w" and "enabled e w" and "handle e w = Val w'"
  shows "stuck p w'"
proof -
  have out: "p \<notin> set (m_participants (w_room w))"
    using assms(1,2) by (auto simp: stuck_def chat_rel_def session_rel_def live_def split: option.splits)
  show ?thesis
  proof (cases e)
    case (Accepted q a)
    let ?w = "w\<lparr>w_sessions := (w_sessions w)(q \<mapsto> session_new a ([0x7C] @ a @ replicate (21 - length a) 0x20 @ ascii ''|:''))\<rparr>"
    have pq: "q \<noteq> p" using Accepted assms(2,3) by (auto simp: stuck_def)
    from Accepted assms(3,4) obtain w1 where w1: "join q ?w = Val w1" "w' = upd_session q writer_run w1"
      by (cases "join q ?w") (auto simp: message_head session_start_def)
    from w1(1) obtain m w2 where w2: "deliver_to_all m (participants_insert q ?w) = Val w2"
        "deliver_recent_messages q w2 = Val w1"
      by (cases "room_welcome q (participants_insert q ?w)")
        (auto simp: join_def room_welcome_def get_address_def participants_insert_def)
    have "w_sessions w2 p = w_sessions w p"
      using deliver_to_all_outside [OF w2(1), of p] out pq by (simp add: participants_insert_def)
    moreover have "w_sessions w1 p = w_sessions w2 p"
      using deliver_each_outside [OF w2(2) [unfolded deliver_recent_messages_def], of p] pq by (auto simp: image_image)
    ultimately have "stuck p w1" using assms(2) by (simp add: stuck_def)
    with w1(2) pq show ?thesis by simp
  next
    case (Said q ms)
    with assms(4) obtain w1 where w1: "room_deliver_each ms w = Val w1" "w' = reap q (upd_session q reader_next w1)"
      by (cases "room_deliver_each ms w") auto
    then have "stuck p w1" using room_deliver_each_outside [OF w1(1) out] assms(2) by (simp add: stuck_def)
    then have "stuck p (upd_session q reader_next w1)"
      by (cases "q = p") (auto simp: stuck_def upd_session_def reader_next_def split: option.splits)
    with w1(2) show ?thesis by (simp add: reap_stuck)
  next
    case (Read_failed q ok)
    with assms(4) obtain w1 where "reader_stop ok q w = Val w1" "w' = reap q w1" by (cases "reader_stop ok q w") auto
    with stop_stuck [OF assms(1,2)] show ?thesis by (simp add: reader_stop_def reap_stuck)
  next
    case (Send_failed q ok)
    with assms(4) obtain w1 where "writer_stop ok q w = Val w1" "w' = reap q w1" by (cases "writer_stop ok q w") auto
    moreover have "q \<noteq> p" using Send_failed assms(2,3) by (auto simp: stuck_def split: option.splits)
    ultimately show ?thesis using stop_stuck [OF assms(1,2)] by (simp add: writer_stop_def reap_stuck)
  next
    case (Sent q)
    moreover have "q \<noteq> p" using Sent assms(2,3) by (auto simp: stuck_def split: option.splits)
    ultimately show ?thesis using assms(2,4) by (auto split: if_splits)
  next
    case (Reader_closed q)
    have "stuck p (upd_session q (s_reader_update (\<lambda>_. R_done)) w)"
      using assms(2) by (cases "q = p") (auto simp: stuck_def upd_session_def split: option.splits)
    with Reader_closed assms(4) show ?thesis by (auto simp: reap_stuck)
  next
    case (Writer_closed q)
    moreover have "q \<noteq> p" using Writer_closed assms(2,3) by (auto simp: stuck_def split: option.splits)
    ultimately show ?thesis using assms(2,4) by auto
  qed
qed

lemma chat_run_stuck:
  assumes "chat_rel \<sigma> w" and "stuck p w" and "chat_run es w = Some (Val w')"
  shows "stuck p w'"
  using assms
proof (induction es arbitrary: \<sigma> w)
  case (Cons e es)
  then have e: "enabled e w" by (auto split: if_splits)
  with handle_rel [OF Cons.prems(1)] obtain w1 where w1: "handle e w = Val w1" "chat_rel (spec_step e \<sigma>) w1" by blast
  with Cons e handle_stuck [OF Cons.prems(1,2) e w1(1)] show ?case by auto
qed simp

lemma chat_run_append:
  "chat_run (es @ es') w = (case chat_run es w of Some (Val w') \<Rightarrow> chat_run es' w' | r \<Rightarrow> r)"
  by (induction es arbitrary: w) (auto split: checked.splits option.splits)

text \<open>
  A session whose client goes away while the session has nothing to send is never destroyed. Its
  reader takes it out of the room before it tells the room, and nothing else sets its event, so
  the writer waits for ever, the coroutine that owns the session never goes on, and the
  memory and the coroutine frames of the session are lost.
\<close>

theorem idle_session_leaks:
  assumes "chat_run es chat_init = Some (Val w)" and "w_sessions w p = Some s"
    and "\<not> m_stop_source s" and "m_write_msgs s = []"
    and "chat_run (es @ Read_failed p ok # es') chat_init = Some (Val w')"
  shows "\<exists>s'. w_sessions w' p = Some s' \<and> s_writer s' = W_waiting"
proof -
  let ?\<sigma> = "fold spec_step es spec_init" and ?e = "Read_failed p ok"
  have rel: "chat_rel ?\<sigma> w" using chat_run_rel [OF chat_init_rel assms(1)] by simp
  with assms(2) have srel: "session_rel ?\<sigma> p s" by (simp add: chat_rel_def)
  with live_rel assms(3) have lv: "live True s" by (fastforce simp: session_rel_def)
  from assms(1,5) have run: "chat_run (?e # es') w = Some (Val w')" by (simp add: chat_run_append)
  then have en: "enabled ?e w" by (auto split: if_splits)
  from handle_rel [OF rel en] obtain w1 where w1: "handle ?e w = Val w1" "chat_rel (spec_step ?e ?\<sigma>) w1" by blast
  let ?u = "upd_session p (\<lambda>s. s\<lparr>m_stop_source := True\<rparr>) w"
  from w1(1) assms(2,3) obtain w2 where w2: "leave p ?u = Val w2"
      "w1 = reap p (upd_session p (if ok then s_reader_update (\<lambda>_. R_closing) else s_reader_update (\<lambda>_. R_done)) w2)"
    by (cases "leave p ?u") (auto simp: reader_stop_def session_stop_def)
  have "p \<notin> set (m_participants (w_room (participants_erase p ?u)))"
    using rel by (simp add: participants_erase_def upd_session_def chat_rel_def)
  moreover from w2(1) obtain m where "deliver_to_all m (participants_erase p ?u) = Val w2"
    by (cases "get_address p (participants_erase p ?u)") (auto simp: leave_def room_farewell_def)
  ultimately have "w_sessions w2 p = w_sessions ?u p"
    using deliver_to_all_outside [of m "participants_erase p ?u" w2 p] by (simp add: participants_erase_def)
  then have "stuck p w2" using assms(2,4) lv by (simp add: stuck_def upd_session_def live_def)
  then have "stuck p w1" unfolding w2(2) by (intro reap_stuck) (auto simp: stuck_def upd_session_def split: option.splits)
  with chat_run_stuck [OF w1(2)] run en w1(1) have "stuck p w'" by simp
  then show ?thesis by (auto simp: stuck_def split: option.splits)
qed

theorem idle_session_leaks_witness:
  "\<exists>w'. chat_run [Accepted 1 [65], Sent 1, Read_failed 1 True, Reader_closed 1] chat_init = Some (Val w') \<and>
    (\<exists>s'. w_sessions w' 1 = Some s' \<and> s_writer s' = W_waiting)"
proof -
  let ?es = "[Accepted 1 [65], Sent 1]" and ?e = "Read_failed 1 True"
  have "(case chat_run ?es chat_init of Some (Val w) \<Rightarrow>
      at_session (\<lambda>s. \<not> m_stop_source s \<and> m_write_msgs s = []) 1 w | _ \<Rightarrow> False)"
    by (simp add: chat_eval)
  then obtain w s where w: "chat_run ?es chat_init = Some (Val w)" "w_sessions w 1 = Some s"
      "\<not> m_stop_source s" "m_write_msgs s = []"
    by (auto split: option.splits checked.splits)
  have "(case chat_run (?es @ ?e # [Reader_closed 1]) chat_init of Some (Val w) \<Rightarrow> True | _ \<Rightarrow> False)"
    by (simp add: chat_eval)
  then obtain w' where w': "chat_run (?es @ ?e # [Reader_closed 1]) chat_init = Some (Val w')"
    by (auto split: option.splits checked.splits)
  from idle_session_leaks [OF w w'] w' show ?thesis by auto
qed

end
