(* ===== verification/Chat_Server.thy ===== *)
theory Chat_Server
  imports Chat_Room Simple_Servers WS_Service
begin

text \<open>
  The readers and writers of the two chat servers on their connections: \<open>example/chat/chat_server.cpp\<close>
  cuts its input into lines with a \<open>stream_buffer\<close>, \<open>example/websocket/websocket_chat.cpp\<close> takes one message
  from each WebSocket frame. What the messages become is in \<open>Chat_Room\<close>.
\<close>

section \<open>Reading lines\<close>

fun find_byte :: "u8 \<Rightarrow> u8 list \<Rightarrow> nat option" where
  "find_byte b [] = None"
| "find_byte b (x # xs) = (if x = b then Some 0 else map_option Suc (find_byte b xs))"

text \<open>\<open>message_parser\<close>: the number of characters used and the message it gives to the room, if any.\<close>

definition message_parser :: "u8 list \<Rightarrow> u8 list \<Rightarrow> nat \<times> u8 list option" where
  "message_parser message_head str =
    (case find_byte newline str of
       None \<Rightarrow> (0, None)
     | Some pos \<Rightarrow> (pos + 1, Some (message_head @ take (pos + 1) str)))"

text \<open>
  The inner loop of \<open>reader\<close>: the messages it gives to the room, in order. A turn that does not make
  the buffer shorter would repeat itself for ever; it has the value \<open>Undefined\<close>.
\<close>

function reader_drain :: "u8 list \<Rightarrow> stream_buffer \<Rightarrow> (u8 list list \<times> stream_buffer) checked" where
  "reader_drain message_head sbuf =
    (case message_parser message_head (data sbuf) of
       (num_parsed, None) \<Rightarrow> Val ([], sbuf)
     | (num_parsed, Some message) \<Rightarrow>
         let sbuf' = consume (of_nat num_parsed) sbuf in
         if length (data sbuf') < length (data sbuf) then
           bind_checked (reader_drain message_head sbuf') (\<lambda>(messages, sbuf). Val (message # messages, sbuf))
         else Undefined)"
  by pat_completeness auto
termination
  by (relation "measure (\<lambda>(h, sb). length (data sb))") auto

declare reader_drain.simps [simp del]

text \<open>A turn of the outer loop in which \<open>recv_some\<close> delivers \<open>bytes\<close>, and a sequence of turns.\<close>

definition reader_turn :: "u8 list \<Rightarrow> u8 list \<Rightarrow> stream_buffer \<Rightarrow> cpp_exn + (u8 list list \<times> stream_buffer) checked" where
  "reader_turn message_head bytes sbuf =
    (case fill 1024 bytes sbuf of
       Inl e \<Rightarrow> Inl e
     | Inr sbuf \<Rightarrow> Inr (reader_drain message_head sbuf))"

fun reader_turns :: "u8 list \<Rightarrow> u8 list list \<Rightarrow> stream_buffer \<Rightarrow> (u8 list list list \<times> stream_buffer) option" where
  "reader_turns message_head [] sbuf = Some ([], sbuf)"
| "reader_turns message_head (bytes # chunks) sbuf =
    (case reader_turn message_head bytes sbuf of
       Inr (Val (messages, sbuf)) \<Rightarrow>
         map_option (\<lambda>(mss, sbuf). (messages # mss, sbuf)) (reader_turns message_head chunks sbuf)
     | _ \<Rightarrow> None)"

section \<open>Lines\<close>

text \<open>The lines of a text, each with its newline, and what follows the last newline.\<close>

fun split_lines :: "u8 list \<Rightarrow> u8 list list \<times> u8 list" where
  "split_lines [] = ([], [])"
| "split_lines (b # bs) =
    (case split_lines bs of
       (ls, r) \<Rightarrow> if b = newline then ([b] # ls, r)
         else (case ls of [] \<Rightarrow> ([], b # r) | l # ls \<Rightarrow> ((b # l) # ls, r)))"

lemma split_lines_append:
  "split_lines (xs @ ys) =
    (let (ls, r) = split_lines xs; (ls', r') = split_lines (r @ ys) in (ls @ ls', r'))"
  by (induction xs) (auto simp: Let_def split: prod.splits list.splits)

lemma split_lines_none: "find_byte newline xs = None \<Longrightarrow> split_lines xs = ([], xs)"
  by (induction xs) (auto split: if_splits)

lemma split_lines_some:
  "find_byte newline xs = Some pos \<Longrightarrow>
    pos < length xs \<and> split_lines xs = (let (ls, r) = split_lines (drop (Suc pos) xs) in (take (Suc pos) xs # ls, r))"
  by (induction xs arbitrary: pos) (auto split: if_splits prod.splits)

lemma split_lines_shorter: "length (snd (split_lines xs)) \<le> length xs"
  by (induction xs) (auto split: prod.splits list.splits)

lemma reader_drain_lines:
  assumes "sb_ok sb"
  shows "\<exists>sb'. reader_drain head sb = Val (map ((@) head) (fst (split_lines (data sb))), sb') \<and>
    sb_ok sb' \<and> data sb' = snd (split_lines (data sb))"
  using assms
proof (induction head sb rule: reader_drain.induct)
  case (1 head sb)
  show ?case
  proof (cases "find_byte newline (data sb)")
    case None
    with 1(2) show ?thesis
      by (subst reader_drain.simps) (simp add: message_parser_def split_lines_none)
  next
    case (Some pos)
    let ?n = "of_nat (Suc pos) :: size_t" and ?m = "head @ take (Suc pos) (data sb)"
    from split_lines_some [OF Some] have pos: "Suc pos \<le> length (data sb)"
      and sp: "split_lines (data sb) = (let (ls, r) = split_lines (drop (Suc pos) (data sb)) in (take (Suc pos) (data sb) # ls, r))"
      by simp_all
    have "length (data sb) < 2 ^ 31" using 1(2) length_data [of sb] by (auto simp: sb_ok_def sb_wf_def)
    with pos have small: "Suc pos < 2 ^ 31" by linarith
    then have n: "unat ?n = Suc pos" by (intro unat_of_nat_size) simp
    have c: "sb_ok (consume ?n sb)" "data (consume ?n sb) = drop (Suc pos) (data sb)"
      using consume_correct [OF 1(2), of ?n, unfolded n, OF small] by simp_all
    have mp: "message_parser head (data sb) = (Suc pos, Some ?m)" using Some by (simp add: message_parser_def)
    have shrink: "length (data (consume ?n sb)) < length (data sb)" using pos c(2) by simp
    from 1(1) [OF mp [symmetric] refl refl shrink c(1)] obtain sb' where
      "reader_drain head (consume ?n sb) = Val (map ((@) head) (fst (split_lines (drop (Suc pos) (data sb)))), sb')"
      "sb_ok sb'" "data sb' = snd (split_lines (drop (Suc pos) (data sb)))" using c(2) by auto
    with mp shrink sp show ?thesis
      by (subst reader_drain.simps) (simp add: Let_def split: prod.splits)
  qed
qed

lemma reader_turn_lines:
  assumes "sb_ok sb" and "length bytes \<le> 1024" and "length (data sb) + 1024 < 2 ^ 31"
  shows "\<exists>sb'. reader_turn head bytes sb = Inr (Val (map ((@) head) (fst (split_lines (data sb @ bytes))), sb')) \<and>
    sb_ok sb' \<and> data sb' = snd (split_lines (data sb @ bytes))"
proof -
  obtain sb1 where "fill 1024 bytes sb = Inr sb1" "sb_ok sb1" "data sb1 = data sb @ bytes"
    using fill_correct [OF assms(1), of bytes 1024] assms(2,3) by auto
  with reader_drain_lines [of sb1 head] show ?thesis by (auto simp: reader_turn_def)
qed

text \<open>No unfinished line may come near the size where the buffer's \<open>int\<close> arithmetic overflows.\<close>

definition lines_bounded :: "u8 list \<Rightarrow> u8 list list \<Rightarrow> bool" where
  "lines_bounded start chunks \<longleftrightarrow>
    list_all (\<lambda>i. length (snd (split_lines (start @ concat (take i chunks)))) < 2 ^ 30) [0..<Suc (length chunks)]"

lemma lines_bounded_Cons:
  assumes "lines_bounded start (bytes # chunks)"
  shows "lines_bounded (snd (split_lines (start @ bytes))) chunks"
    and "length (snd (split_lines (start @ bytes))) < 2 ^ 30"
proof -
  let ?r = "snd (split_lines (start @ bytes))"
  have b: "length (snd (split_lines (start @ concat (take i (bytes # chunks))))) < 2 ^ 30" if "i \<le> Suc (length chunks)" for i
    using assms that by (auto simp: lines_bounded_def list_all_iff simp del: take_Suc_Cons upt_Suc)
  have "snd (split_lines (?r @ concat (take i chunks))) = snd (split_lines (start @ concat (take (Suc i) (bytes # chunks))))" for i
    using split_lines_append [of "start @ bytes" "concat (take i chunks)"] by (simp add: Let_def split: prod.splits)
  then show "lines_bounded ?r chunks"
    using b [of "Suc _"] by (auto simp: lines_bounded_def list_all_iff simp del: upt_Suc take_Suc_Cons)
  from b [of 1] show "length ?r < 2 ^ 30" by simp
qed

lemma reader_turns_lines:
  assumes "sb_ok sb" and "list_all (\<lambda>bytes. length bytes \<le> 1024) chunks" and "length (data sb) < 2 ^ 30"
    and "lines_bounded (data sb) chunks"
  shows "\<exists>mss sb'. reader_turns head chunks sb = Some (mss, sb') \<and> sb_ok sb' \<and>
    (case split_lines (data sb @ concat chunks) of
       (lines, rest) \<Rightarrow> chunks \<noteq> [] \<longrightarrow> concat mss = map ((@) head) lines \<and> data sb' = rest)"
  using assms
proof (induction chunks arbitrary: sb)
  case (Cons bytes chunks)
  let ?sp = "split_lines (data sb @ bytes)"
  from Cons.prems have "length bytes \<le> 1024" "length (data sb) + 1024 < 2 ^ 31" by simp_all
  from reader_turn_lines [OF Cons.prems(1) this] obtain sb1 where sb1:
    "reader_turn head bytes sb = Inr (Val (map ((@) head) (fst ?sp), sb1))" "sb_ok sb1" "data sb1 = snd ?sp" by blast
  from lines_bounded_Cons [OF Cons.prems(4)] sb1(3)
  have "lines_bounded (data sb1) chunks" "length (data sb1) < 2 ^ 30" by simp_all
  with Cons.IH [OF sb1(2)] Cons.prems(2) obtain mss sb' where IH: "reader_turns head chunks sb1 = Some (mss, sb')" "sb_ok sb'"
    "case split_lines (data sb1 @ concat chunks) of
       (lines, rest) \<Rightarrow> chunks \<noteq> [] \<longrightarrow> concat mss = map ((@) head) lines \<and> data sb' = rest" by auto
  have sp: "split_lines (data sb @ concat (bytes # chunks)) =
      (case split_lines (data sb1 @ concat chunks) of (ls, r) \<Rightarrow> (fst ?sp @ ls, r))"
    using split_lines_append [of "data sb @ bytes" "concat chunks"] sb1(3) by (simp add: case_prod_unfold Let_def)
  show ?case
  proof (cases "chunks = []")
    case True
    with sb1 show ?thesis by (auto split: prod.splits)
  next
    case False
    with sb1(1) IH sp show ?thesis by (auto split: prod.splits)
  qed
qed (auto split: prod.splits)

section \<open>From one client's bytes to every member's connection\<close>

lemma spec_said:
  "fold spec_step (map (Said p) mss) \<sigma> = \<sigma>\<lparr>talk := talk \<sigma> @ concat mss, history := history \<sigma> @ concat mss\<rparr>"
  by (induction mss arbitrary: \<sigma>) simp_all

lemma inbox_grows:
  assumes "members \<sigma> q = Some (k, replay, a)" and "k < length (history \<sigma>)"
  shows "inbox (\<sigma>\<lparr>talk := t, history := history \<sigma> @ ms\<rparr>) q = inbox \<sigma> q @ ms"
  using assms by (simp add: inbox_def nth_append)

text \<open>What one client says, in any number of reads, is queued for every member behind what it had.\<close>

lemma said_reaches_members:
  assumes run: "chat_run (es @ map (Said p) mss) chat_init = Some r" and q: "q \<in> dom (members (fold spec_step es spec_init))"
  shows "\<exists>w s. r = Val w \<and> w_sessions w q = Some s \<and>
    s_sent s @ m_write_msgs s = inbox (fold spec_step es spec_init) q @ concat mss"
proof -
  let ?\<sigma> = "fold spec_step es spec_init"
  let ?\<tau> = "?\<sigma>\<lparr>talk := talk ?\<sigma> @ concat mss, history := history ?\<sigma> @ concat mss\<rparr>"
  obtain w0 where w0: "chat_run es chat_init = Some (Val w0)" "chat_rel ?\<sigma> w0"
    using run chat_run_rel [OF chat_init_rel, of es] by (auto simp: chat_run_append split: option.splits checked.splits)
  from chat_run_rel [OF chat_init_rel run] obtain w where w: "r = Val w" "chat_rel ?\<tau> w"
    by (auto simp: spec_said)
  from q obtain k replay a where m: "members ?\<sigma> q = Some (k, replay, a)" by auto
  from chat_rel_member [OF w0(2) m] have k: "k < length (history ?\<sigma>)" by blast
  from m have "members ?\<tau> q = Some (k, replay, a)" by simp
  from chat_rel_member [OF w(2) this] obtain s where
    "w_sessions w q = Some s" "s_sent s @ m_write_msgs s = inbox ?\<tau> q" by blast
  with inbox_grows [OF m k] w(1) show ?thesis by simp
qed

text \<open>
  C15: What a client types reaches everybody. The bytes of a client, however the network cuts them into reads of
  at most 1024 bytes, become one message per line, the line with its newline behind the
  client's head; and after the messages of all the reads were handled, every member's connection
  has carried, or has queued, exactly these messages in order behind what it had before. The
  unfinished last line stays in the reader's buffer.
\<close>

theorem chat_delivers_lines:
  assumes "list_all (\<lambda>bytes. length bytes \<le> 1024) chunks" and "lines_bounded [] chunks" and "chunks \<noteq> []"
    and "split_lines (concat chunks) = (ls, rest)"
  shows "\<exists>mss sbuf. reader_turns head chunks stream_buffer_new = Some (mss, sbuf) \<and> data sbuf = rest \<and>
    (\<forall>es r p q. chat_run (es @ map (Said p) mss) chat_init = Some r \<longrightarrow> q \<in> dom (members (fold spec_step es spec_init)) \<longrightarrow>
      (\<exists>w s. r = Val w \<and> w_sessions w q = Some s \<and>
        s_sent s @ m_write_msgs s = inbox (fold spec_step es spec_init) q @ map ((@) head) ls))"
proof -
  from reader_turns_lines [OF stream_buffer_new_ok assms(1), of head] assms(2-4)
  obtain mss sbuf where "reader_turns head chunks stream_buffer_new = Some (mss, sbuf)"
    "concat mss = map ((@) head) ls" "data sbuf = rest" by (auto simp: data_new)
  with said_reaches_members show ?thesis by metis
qed

theorem chat_delivers_lines_witness:
  "\<exists>mss sbuf. reader_turns [0x7C] [[72, 105], [10, 72]] stream_buffer_new = Some (mss, sbuf) \<and> data sbuf = [72] \<and>
    (\<forall>r. chat_run ([Accepted 1 [65]] @ map (Said 1) mss) chat_init = Some r \<longrightarrow>
      (\<exists>w s. r = Val w \<and> w_sessions w 1 = Some s \<and>
        s_sent s @ m_write_msgs s = [welcome_message [65], [0x7C, 72, 105, 10]]))"
proof -
  have sp: "split_lines (concat [[72, 105], [10, 72]]) = ([[72, 105, 10]], [72])" by (simp add: newline_def)
  have "inbox (fold spec_step [Accepted 1 [65]] spec_init) 1 = [welcome_message [65]]"
    "1 \<in> dom (members (fold spec_step [Accepted 1 [65]] spec_init))"
    by (simp_all add: spec_init_def inbox_def last_ten_def)
  moreover have "lines_bounded [] [[72, 105], [10, 72]]"
    by (simp add: lines_bounded_def newline_def)
  moreover obtain mss sbuf where "reader_turns [0x7C] [[72, 105], [10, 72]] stream_buffer_new = Some (mss, sbuf)" "data sbuf = [72]"
    and *: "\<forall>es r p q. chat_run (es @ map (Said p) mss) chat_init = Some r \<longrightarrow> q \<in> dom (members (fold spec_step es spec_init)) \<longrightarrow>
      (\<exists>w s. r = Val w \<and> w_sessions w q = Some s \<and>
        s_sent s @ m_write_msgs s = inbox (fold spec_step es spec_init) q @ map ((@) [0x7C]) [[72, 105, 10]])"
    using chat_delivers_lines [OF _ calculation(3) _ sp, of "[0x7C]"] by auto
  ultimately show ?thesis
    using * [rule_format, of "[Accepted 1 [65]]" 1 _ 1] by auto
qed

section \<open>The WebSocket chat\<close>

text \<open>One turn of the reader, which gives \<open>m_room.deliver\<close> its message, and one \<open>send\<close> of the writer.\<close>

definition ws_chat_read :: "u8 list \<Rightarrow> u8 list \<Rightarrow> (u8 list \<times> u8 list) co" where
  "ws_chat_read message_head buf =
    co_await (websocket_recv_data buf) (\<lambda>data_span. co_return (fst data_span, message_head @ span_bytes data_span))"

definition ws_chat_write :: "u8 list \<Rightarrow> size_t co" where
  "ws_chat_write message =
    (let header = websocket_frame_header_new (flags_or WS_FINAL_FRAME WS_OP_TEXT) (of_nat (length message)) in
     co_send [header_view header, message])"

definition chat_write :: "u8 list \<Rightarrow> size_t co" where
  "chat_write message = co_send [message]"

text \<open>
  What a client sends in a frame that one read delivers is what the room is given, behind the
  client's head, and what the room gives to a writer goes out as one text frame.
\<close>

theorem ws_chat_transfers:
  shows "\<lbrakk>length buf = 1024; length m = 4; accepted_flags flags; length payload \<le> 1000;
      c_in c = client_frame flags m payload @ rest; c_answers c = Move n # as;
      k = min (Suc n) (min 1024 (length (c_in c))); length (client_frame flags m payload) \<le> k\<rbrakk> \<Longrightarrow>
    \<exists>buf'. length buf' = 1024 \<and> ws_chat_read head buf c =
      Returns (buf', head @ payload) (c\<lparr>c_in := drop k (c_in c), c_answers := as\<rparr>)"
    and "\<lbrakk>message \<noteq> []; length message < 2 ^ 30; frame = header_bytes 0x11 [0, 0, 0, 0] (of_nat (length message)) @ message;
      stream_moves (c_answers c) (length frame) (length frame) = (length frame, All_moved, as)\<rbrakk> \<Longrightarrow>
    ws_chat_write message c = Returns (of_nat (length frame)) (c\<lparr>c_sent := c_sent c @ frame, c_answers := as\<rparr>)"
proof -
  assume a: "length buf = 1024" "length m = 4" "accepted_flags flags" "length payload \<le> 1000"
      "c_in c = client_frame flags m payload @ rest" "c_answers c = Move n # as"
      "k = min (Suc n) (min 1024 (length (c_in c)))" "length (client_frame flags m payload) \<le> k"
  from recv_data_whole [OF a]
  show "\<exists>buf'. length buf' = 1024 \<and> ws_chat_read head buf c =
      Returns (buf', head @ payload) (c\<lparr>c_in := drop k (c_in c), c_answers := as\<rparr>)"
    by (auto simp: ws_chat_read_def co_await_def)
next
  let ?h = "header_view (websocket_frame_header_new (flags_or WS_FINAL_FRAME WS_OP_TEXT) (of_nat (length message)))"
  assume a: "message \<noteq> []" "length message < 2 ^ 30" "frame = header_bytes 0x11 [0, 0, 0, 0] (of_nat (length message)) @ message"
      "stream_moves (c_answers c) (length frame) (length frame) = (length frame, All_moved, as)"
  have h: "?h = header_bytes 0x11 [0, 0, 0, 0] (of_nat (length message))"
    by (simp add: header_view_new flags_op_defs ws_flag_defs)
  have "length ?h + length message < 2 ^ 31" "?h \<noteq> []"
    using a(2) by (simp_all add: h header_bytes_def)
  then show "ws_chat_write message c = Returns (of_nat (length frame)) (c\<lparr>c_sent := c_sent c @ frame, c_answers := as\<rparr>)"
    using co_send_all [of "[?h, message]" c "length frame" All_moved as] a
    by (simp add: ws_chat_write_def h)
qed

section \<open>A conversation over WebSockets\<close>

text \<open>The loop of \<open>reader\<close> for a number of turns: the messages it gives to the room, in order.\<close>

fun ws_chat_reads :: "u8 list \<Rightarrow> nat \<Rightarrow> u8 list \<Rightarrow> (u8 list \<times> u8 list list) co" where
  "ws_chat_reads message_head 0 buf = co_return (buf, [])"
| "ws_chat_reads message_head (Suc turns) buf =
    co_await (ws_chat_read message_head buf) (\<lambda>(buf, message).
    co_await (ws_chat_reads message_head turns buf) (\<lambda>(buf, messages).
    co_return (buf, message # messages)))"

text \<open>A client's frame: flags, mask and payload.\<close>

type_synonym frame = "websocket_flags \<times> u8 list \<times> u8 list"

fun frame_ok :: "frame \<Rightarrow> bool" where
  "frame_ok (flags, m, payload) \<longleftrightarrow> length m = 4 \<and> accepted_flags flags \<and> length payload \<le> 1000"

fun frame_bytes :: "frame \<Rightarrow> u8 list" where
  "frame_bytes (flags, m, payload) = client_frame flags m payload"

fun frame_payload :: "frame \<Rightarrow> u8 list" where
  "frame_payload (flags, m, payload) = payload"

lemma frame_length: "frame_ok f \<Longrightarrow> 0 < length (frame_bytes f) \<and> length (frame_bytes f) \<le> 1024"
proof (cases f)
  fix flags m payload
  assume f: "f = (flags, m, payload)" and ok: "frame_ok f"
  let ?len = "of_nat (length payload) :: size_t"
  from ok f have "length (header_bytes flags m ?len) = unat (calc_frame_header_size flags ?len)"
    by (intro length_header_bytes) simp
  moreover have "unat (calc_frame_header_size flags ?len) \<le> 14"
    using header_size_le [of flags ?len] by (simp add: word_le_nat_alt)
  ultimately show ?thesis using ok f by (simp add: client_frame_def header_bytes_def)
qed

lemma ws_chat_read_frame:
  assumes "length buf = 1024" and "frame_ok f" and "c_in c = frame_bytes f @ rest" and "c_answers c = Move n # as"
    and "length (frame_bytes f) \<le> Suc n" and "k = min (Suc n) (min 1024 (length (c_in c)))"
  shows "\<exists>buf'. length buf' = 1024 \<and> ws_chat_read head buf c =
    Returns (buf', head @ frame_payload f) (c\<lparr>c_in := drop k (c_in c), c_answers := as\<rparr>)"
proof (cases f)
  fix flags m payload
  assume f: "f = (flags, m, payload)"
  from frame_length [OF assms(2)] assms(3,5,6) have "length (client_frame flags m payload) \<le> k" by (simp add: f)
  with recv_data_whole [OF assms(1) _ _ _ _ assms(4,6), of m flags payload rest] assms(2,3) show ?thesis
    by (auto simp: f ws_chat_read_def co_await_def)
qed

lemma ws_chat_reads_frames:
  assumes "length buf = 1024" and "list_all frame_ok frames" and "c_in c = concat (map frame_bytes frames)"
    and "c_answers c = map (\<lambda>f. Move (length (frame_bytes f) - 1)) frames @ as"
  shows "\<exists>buf'. ws_chat_reads head (length frames) buf c =
    Returns (buf', map (\<lambda>f. head @ frame_payload f) frames) (c\<lparr>c_in := [], c_answers := as\<rparr>)"
  using assms
proof (induction frames arbitrary: buf c)
  case (Cons f frames)
  let ?l = "length (frame_bytes f)" and ?as = "map (\<lambda>f. Move (length (frame_bytes f) - 1)) frames @ as"
  from Cons.prems(2) have l: "frame_ok f" "0 < ?l" "?l \<le> 1024" using frame_length by simp_all
  have n: "Suc (?l - 1) = ?l" using l(2) by simp
  from ws_chat_read_frame [OF Cons.prems(1) l(1), of c "concat (map frame_bytes frames)" "?l - 1" ?as ?l head] Cons.prems(3,4) l n
  obtain buf' where "length buf' = 1024" "ws_chat_read head buf c =
      Returns (buf', head @ frame_payload f) (c\<lparr>c_in := concat (map frame_bytes frames), c_answers := ?as\<rparr>)"
    by auto
  with Cons.IH [of buf' "c\<lparr>c_in := concat (map frame_bytes frames), c_answers := ?as\<rparr>"] Cons.prems(2) show ?case by auto
qed auto

text \<open>
  C16: The WebSocket chat, and where it loses messages. When every read of the server returns one frame of
  a client, the payloads of the frames, unmasked and behind the client's head, reach every member in
  order, behind what it had. When one read returns several frames, which is how a network may deliver them, the
  first one is taken and the others are lost.
\<close>

theorem ws_chat_delivers_or_loses:
  assumes "length buf = 1024" and "list_all frame_ok frames" and "c_in c = concat (map frame_bytes frames)" and "frames \<noteq> []"
    and "messages = map (\<lambda>f. head @ frame_payload f) frames"
  shows "(c_answers c = map (\<lambda>f. Move (length (frame_bytes f) - 1)) frames @ as \<longrightarrow>
      (\<exists>buf'. ws_chat_reads head (length frames) buf c = Returns (buf', messages) (c\<lparr>c_in := [], c_answers := as\<rparr>))) \<and>
    (\<forall>es r p q. chat_run (es @ map (\<lambda>m. Said p [m]) messages) chat_init = Some r \<longrightarrow>
      q \<in> dom (members (fold spec_step es spec_init)) \<longrightarrow>
      (\<exists>w s. r = Val w \<and> w_sessions w q = Some s \<and> s_sent s @ m_write_msgs s = inbox (fold spec_step es spec_init) q @ messages)) \<and>
    (c_answers c = Move n # as \<and> length (c_in c) \<le> Suc n \<and> length (c_in c) \<le> 1024 \<longrightarrow>
      (\<exists>buf'. ws_chat_read head buf c = Returns (buf', hd messages) (c\<lparr>c_in := [], c_answers := as\<rparr>)))"
proof (intro conjI impI allI)
  show "\<exists>buf'. ws_chat_reads head (length frames) buf c = Returns (buf', messages) (c\<lparr>c_in := [], c_answers := as\<rparr>)"
    if "c_answers c = map (\<lambda>f. Move (length (frame_bytes f) - 1)) frames @ as"
    using ws_chat_reads_frames [OF assms(1-3) that] assms(5) by simp
  show "\<exists>w s. r = Val w \<and> w_sessions w q = Some s \<and> s_sent s @ m_write_msgs s = inbox (fold spec_step es spec_init) q @ messages"
    if "chat_run (es @ map (\<lambda>m. Said p [m]) messages) chat_init = Some r" "q \<in> dom (members (fold spec_step es spec_init))" for es r p q
  proof -
    have "concat (map (\<lambda>m. [m]) messages) = messages" by (induction messages) simp_all
    with said_reaches_members [of es p "map (\<lambda>m. [m]) messages" r q] that show ?thesis by (simp add: comp_def)
  qed
  show "\<exists>buf'. ws_chat_read head buf c = Returns (buf', hd messages) (c\<lparr>c_in := [], c_answers := as\<rparr>)"
    if a: "c_answers c = Move n # as \<and> length (c_in c) \<le> Suc n \<and> length (c_in c) \<le> 1024"
  proof -
    obtain f fs where f: "frames = f # fs" using assms(4) by (cases frames) auto
    have "length (frame_bytes f) \<le> Suc n" using a assms(3) f by simp
    from ws_chat_read_frame [OF assms(1) _ _ _ this, of c "concat (map frame_bytes fs)" as "length (c_in c)" head] a assms(2,3,5) f
    show ?thesis by auto
  qed
qed

definition sample_frames :: "frame list" where
  "sample_frames = [(0x31, [1, 2, 3, 4], [72, 105]), (0x31, [5, 6, 7, 8], [33])]"

theorem ws_chat_delivers_or_loses_witness:
  "let bytes = concat (map frame_bytes sample_frames);
       one_each = sample_conn bytes (map (\<lambda>f. Move (length (frame_bytes f) - 1)) sample_frames @ []);
       at_once = sample_conn bytes [Move 2000] in
    (\<exists>buf. ws_chat_reads [0x7C] 2 (replicate 1024 0) one_each = Returns (buf, [[0x7C, 72, 105], [0x7C, 33]]) (one_each\<lparr>c_in := [], c_answers := []\<rparr>)) \<and>
    (\<exists>buf. ws_chat_read [0x7C] (replicate 1024 0) at_once = Returns (buf, [0x7C, 72, 105]) (at_once\<lparr>c_in := [], c_answers := []\<rparr>))"
proof -
  let ?bytes = "concat (map frame_bytes sample_frames)" and ?ms = "map (\<lambda>f. [0x7C] @ frame_payload f) sample_frames"
  let ?one = "sample_conn ?bytes (map (\<lambda>f. Move (length (frame_bytes f) - 1)) sample_frames @ [])" and ?all = "sample_conn ?bytes [Move 2000]"
  have ok: "list_all frame_ok sample_frames" by (simp add: sample_frames_def accepted_flags_def bit_simps)
  have ne: "sample_frames \<noteq> []" and len: "length sample_frames = 2" and ms: "?ms = [[0x7C, 72, 105], [0x7C, 33]]"
    by (simp_all add: sample_frames_def)
  have short: "length ?bytes \<le> 1024"
    by (simp add: sample_frames_def client_frame_def header_bytes_def Let_def)
  from ws_chat_delivers_or_loses [where buf = "replicate 1024 0" and frames = sample_frames and messages = ?ms and c = ?one and head = "[0x7C]" and as = "[]" and n = 0, OF _ ok _ ne refl] len ms
  have "\<exists>buf. ws_chat_reads [0x7C] 2 (replicate 1024 0) ?one = Returns (buf, [[0x7C, 72, 105], [0x7C, 33]]) (?one\<lparr>c_in := [], c_answers := []\<rparr>)"
    by simp
  moreover from ws_chat_delivers_or_loses [where buf = "replicate 1024 0" and frames = sample_frames and messages = ?ms and c = ?all and head = "[0x7C]" and as = "[]" and n = 2000, OF _ ok _ ne refl] short ms
  have "\<exists>buf. ws_chat_read [0x7C] (replicate 1024 0) ?all = Returns (buf, [0x7C, 72, 105]) (?all\<lparr>c_in := [], c_answers := []\<rparr>)"
    by simp
  ultimately show ?thesis by (simp only: Let_def)
qed

end
