(* ===== verification/Echo_Revised.thy ===== *)
theory Echo_Revised
  imports Chat_Room
begin

text \<open>
  \<open>example/simple/echo_revised.cpp\<close>: an echo server whose reader and writer are two coroutines over a
  \<open>forward_list\<close> of buffers. As in \<open>Chat_Room\<close>, the coroutines are interleaved at their awaits and the
  event resumes a waiting writer inside \<open>set()\<close>.
\<close>

section \<open>The client object\<close>

text \<open>
  A writer in \<open>send\<close> holds the buffer it was given, the node that was in front of the list then.
  \<open>e_sent\<close> and \<open>e_received\<close> record what was sent and read, and \<open>e_closes\<close> how often the descriptor was given
  to \<open>::close\<close>; none of them exists in the code. \<open>m_socket.valid()\<close> is true throughout, because \<open>close()\<close>
  leaves the descriptor's number in the object.
\<close>

datatype echo_writer_at = E_sending "u8 list" | E_waiting | E_closing | E_done

record echo_client =
  e_write_msgs :: "u8 list list"
  e_event :: auto_reset_state
  e_reader :: reader_at
  e_writer :: echo_writer_at
  e_received :: "u8 list list"
  e_sent :: "u8 list list"
  e_closes :: nat

text \<open>\<open>writer\<close> from the top of its loop to its next suspension.\<close>

function echo_writer_run :: "echo_client \<Rightarrow> echo_client" where
  "echo_writer_run e =
    (case e_write_msgs e of
       [] \<Rightarrow>
         (case ar_await_suspend 0 (e_event e) of
            (st, True) \<Rightarrow> e\<lparr>e_event := st, e_writer := E_waiting\<rparr>
          | (st, False) \<Rightarrow> echo_writer_run (e\<lparr>e_event := st\<rparr>))
     | m # ms \<Rightarrow> e\<lparr>e_writer := E_sending m\<rparr>)"
  by pat_completeness auto
termination
  by (relation "measure (\<lambda>e. if e_event e = Ar_not_set then 0 else 1)")
    (auto simp: ar_await_suspend_def split: if_splits)

declare echo_writer_run.simps [simp del]

definition echo_event_set :: "echo_client \<Rightarrow> echo_client" where
  "echo_event_set e =
    (let (st, old) = ar_set_exchange (e_event e); e = e\<lparr>e_event := st\<rparr> in
     case old of
       None \<Rightarrow> e
     | Some h \<Rightarrow> echo_writer_run (e\<lparr>e_event := ar_set_reset (e_event e)\<rparr>))"

text \<open>\<open>start\<close>: the reader runs to its first \<open>recv_some\<close>, then the writer to its first await.\<close>

definition echo_client_start :: echo_client where
  "echo_client_start = echo_writer_run \<lparr> e_write_msgs = [], e_event = auto_reset_event_new False,
    e_reader = R_receiving, e_writer = E_done, e_received = [], e_sent = [], e_closes = 0 \<rparr>"

datatype echo_event =
    E_received "u8 list"
  | E_read_failed bool
  | E_sent
  | E_send_failed bool
  | E_reader_closed
  | E_writer_closed

fun echo_enabled :: "echo_event \<Rightarrow> echo_client \<Rightarrow> bool" where
  "echo_enabled (E_received bytes) e \<longleftrightarrow> e_reader e = R_receiving \<and> bytes \<noteq> []"
| "echo_enabled (E_read_failed ok) e \<longleftrightarrow> e_reader e = R_receiving"
| "echo_enabled E_sent e \<longleftrightarrow> (\<exists>m. e_writer e = E_sending m)"
| "echo_enabled (E_send_failed ok) e \<longleftrightarrow> (\<exists>m. e_writer e = E_sending m)"
| "echo_enabled E_reader_closed e \<longleftrightarrow> e_reader e = R_closing"
| "echo_enabled E_writer_closed e \<longleftrightarrow> e_writer e = E_closing"

text \<open>
  The completions: \<open>emplace_front\<close> and \<open>set\<close> after a read, \<open>pop_front\<close> after a send, \<open>stop\<close> after a
  failure, which either coroutine runs to its own \<open>close()\<close>.
\<close>

fun echo_handle :: "echo_event \<Rightarrow> echo_client \<Rightarrow> echo_client" where
  "echo_handle (E_received bytes) e =
    echo_event_set (e\<lparr>e_write_msgs := bytes # e_write_msgs e, e_received := e_received e @ [bytes]\<rparr>)"
| "echo_handle (E_read_failed ok) e = e\<lparr>e_reader := (if ok then R_closing else R_done)\<rparr>"
| "echo_handle E_sent e =
    (case e_writer e of
       E_sending m \<Rightarrow> echo_writer_run (e\<lparr>e_write_msgs := tl (e_write_msgs e), e_sent := e_sent e @ [m]\<rparr>)
     | _ \<Rightarrow> e)"
| "echo_handle (E_send_failed ok) e = e\<lparr>e_writer := (if ok then E_closing else E_done)\<rparr>"
| "echo_handle E_reader_closed e = e\<lparr>e_reader := R_done, e_closes := Suc (e_closes e)\<rparr>"
| "echo_handle E_writer_closed e = e\<lparr>e_writer := E_done, e_closes := Suc (e_closes e)\<rparr>"

fun echo_run :: "echo_event list \<Rightarrow> echo_client \<Rightarrow> echo_client option" where
  "echo_run [] e = Some e"
| "echo_run (v # vs) e = (if echo_enabled v e then echo_run vs (echo_handle v e) else None)"

section \<open>Properties\<close>

lemma echo_writer_run_eq:
  assumes "\<forall>h. e_event e \<noteq> Ar_waiter h"
  shows "echo_writer_run e = (case e_write_msgs e of [] \<Rightarrow> e\<lparr>e_event := Ar_waiter 0, e_writer := E_waiting\<rparr>
    | m # ms \<Rightarrow> e\<lparr>e_writer := E_sending m\<rparr>)"
proof -
  have "echo_writer_run t = t\<lparr>e_event := Ar_waiter 0, e_writer := E_waiting\<rparr>"
    if "e_write_msgs t = []" "e_event t = Ar_not_set" for t
    using that by (subst echo_writer_run.simps) (simp add: ar_await_suspend_def)
  from this [of "e\<lparr>e_event := Ar_not_set\<rparr>"] this [of e] assms show ?thesis
    by (cases "e_event e") (subst echo_writer_run.simps, simp add: ar_await_suspend_def split: list.split)+
qed

text \<open>A writer that waits has an empty list, and a writer that sends has a non-empty one.\<close>

definition echo_inv :: "echo_client \<Rightarrow> bool" where
  "echo_inv e \<longleftrightarrow> set (e_write_msgs e) \<subseteq> set (e_received e) \<and> set (e_sent e) \<subseteq> set (e_received e) \<and>
    (case e_writer e of
       E_waiting \<Rightarrow> e_write_msgs e = [] \<and> e_event e = Ar_waiter 0
     | E_sending m \<Rightarrow> m \<in> set (e_received e) \<and> e_write_msgs e \<noteq> [] \<and> (\<forall>h. e_event e \<noteq> Ar_waiter h)
     | _ \<Rightarrow> \<forall>h. e_event e \<noteq> Ar_waiter h)"

definition echo_step :: "echo_client \<Rightarrow> echo_client \<Rightarrow> bool" where
  "echo_step e e' \<longleftrightarrow> (\<exists>v. echo_enabled v e \<and> e' = echo_handle v e)"

lemma echo_event_set_eq:
  "echo_event_set e = (if \<exists>h. e_event e = Ar_waiter h then echo_writer_run (e\<lparr>e_event := Ar_not_set\<rparr>) else e\<lparr>e_event := Ar_set\<rparr>)"
  by (cases "e_event e") (simp_all add: echo_event_set_def ar_set_exchange_def ar_set_reset_def)

lemma echo_inv_step:
  assumes "echo_inv e" and "echo_step e e'"
  shows "echo_inv e'"
proof -
  from assms(2) obtain v where v: "echo_enabled v e" "e' = echo_handle v e" by (auto simp: echo_step_def)
  show ?thesis
  proof (cases v)
    case (E_received bytes)
    with v assms(1) show ?thesis
      by (cases "e_event e"; cases "e_writer e") (auto simp: echo_event_set_eq echo_writer_run_eq echo_inv_def)
  next
    case E_sent
    with v obtain m where m: "e_writer e = E_sending m" by auto
    let ?e = "e\<lparr>e_write_msgs := tl (e_write_msgs e), e_sent := e_sent e @ [m]\<rparr>"
    have "set (tl (e_write_msgs e)) \<subseteq> set (e_received e)"
      using assms(1) by (cases "e_write_msgs e") (auto simp: echo_inv_def)
    with assms(1) m have "echo_inv (echo_writer_run ?e)"
      by (cases "tl (e_write_msgs e)") (auto simp: echo_writer_run_eq echo_inv_def)
    with E_sent v m show ?thesis by simp
  qed (use v assms(1) in \<open>auto simp: echo_inv_def split: echo_writer_at.splits\<close>)
qed

lemma echo_inv_start: "echo_inv echo_client_start"
  by (simp add: echo_client_start_def echo_writer_run_eq auto_reset_event_new_def echo_inv_def)

interpretation echo_system: step_system "\<lambda>e. e = echo_client_start" echo_step echo_inv
  by unfold_locales (auto simp: echo_inv_start intro: echo_inv_step)

text \<open>
  The writer never pops an empty list, and sends nothing but what was received.
\<close>

theorem echo_revised_safe:
  assumes "reaches (\<lambda>e. e = echo_client_start) echo_step e"
  shows "(echo_enabled E_sent e \<longrightarrow> e_write_msgs e \<noteq> []) \<and> set (e_sent e) \<subseteq> set (e_received e)"
  using echo_system.inv_reaches [OF assms] by (auto simp: echo_inv_def split: echo_writer_at.splits)

lemma echo_run_append: "echo_run (xs @ ys) e = (case echo_run xs e of None \<Rightarrow> None | Some e' \<Rightarrow> echo_run ys e')"
  by (induction xs arbitrary: e) auto

lemma echo_turn:
  assumes "e_writer e = E_waiting" and "e_event e = Ar_waiter 0" and "e_write_msgs e = []"
    and "e_reader e = R_receiving" and "m \<noteq> []"
  shows "echo_run [E_received m, E_sent] e = Some (e\<lparr>e_received := e_received e @ [m], e_sent := e_sent e @ [m]\<rparr>)"
  using assms by (simp add: echo_event_set_eq echo_writer_run_eq)

lemma echo_turns:
  assumes "e_writer e = E_waiting" and "e_event e = Ar_waiter 0" and "e_write_msgs e = []"
    and "e_reader e = R_receiving" and "[] \<notin> set ms"
  shows "echo_run (concat (map (\<lambda>m. [E_received m, E_sent]) ms)) e =
    Some (e\<lparr>e_received := e_received e @ ms, e_sent := e_sent e @ ms\<rparr>)"
  using assms
proof (induction ms arbitrary: e)
  case (Cons m ms)
  let ?e = "e\<lparr>e_received := e_received e @ [m], e_sent := e_sent e @ [m]\<rparr>"
  have "echo_run [E_received m, E_sent] e = Some ?e" using Cons.prems by (intro echo_turn) auto
  moreover have "echo_run (concat (map (\<lambda>m. [E_received m, E_sent]) ms)) ?e =
      Some (?e\<lparr>e_received := e_received ?e @ ms, e_sent := e_sent ?e @ ms\<rparr>)"
    using Cons.prems by (intro Cons.IH) simp_all
  ultimately show ?case
    by (simp add: echo_run_append [of "[E_received m, E_sent]" "concat (map (\<lambda>m. [E_received m, E_sent]) ms)" e,
          unfolded append.simps] del: echo_run.simps)
qed simp

text \<open>
  The revised echo server echoes only a patient client. When every \<open>send\<close> completes before the next
  data arrives, it sends what it received. When a second buffer arrives during a \<open>send\<close>, it is put in
  front of the list and dropped by the \<open>pop_front\<close> meant for the first, which is sent again in
  its place: the client receives the first buffer twice and the second never.
\<close>

theorem echo_revised_echoes_or_corrupts:
  assumes "[] \<notin> set ms" and "x \<noteq> []" and "y \<noteq> []"
  shows "\<exists>e. echo_run (concat (map (\<lambda>m. [E_received m, E_sent]) ms)) echo_client_start = Some e \<and>
      e_received e = ms \<and> e_sent e = ms \<and>
      (\<exists>e'. echo_run [E_received x, E_received y, E_sent, E_sent] e = Some e' \<and>
        e_received e' = ms @ [x, y] \<and> e_sent e' = ms @ [x, x] \<and> e_write_msgs e' = [])"
proof -
  have s: "e_writer echo_client_start = E_waiting" "e_event echo_client_start = Ar_waiter 0"
      "e_write_msgs echo_client_start = []" "e_reader echo_client_start = R_receiving"
      "e_received echo_client_start = []" "e_sent echo_client_start = []"
    by (simp_all add: echo_client_start_def echo_writer_run_eq auto_reset_event_new_def)
  let ?e = "echo_client_start\<lparr>e_received := ms, e_sent := ms\<rparr>"
  have "echo_run (concat (map (\<lambda>m. [E_received m, E_sent]) ms)) echo_client_start = Some ?e"
    using echo_turns [OF s(1-4) assms(1)] s(5,6) by simp
  moreover have "\<exists>e'. echo_run [E_received x, E_received y, E_sent, E_sent] ?e = Some e' \<and>
        e_received e' = ms @ [x, y] \<and> e_sent e' = ms @ [x, x] \<and> e_write_msgs e' = []"
    using assms s by (simp add: echo_event_set_eq echo_writer_run_eq)
  ultimately show ?thesis by auto
qed

theorem echo_revised_echoes_or_corrupts_witness:
  "\<exists>e. echo_run [E_received [1], E_sent] echo_client_start = Some e \<and> e_sent e = [[1]] \<and>
    (\<exists>e'. echo_run [E_received [2], E_received [3], E_sent, E_sent] e = Some e' \<and> e_sent e' = [[1], [2], [2]])"
  using echo_revised_echoes_or_corrupts [of "[[1]]" "[2]" "[3]"] by (auto simp del: echo_run.simps)

text \<open>Both coroutines run \<open>stop\<close>, and with it \<open>::close\<close> on the same descriptor number.\<close>

theorem echo_revised_closes_twice:
  "\<exists>e. echo_run [E_received [1], E_read_failed True, E_send_failed True, E_reader_closed, E_writer_closed] echo_client_start = Some e \<and>
    e_closes e = 2 \<and> e_reader e = R_done \<and> e_writer e = E_done"
  by (simp add: echo_client_start_def echo_event_set_eq echo_writer_run_eq auto_reset_event_new_def)

end
