(* ===== verification/Ttcp.thy ===== *)
theory Ttcp
  imports Simple_Servers WS_Frame
begin

text \<open>
  The throughput test of \<open>example/ttcp\<close>: the client announces a number of payloads and their length, sends
  the payloads, each with its length in front, and waits for an acknowledgement after each; the server
  checks the lengths and acknowledges. The two integers of the announcement travel in network
  order, the length of a payload and the acknowledgement in the order of the host.
\<close>

section \<open>Integers in memory\<close>

definition load32 :: "u8 list \<Rightarrow> u32" where
  "load32 bs = ucast (bs ! 0) OR push_bit 8 (ucast (bs ! 1)) OR push_bit 16 (ucast (bs ! 2)) OR push_bit 24 (ucast (bs ! 3))"

definition ntohl :: "u32 \<Rightarrow> u32" where
  "ntohl = htonl"

section \<open>The server\<close>

text \<open>
  The loop over the payloads. \<open>len_mem\<close> is the memory of \<open>ttcp_payload_len\<close>. The result is False for a
  \<open>co_return\<close>, which leaves the coroutine, and True when all payloads were received.
\<close>

fun ttcp_server_loop :: "nat \<Rightarrow> u32 \<Rightarrow> u8 list \<Rightarrow> u8 list \<Rightarrow> bool co" where
  "ttcp_server_loop 0 len len_mem payload_buf = co_return True"
| "ttcp_server_loop (Suc n) len len_mem payload_buf =
    co_await (co_recv False 0 4 len_mem) (\<lambda>(len_mem, read_bytes).
    if read_bytes \<noteq> 4 \<or> load32 len_mem \<noteq> len then co_return False
    else
      co_await (co_recv False 0 (length payload_buf) payload_buf) (\<lambda>(payload_buf, read_bytes).
      co_await (co_send [le_bytes (load32 len_mem)]) (\<lambda>sent_bytes.
      if sent_bytes \<noteq> 4 then co_return False
      else ttcp_server_loop n len len_mem payload_buf)))"

definition ttcp_server :: "unit co" where
  "ttcp_server =
    co_await
      (try_catch
        (co_await (co_recv False 0 8 (replicate 8 0)) (\<lambda>(message, read_bytes).
         let number = ntohl (load32 (take 4 message)); len = ntohl (load32 (drop 4 message)) in
         if read_bytes \<noteq> 8 then co_return False
         else if \<not> sint number > 0 then co_return False
         else if sint len < 0 then co_throw Length_error
         else ttcp_server_loop (unat number) len (le_bytes len) (replicate (unat len) 0)))
        (\<lambda>e. co_return True))
      (\<lambda>go_on. if go_on then hang_up else socket_destructor)"

section \<open>The client\<close>

definition digits :: "u8 list" where
  "digits = [49, 50, 51, 52, 53, 54, 55, 56, 57, 48]"

text \<open>
  The payload: a block from \<open>malloc\<close> with arbitrary contents, the length at its start and \<open>message_length\<close>
  characters behind it, where \<open>message_length\<close> is the variable that was converted to network
  order before. Writing behind the block is undefined.
\<close>

definition make_payload :: "u8 list \<Rightarrow> u32 \<Rightarrow> u8 list checked" where
  "make_payload block message_length =
    (let block = write_at 0 (le_bytes (htonl message_length)) block; count = nat (sint message_length) in
     if 4 + count \<le> length block then Val (write_at 4 (map (\<lambda>i. digits ! (i mod 10)) [0..<count]) block)
     else Undefined)"

fun ttcp_client_loop :: "nat \<Rightarrow> u32 \<Rightarrow> u8 list \<Rightarrow> bool co" where
  "ttcp_client_loop 0 message_length payload = co_return True"
| "ttcp_client_loop (Suc n) message_length payload =
    co_await (co_send [payload]) (\<lambda>sent_bytes.
    co_await (co_recv False 0 4 (le_bytes 0)) (\<lambda>(ack, read_bytes).
    if ntohl (load32 ack) \<noteq> message_length then co_return False
    else ttcp_client_loop n message_length payload))"

definition ttcp_client :: "(nat \<Rightarrow> u8 list option) \<Rightarrow> sockaddr_in \<Rightarrow> u32 \<Rightarrow> u32 \<Rightarrow> unit co" where
  "ttcp_client malloc address number len =
    co_await
      (try_catch
        (co_await co_init (\<lambda>_.
         co_await (co_connect None address) (\<lambda>_.
         let message_length = htonl len; message_number = htonl number in
         co_await (co_send [le_bytes message_number @ le_bytes message_length]) (\<lambda>sent_bytes.
         let ttcp_payload_bytes = 4 + unat (ntohl message_length) in
         case malloc ttcp_payload_bytes of
           None \<Rightarrow> (\<lambda>c. Undefined_behaviour)
         | Some block \<Rightarrow>
             (case make_payload block message_length of
                Undefined \<Rightarrow> (\<lambda>c. Undefined_behaviour)
              | Val payload \<Rightarrow> ttcp_client_loop (unat (ntohl message_number)) message_length payload)))))
        (\<lambda>e. co_return True))
      (\<lambda>go_on. if go_on then hang_up else socket_destructor)"

section \<open>Byte order\<close>

lemma le_bytes_simp: "le_bytes w = [ucast w, ucast (drop_bit 8 w), ucast (drop_bit 16 w), ucast (drop_bit 24 w)]"
  by (simp add: le_bytes_def upt_rec)

lemma length_le_bytes4 [simp]: "length (le_bytes w) = 4"
  by (simp add: le_bytes_simp)

lemma u32_eqI:
  fixes x y :: u32
  assumes "\<And>n. n < 8 \<Longrightarrow> bit x n = bit y n" and "\<And>n. n < 8 \<Longrightarrow> bit x (8 + n) = bit y (8 + n)"
    and "\<And>n. n < 8 \<Longrightarrow> bit x (16 + n) = bit y (16 + n)" and "\<And>n. n < 8 \<Longrightarrow> bit x (24 + n) = bit y (24 + n)"
  shows "x = y"
proof (rule bit_word_eqI)
  fix n assume "n < LENGTH(32)"
  then consider "n < 8" | "n - 8 < 8 \<and> n = 8 + (n - 8)" | "n - 16 < 8 \<and> n = 16 + (n - 16)" | "n - 24 < 8 \<and> n = 24 + (n - 24)"
    by force
  then show "bit x n = bit y n" by cases (use assms in metis)+
qed

lemma load32_le_bytes [simp]: "load32 (le_bytes w) = w"
  by (rule u32_eqI) (auto simp: load32_def le_bytes_simp bit_simps)

lemma le_bytes_htonl: "le_bytes (htonl w) = rev (le_bytes w)"
proof -
  have "ucast (htonl w) = (ucast (drop_bit 24 w) :: u8)" "ucast (drop_bit 8 (htonl w)) = (ucast (drop_bit 16 w) :: u8)"
      "ucast (drop_bit 16 (htonl w)) = (ucast (drop_bit 8 w) :: u8)" "ucast (drop_bit 24 (htonl w)) = (ucast w :: u8)"
    by (auto intro!: u8_eqI simp: htonl_def bit_simps)
  then show ?thesis by (simp add: le_bytes_simp)
qed

lemma htonl_htonl [simp]: "htonl (htonl w) = w"
proof -
  have "load32 (le_bytes (htonl (htonl w))) = load32 (le_bytes w)" by (simp only: le_bytes_htonl rev_rev_ident)
  then show ?thesis by simp
qed

lemma load32_rev_le_bytes [simp]: "load32 (rev (le_bytes w)) = htonl w"
  by (simp only: le_bytes_htonl [symmetric] load32_le_bytes)

section \<open>A session\<close>

text \<open>A transfer that the kernel completes, whatever its pieces.\<close>

lemma recv_completes:
  assumes "moves_only (c_answers c)" and "0 < len" and "len < 2 ^ 31" and "length mem = len"
    and "len \<le> length (c_answers c)" and "len \<le> length (c_in c)"
  shows "\<exists>as. co_recv False 0 len mem c = Returns (take len (c_in c), of_nat len) (c\<lparr>c_in := drop len (c_in c), c_answers := as\<rparr>) \<and>
    moves_only as \<and> length (c_answers c) \<le> length as + len"
proof -
  from stream_moves_all [OF assms(1,2,5,6)] obtain as where as:
    "stream_moves (c_answers c) (length (c_in c)) len = (len, All_moved, as)" "moves_only as" "length (c_answers c) \<le> length as + len"
    by blast
  have "write_at 0 (take len (c_in c)) mem = take len (c_in c)" using assms(4,6) by (simp add: write_at_def)
  with co_recv_all [OF assms(2,3) _ _ as(1), of 0 mem] assms(3,4) as show ?thesis by auto
qed

lemma send_completes:
  assumes "moves_only (c_answers c)" and "b \<noteq> []" and "length b < 2 ^ 31" and "length b \<le> length (c_answers c)"
  shows "\<exists>as. co_send [b] c = Returns (of_nat (length b)) (c\<lparr>c_sent := c_sent c @ b, c_answers := as\<rparr>) \<and>
    moves_only as \<and> length (c_answers c) \<le> length as + length b"
proof -
  from assms(2) have "0 < length b" by simp
  from stream_moves_all [OF assms(1) this assms(4) order_refl] obtain as where as:
    "stream_moves (c_answers c) (length b) (length b) = (length b, All_moved, as)" "moves_only as"
    "length (c_answers c) \<le> length as + length b" by blast
  with co_send_all [of "[b]" c "length b" All_moved as] assms(2,3) show ?thesis by auto
qed

lemma ttcp_server_loop_acks:
  assumes "moves_only (c_answers c)" and "list_all (\<lambda>p. length p = unat len) ps" and "0 < unat len" and "unat len < 2 ^ 31"
    and "length ps * (8 + unat len) \<le> length (c_answers c)" and "length len_mem = 4" and "length buf = unat len"
    and "c_in c = concat (map ((@) (le_bytes len)) ps) @ rest"
  shows "\<exists>as. ttcp_server_loop (length ps) len len_mem buf c = Returns True
      (c\<lparr>c_in := rest, c_sent := c_sent c @ concat (replicate (length ps) (le_bytes len)), c_answers := as\<rparr>) \<and>
    moves_only as \<and> length (c_answers c) \<le> length as + length ps * (8 + unat len)"
  using assms
proof (induction ps arbitrary: c len_mem buf)
  case (Cons p ps)
  let ?L = "unat len" and ?tail = "concat (map ((@) (le_bytes len)) ps) @ rest"
  have p: "length p = ?L" using Cons.prems(2) by simp
  obtain as1 where r1: "co_recv False 0 4 len_mem c = Returns (le_bytes len, 4) (c\<lparr>c_in := p @ ?tail, c_answers := as1\<rparr>)"
      "moves_only as1" "length (c_answers c) \<le> length as1 + 4"
    using recv_completes [of c 4 len_mem] Cons.prems p by auto
  let ?c1 = "c\<lparr>c_in := p @ ?tail, c_answers := as1\<rparr>"
  obtain as2 where r2: "co_recv False 0 ?L buf ?c1 = Returns (p, of_nat ?L) (?c1\<lparr>c_in := ?tail, c_answers := as2\<rparr>)"
      "moves_only as2" "length as1 \<le> length as2 + ?L"
    using recv_completes [of ?c1 ?L buf] Cons.prems r1 p by auto
  let ?c2 = "?c1\<lparr>c_in := ?tail, c_answers := as2\<rparr>"
  have nn: "le_bytes len \<noteq> []" by (simp add: le_bytes_simp)
  obtain as3 where r3: "co_send [le_bytes len] ?c2 = Returns 4 (?c2\<lparr>c_sent := c_sent c @ le_bytes len, c_answers := as3\<rparr>)"
      "moves_only as3" "length as2 \<le> length as3 + 4"
    using send_completes [of ?c2 "le_bytes len"] r1 r2 nn Cons.prems by auto
  let ?c3 = "?c2\<lparr>c_sent := c_sent c @ le_bytes len, c_answers := as3\<rparr>"
  have "ttcp_server_loop (length (p # ps)) len len_mem buf c = ttcp_server_loop (length ps) len (le_bytes len) p ?c3"
    using r1 r2 r3 Cons.prems(7) by (simp add: co_await_def)
  moreover from Cons.IH [of ?c3 "le_bytes len" p] obtain as where
    "ttcp_server_loop (length ps) len (le_bytes len) p ?c3 = Returns True
      (?c3\<lparr>c_in := rest, c_sent := c_sent ?c3 @ concat (replicate (length ps) (le_bytes len)), c_answers := as\<rparr>)"
    "moves_only as" "length as3 \<le> length as + length ps * (8 + ?L)"
    using Cons.prems r1 r2 r3 p by auto
  ultimately show ?case using r1(3) r2(3) r3(3) by auto
next
  case Nil
  then show ?case by (intro exI [of _ "c_answers c"]) (cases c, auto)
qed

text \<open>What the client of the protocol sends: the announcement and the payloads.\<close>

definition ttcp_stream :: "u32 \<Rightarrow> u8 list list \<Rightarrow> u8 list" where
  "ttcp_stream len ps = rev (le_bytes (of_nat (length ps))) @ rev (le_bytes len) @ concat (map ((@) (le_bytes len)) ps)"

lemma unat_of_nat32: "n < 2 ^ 32 \<Longrightarrow> unat (of_nat n :: u32) = n"
  by (simp add: unsigned_of_nat take_bit_nat_eq_self)

text \<open>
  The server accepts the protocol. If the kernel completes transfers without errors, of any sizes, and the
  client sends an announcement of at least one payload of positive length and then as many payloads
  of that length, the server acknowledges each payload with its length, reads the whole stream and
  hangs up.
\<close>

theorem ttcp_server_acknowledges:
  assumes "moves_only (c_answers c)" and "c_in c = ttcp_stream len ps"
    and "list_all (\<lambda>p. length p = unat len) ps" and "ps \<noteq> []" and "length ps < 2 ^ 31"
    and "0 < unat len" and "unat len < 2 ^ 31"
    and "9 + length ps * (8 + unat len) \<le> length (c_answers c)"
    and "\<not> sys_fails (c_kernel c) (Sys_shutdown (m_fd (c_socket c)) SHUT_WR) (c_trace c)" and "valid (c_socket c)"
  shows "\<exists>c'. ttcp_server c = Returns () c' \<and> c_in c' = [] \<and>
    c_sent c' = c_sent c @ concat (replicate (length ps) (le_bytes len)) \<and>
    c_trace c' = c_trace c @ [Sys_shutdown (m_fd (c_socket c)) SHUT_WR,
      Sys_close (m_fd (c_socket c)), Sys_close (m_fd (c_socket c))]"
proof -
  let ?m = "rev (le_bytes (of_nat (length ps))) @ rev (le_bytes len)" and ?tail = "concat (map ((@) (le_bytes len)) ps)"
  have n: "unat (of_nat (length ps) :: u32) = length ps" using assms(5) by (intro unat_of_nat32) simp
  have sn: "sint (of_nat (length ps) :: u32) = int (length ps)" using n assms(5) by (simp add: sint_small)
  have sl: "sint len = int (unat len)" using assms(7) by (rule sint_small)
  obtain as1 where r1: "co_recv False 0 8 (replicate 8 0) c = Returns (?m, 8) (c\<lparr>c_in := ?tail, c_answers := as1\<rparr>)"
      "moves_only as1" "length (c_answers c) \<le> length as1 + 8"
    using recv_completes [of c 8 "replicate 8 0"] assms(1,2,8) by (auto simp: ttcp_stream_def)
  let ?c1 = "c\<lparr>c_in := ?tail, c_answers := as1\<rparr>"
  obtain as where l: "ttcp_server_loop (length ps) len (le_bytes len) (replicate (unat len) 0) ?c1 = Returns True
      (?c1\<lparr>c_in := [], c_sent := c_sent c @ concat (replicate (length ps) (le_bytes len)), c_answers := as\<rparr>)"
      "moves_only as" "length as1 \<le> length as + length ps * (8 + unat len)"
    using ttcp_server_loop_acks [of ?c1 len ps "le_bytes len" "replicate (unat len) 0" "[]"] r1 assms(3,6,7,8) by auto
  let ?c2 = "?c1\<lparr>c_in := [], c_sent := c_sent c @ concat (replicate (length ps) (le_bytes len)), c_answers := as\<rparr>"
  have "ttcp_server c = hang_up ?c2"
    using r1(1) l(1) n sn sl assms(4)
    by (simp add: ttcp_server_def co_await_def try_catch_def ntohl_def)
  moreover from l(2,3) r1(3) assms(8) obtain k as' where "as = Move k # as'" by (cases as) auto
  then have "fst (snd (drain (c_answers ?c2) (length (c_in ?c2)))) = Ended" by simp
  from hang_up_closes_twice [OF _ this] assms(9,10) have "\<exists>c'. hang_up ?c2 = Returns () c' \<and> c_sent c' = c_sent ?c2 \<and> c_in c' = [] \<and>
    c_trace c' = c_trace c @ [Sys_shutdown (m_fd (c_socket c)) SHUT_WR,
      Sys_close (m_fd (c_socket c)), Sys_close (m_fd (c_socket c))]" by (simp add: fd_get_def)
  ultimately show ?thesis by auto
qed

theorem ttcp_server_acknowledges_witness:
  "\<exists>c'. ttcp_server (sample_conn (ttcp_stream 2 [[5, 6], [7, 8]]) (replicate 30 (Move 2))) = Returns () c' \<and>
    c_sent c' = [2, 0, 0, 0, 2, 0, 0, 0]"
proof -
  let ?c = "sample_conn (ttcp_stream 2 [[5, 6], [7, 8]]) (replicate 30 (Move 2))"
  have "moves_only (replicate 30 (Move 2))" by (simp add: moves_only_def list_all_iff)
  moreover have "le_bytes 2 = [2, 0, 0, 0]" by (simp add: le_bytes_simp)
  ultimately show ?thesis
    using ttcp_server_acknowledges [of ?c 2 "[[5, 6], [7, 8]]"] by auto
qed

section \<open>The client's side\<close>

lemma client_connects:
  assumes "c_socket c = socket_new" and "\<not> sys_fails (c_kernel c) socket_call (c_trace c)" and "c_answers c = Move n # as"
  obtains f tr where "co_await co_init (\<lambda>_. co_await (co_connect None address) k) c = k () (c\<lparr>c_trace := tr, c_answers := as, c_socket := f\<rparr>)"
proof -
  obtain f1 tr where i: "co_init c = Returns () (c\<lparr>c_socket := f1, c_trace := tr\<rparr>)"
    using assms(1,2)
    by (auto simp: co_init_def co_sync_def init_throw_def throwing_def init_ec_def fd_get_def socket_new_def
        sync_operation_succeeds)
  let ?c1 = "c\<lparr>c_socket := f1, c_trace := tr\<rparr>"
  obtain f where "co_connect None address ?c1 = Returns () (?c1\<lparr>c_answers := as, c_socket := f\<rparr>)"
    using assms(3) connect_result [where e = None and r = 0 and s = "Some 1" and d = None and p = address and a = 64 and f = f1]
    by (auto simp: co_connect_def Let_def split: prod.splits)
  with i that show thesis by (auto simp: co_await_def)
qed

lemma ttcp_client_loop_sends:
  assumes "moves_only (c_answers c)" and "payload \<noteq> []" and "length payload < 2 ^ 31"
    and "n * (4 + length payload) \<le> length (c_answers c)"
    and "c_in c = concat (replicate n (le_bytes len)) @ rest"
  shows "\<exists>as. ttcp_client_loop n (htonl len) payload c = Returns True
      (c\<lparr>c_in := rest, c_sent := c_sent c @ concat (replicate n payload), c_answers := as\<rparr>) \<and>
    moves_only as \<and> length (c_answers c) \<le> length as + n * (4 + length payload)"
  using assms
proof (induction n arbitrary: c)
  case 0
  then show ?case by (intro exI [of _ "c_answers c"]) (cases c, auto)
next
  case (Suc n)
  let ?tail = "concat (replicate n (le_bytes len)) @ rest"
  obtain as1 where r1: "co_send [payload] c = Returns (of_nat (length payload)) (c\<lparr>c_sent := c_sent c @ payload, c_answers := as1\<rparr>)"
      "moves_only as1" "length (c_answers c) \<le> length as1 + length payload"
    using send_completes [of c payload] Suc.prems by auto
  let ?c1 = "c\<lparr>c_sent := c_sent c @ payload, c_answers := as1\<rparr>"
  obtain as2 where r2: "co_recv False 0 4 (le_bytes 0) ?c1 = Returns (le_bytes len, 4) (?c1\<lparr>c_in := ?tail, c_answers := as2\<rparr>)"
      "moves_only as2" "length as1 \<le> length as2 + 4"
    using recv_completes [of ?c1 4 "le_bytes 0"] r1 Suc.prems by auto
  let ?c2 = "?c1\<lparr>c_in := ?tail, c_answers := as2\<rparr>"
  from Suc.IH [of ?c2] Suc.prems r1(3) r2 obtain as where
    "ttcp_client_loop n (htonl len) payload ?c2 = Returns True
      (?c2\<lparr>c_in := rest, c_sent := c_sent ?c2 @ concat (replicate n payload), c_answers := as\<rparr>)"
    "moves_only as" "length as2 \<le> length as + n * (4 + length payload)" by auto
  with r1 r2 show ?case by (auto simp: co_await_def ntohl_def)
qed

lemma make_payload_cases:
  assumes "length block = 4 + unat len"
  shows "\<not> nat (sint (htonl len)) \<le> unat len \<Longrightarrow> make_payload block (htonl len) = Undefined"
    and "nat (sint (htonl len)) \<le> unat len \<Longrightarrow>
      \<exists>data. make_payload block (htonl len) = Val (le_bytes len @ data) \<and> length data = unat len"
proof -
  let ?b = "write_at 0 (le_bytes len) block" and ?n = "nat (sint (htonl len))"
  let ?b' = "write_at 4 (map (\<lambda>i. digits ! (i mod 10)) [0..<?n]) ?b"
  have l: "length ?b = 4 + unat len" using assms by simp
  then show "make_payload block (htonl len) = Undefined" if "\<not> nat (sint (htonl len)) \<le> unat len"
    using that by (simp add: make_payload_def Let_def)
  assume "nat (sint (htonl len)) \<le> unat len"
  then have n: "?n \<le> unat len" by simp
  then have "make_payload block (htonl len) = Val ?b'" using l by (simp add: make_payload_def Let_def)
  moreover have "take 4 ?b' = le_bytes len" using n l assms by (simp add: take_write_at) (simp add: write_at_def)
  then have "?b' = le_bytes len @ drop 4 ?b'" by (metis append_take_drop_id)
  moreover have "length (drop 4 ?b') = unat len" using n l by simp
  ultimately show "\<exists>data. make_payload block (htonl len) = Val (le_bytes len @ data) \<and> length data = unat len" by metis
qed

text \<open>
  C23: The client either sends its stream or leaves its memory. It fills its payload under the
  control of a length that it has already converted to network order. If that number, as a signed
  integer, is at most the length, the client sends exactly the header of the session and the payloads, each
  behind its length, waiting for an acknowledgement after each, and hangs up; otherwise it writes behind the block it allocated,
  for example for every length from 1 to 127.
\<close>

theorem ttcp_client_sends_or_overruns:
  assumes "c_socket c = socket_new" and "\<not> sys_fails (c_kernel c) socket_call (c_trace c)" and "c_answers c = Move n # as"
    and "moves_only as" and "8 + unat number * (8 + unat len) \<le> length as"
    and "malloc (4 + unat len) = Some block" and "length block = 4 + unat len" and "unat len < 2 ^ 31 - 4"
    and "c_in c = concat (replicate (unat number) (le_bytes len))"
  shows "if nat (sint (htonl len)) \<le> unat len
    then \<exists>c' data. length data = unat len \<and> c_sent c' = c_sent c @ ttcp_stream len (replicate (unat number) data) \<and>
      c_in c' = [] \<and> ttcp_client malloc address number len c = hang_up c'
    else ttcp_client malloc address number len c = Undefined_behaviour"
proof -
  let ?m = "le_bytes (htonl number) @ le_bytes (htonl len)"
  let ?k = "\<lambda>_. co_await (co_send [?m]) (\<lambda>sent_bytes. case make_payload block (htonl len) of
      Undefined \<Rightarrow> (\<lambda>c. Undefined_behaviour)
    | Val payload \<Rightarrow> ttcp_client_loop (unat number) (htonl len) payload)"
  obtain f tr where conn: "co_await co_init (\<lambda>_. co_await (co_connect None address) ?k) c = ?k () (c\<lparr>c_trace := tr, c_answers := as, c_socket := f\<rparr>)"
    by (rule client_connects [OF assms(1-3)])
  let ?c1 = "c\<lparr>c_trace := tr, c_answers := as, c_socket := f\<rparr>"
  obtain as2 where s: "co_send [?m] ?c1 = Returns 8 (?c1\<lparr>c_sent := c_sent c @ ?m, c_answers := as2\<rparr>)"
      "moves_only as2" "length as \<le> length as2 + 8"
    using send_completes [of ?c1 ?m] assms(4,5) by (auto simp: le_bytes_simp)
  let ?c2 = "?c1\<lparr>c_sent := c_sent c @ ?m, c_answers := as2\<rparr>"
  have client: "ttcp_client malloc address number len = co_await (try_catch (co_await co_init (\<lambda>_. co_await (co_connect None address) ?k))
      (\<lambda>e. co_return True)) (\<lambda>go_on. if go_on then hang_up else socket_destructor)"
    unfolding ttcp_client_def ntohl_def Let_def htonl_htonl using assms(6) by simp
  show ?thesis
  proof (cases "nat (sint (htonl len)) \<le> unat len")
    case True
    with make_payload_cases(2) [OF assms(7)] obtain data where d:
      "make_payload block (htonl len) = Val (le_bytes len @ data)" "length data = unat len" by blast
    have bounds: "le_bytes len @ data \<noteq> []" "length (le_bytes len @ data) < 2 ^ 31"
        "unat number * (4 + length (le_bytes len @ data)) \<le> length (c_answers ?c2)" "moves_only (c_answers ?c2)"
      using d(2) assms(5,8) s(2,3) by (auto simp: le_bytes_simp)
    obtain as3 where l: "ttcp_client_loop (unat number) (htonl len) (le_bytes len @ data) ?c2 = Returns True
      (?c2\<lparr>c_in := [], c_sent := c_sent ?c2 @ concat (replicate (unat number) (le_bytes len @ data)), c_answers := as3\<rparr>)"
      using ttcp_client_loop_sends [OF bounds(4,1,2,3), of len "[]"] assms(9) by auto
    let ?c3 = "?c2\<lparr>c_in := [], c_sent := c_sent ?c2 @ concat (replicate (unat number) (le_bytes len @ data)), c_answers := as3\<rparr>"
    have "ttcp_client malloc address number len c = hang_up ?c3"
      unfolding client using conn s(1) d(1) l by (simp add: co_await_def try_catch_def)
    moreover have "c_sent ?c3 = c_sent c @ ttcp_stream len (replicate (unat number) data)"
      by (simp add: ttcp_stream_def le_bytes_htonl)
    ultimately have "\<exists>c' data. length data = unat len \<and> c_sent c' = c_sent c @ ttcp_stream len (replicate (unat number) data) \<and>
      c_in c' = [] \<and> ttcp_client malloc address number len c = hang_up c'"
      using d(2) by (intro exI [of _ ?c3] exI [of _ data] conjI) simp_all
    with True show ?thesis by simp
  next
    case False
    with make_payload_cases(1) [OF assms(7)] conn s(1) show ?thesis
      unfolding client by (simp add: co_await_def try_catch_def)
  qed
qed

lemma htonl_small:
  assumes "unat len < 128"
  shows "nat (sint (htonl len)) = unat len * 2 ^ 24"
proof -
  have b: "\<not> bit len n" if "8 \<le> n" for n
  proof -
    have "unat len < 2 ^ n" using assms power_increasing [OF that, of "2 :: nat"] by simp
    then have "\<not> bit (unat len) n" by (simp add: bit_iff_odd)
    then show ?thesis by (simp add: bit_unsigned_iff)
  qed
  have "\<not> bit (0xFF0000 :: u32) (8 + n)" if "n < 8" for n
  proof -
    from that have "n = 0 \<or> n = 1 \<or> n = 2 \<or> n = 3 \<or> n = 4 \<or> n = 5 \<or> n = 6 \<or> n = 7" by auto
    then show ?thesis by auto
  qed
  then have "htonl len = push_bit 24 len"
    by (intro u32_eqI) (auto simp: htonl_def bit_simps b)
  moreover have "unat (push_bit 24 len) = unat len * 2 ^ 24"
    using assms by (simp add: push_bit_eq_mult unat_mult_lem [THEN iffD1])
  ultimately have "unat (htonl len) = unat len * 2 ^ 24" by (simp only:)
  moreover from this have "sint (htonl len) = int (unat (htonl len))" using assms by (intro sint_small) simp
  ultimately show ?thesis by (simp only: nat_int)
qed

theorem ttcp_client_sends_or_overruns_witness:
  "ttcp_client (\<lambda>n. Some (replicate n 0)) socket_address_default 1 5
     ((sample_conn [5, 0, 0, 0] (replicate 30 (Move 9)))\<lparr>c_socket := socket_new\<rparr>) = Undefined_behaviour"
proof -
  let ?c = "(sample_conn [5, 0, 0, 0] (replicate 30 (Move 9)))\<lparr>c_socket := socket_new\<rparr>"
  have a: "c_answers ?c = Move 9 # replicate 29 (Move 9)" by (simp add: numeral_eq_Suc)
  have m: "moves_only (replicate 29 (Move 9))" by (simp add: moves_only_def list_all_iff)
  have l: "le_bytes 5 = [5, 0, 0, 0]" by (simp add: le_bytes_simp)
  have "nat (sint (htonl 5)) = 5 * 2 ^ 24" using htonl_small [of 5] by simp
  then show ?thesis
    using ttcp_client_sends_or_overruns [OF _ _ a m, of 1 5 "\<lambda>n. Some (replicate n 0)" "replicate 9 0" socket_address_default] l
    by simp
qed

end
