(* ===== verification/Server.thy ===== *)
theory Server
  imports Socket_Async Coro_Join Coro_Awaitable IO_Service
begin

text \<open>
  \<open>example/include/common/server.h\<close>: the server that all examples start. \<open>acceptor\<close> sets up the
  listening socket, spawns a client coroutine in an \<open>async_scope\<close> for every connection, and after a
  failure waits for all clients before it asks the service to stop and throws. Its steps are the
  completions of \<open>accept\<close> and the ends of the client coroutines.
\<close>

section \<open>The acceptor\<close>

datatype acceptor_at = A_accepting | A_joining | A_done

text \<open>
  \<open>sv_clients\<close> are the sockets of the clients that run; \<open>sv_spawned\<close> those of all clients so far, and
  \<open>sv_stop_requests\<close> the calls of \<open>request_stop\<close>, for the proofs.
\<close>

record server =
  sv_listen_socket :: socket_t
  sv_scope :: async_scope
  sv_ex :: "cpp_exn option"
  sv_at :: acceptor_at
  sv_clients :: "socket_t list"
  sv_spawned :: "socket_t list"
  sv_stop_requests :: nat

text \<open>Calls that may throw, one after the other.\<close>

fun in_sequence ::
  "(socket_t \<Rightarrow> trace \<Rightarrow> socket_t \<times> (cpp_exn + unit) \<times> trace) list \<Rightarrow> socket_t \<Rightarrow> trace
    \<Rightarrow> socket_t \<times> (cpp_exn + unit) \<times> trace" where
  "in_sequence [] f tr = (f, Inr (), tr)"
| "in_sequence (call # calls) f tr =
    (case call f tr of
       (f, Inl e, tr) \<Rightarrow> (f, Inl e, tr)
     | (f, Inr u, tr) \<Rightarrow> in_sequence calls f tr)"

definition set_up :: "kernel \<Rightarrow> u16 \<Rightarrow> socket_t \<Rightarrow> trace \<Rightarrow> socket_t \<times> (cpp_exn + unit) \<times> trace" where
  "set_up k port_no = in_sequence
    [init_throw k, reuse_address_throw k, bind_throw k socket_t_modules (socket_address_port port_no), listen_default_throw k]"

text \<open>Behind \<open>co_await scope.join()\<close>: \<open>request_stop\<close>, then the exception is thrown again.\<close>

definition acceptor_finish :: "server \<Rightarrow> server" where
  "acceptor_finish s = s\<lparr>sv_stop_requests := Suc (sv_stop_requests s), sv_at := A_done\<rparr>"

text \<open>The catch block and \<open>co_await scope.join()\<close>; the acceptor's handle is 0.\<close>

definition acceptor_catch :: "cpp_exn \<Rightarrow> server \<Rightarrow> server" where
  "acceptor_catch ex s =
    (let s = s\<lparr>sv_ex := Some ex\<rparr> in
     if join_await_ready (sv_scope s) then acceptor_finish s
     else
       (let (scope, suspended) = join_arrive (join_register 0 (sv_scope s)); s = s\<lparr>sv_scope := scope\<rparr> in
        if suspended then s\<lparr>sv_at := A_joining\<rparr> else acceptor_finish s))"

definition acceptor_start :: "kernel \<Rightarrow> u16 \<Rightarrow> trace \<Rightarrow> server" where
  "acceptor_start k port_no tr =
    (let (listen_socket, result, tr) = set_up k port_no socket_new tr;
         s = \<lparr> sv_listen_socket = listen_socket, sv_scope = async_scope_new, sv_ex = None, sv_at = A_accepting,
               sv_clients = [], sv_spawned = [], sv_stop_requests = 0 \<rparr>
     in case result of Inl e \<Rightarrow> acceptor_catch e s | Inr u \<Rightarrow> s)"

text \<open>
  \<open>accept\<close> completes with a result and, if it is not negative, the address of the peer; a client's
  coroutine ends. Resuming a null handle is undefined.
\<close>

datatype server_event = Accept_completed int sockaddr_in | Client_finished nat

definition acceptor_accept :: "int \<Rightarrow> sockaddr_in \<Rightarrow> server \<Rightarrow> server" where
  "acceptor_accept res peer s =
    (let op = accept_complete res peer (accept (Some 1) None None 64);
         (peer_socket, result) = accept_get_result socket_t_modules op socket_new
     in case result of
          Inl e \<Rightarrow> acceptor_catch e s
        | Inr u \<Rightarrow> s\<lparr>sv_scope := on_work_started (sv_scope s), sv_clients := sv_clients s @ [peer_socket],
            sv_spawned := sv_spawned s @ [peer_socket]\<rparr>)"

definition client_finished :: "nat \<Rightarrow> server \<Rightarrow> server checked" where
  "client_finished i s =
    (let (scope, resumed) = on_work_finished (sv_scope s);
         s = s\<lparr>sv_scope := scope, sv_clients := take i (sv_clients s) @ drop (Suc i) (sv_clients s)\<rparr>
     in case resumed of
          None \<Rightarrow> Val s
        | Some None \<Rightarrow> Undefined
        | Some (Some h) \<Rightarrow> Val (acceptor_finish s))"

fun server_enabled :: "server_event \<Rightarrow> server \<Rightarrow> bool" where
  "server_enabled (Accept_completed res peer) s \<longleftrightarrow> sv_at s = A_accepting \<and> length (sv_clients s) < 2 ^ 31"
| "server_enabled (Client_finished i) s \<longleftrightarrow> i < length (sv_clients s)"

fun server_handle :: "server_event \<Rightarrow> server \<Rightarrow> server checked" where
  "server_handle (Accept_completed res peer) s = Val (acceptor_accept res peer s)"
| "server_handle (Client_finished i) s = client_finished i s"

text \<open>Descriptors are \<open>int\<close>, so that there are never more than \<open>2 ^ 31\<close> clients.\<close>

fun server_run :: "server_event list \<Rightarrow> server \<Rightarrow> server checked option" where
  "server_run [] s = Some (Val s)"
| "server_run (e # es) s =
    (if server_enabled e s then (case server_handle e s of Undefined \<Rightarrow> Some Undefined | Val s' \<Rightarrow> server_run es s') else None)"

section \<open>Properties\<close>

definition server_inv :: "server \<Rightarrow> bool" where
  "server_inv s \<longleftrightarrow> length (sv_clients s) \<le> 2 ^ 31 \<and>
    (case sv_at s of
       A_accepting \<Rightarrow> sv_ex s = None \<and> sv_stop_requests s = 0 \<and>
         as_count (sv_scope s) = of_nat (Suc (length (sv_clients s))) \<and> as_continuation (sv_scope s) = None
     | A_joining \<Rightarrow> sv_ex s \<noteq> None \<and> sv_stop_requests s = 0 \<and> sv_clients s \<noteq> [] \<and>
         as_count (sv_scope s) = of_nat (length (sv_clients s)) \<and> as_continuation (sv_scope s) = Some 0
     | A_done \<Rightarrow> sv_ex s \<noteq> None \<and> sv_stop_requests s = 1 \<and> sv_clients s = [])"

lemma of_nat_size_eq: "m < 2 ^ 64 \<Longrightarrow> n < 2 ^ 64 \<Longrightarrow> (of_nat m :: size_t) = of_nat n \<longleftrightarrow> m = n"
  by (metis unat_of_nat_size)

lemma catch_inv:
  assumes "server_inv s" and "sv_at s = A_accepting"
  shows "server_inv (acceptor_catch e s)" and "sv_spawned (acceptor_catch e s) = sv_spawned s"
    and "sv_ex (acceptor_catch e s) = Some e"
proof -
  let ?n = "length (sv_clients s)"
  from assms have c: "as_count (sv_scope s) = of_nat (Suc ?n)" "?n \<le> 2 ^ 31" by (simp_all add: server_inv_def)
  have "(of_nat (Suc ?n) :: size_t) \<noteq> 0" using of_nat_size_eq [of "Suc ?n" 0] c(2) by simp
  moreover have "(1 :: size_t) < of_nat (Suc ?n) \<longleftrightarrow> ?n \<noteq> 0"
    using c(2) unat_of_nat_size [of "Suc ?n"] by (simp add: word_less_nat_alt)
  ultimately show "server_inv (acceptor_catch e s)" and "sv_spawned (acceptor_catch e s) = sv_spawned s"
    and "sv_ex (acceptor_catch e s) = Some e"
    using assms c
    by (auto simp: acceptor_catch_def Let_def join_await_ready_def join_arrive_def join_register_def acceptor_finish_def server_inv_def)
qed

lemma start_inv: "server_inv (acceptor_start k port_no tr)" "sv_spawned (acceptor_start k port_no tr) = []"
    "sv_ex (acceptor_start k port_no tr) = (case fst (snd (set_up k port_no socket_new tr)) of Inl e \<Rightarrow> Some e | Inr u \<Rightarrow> None)"
proof -
  obtain f r tr' where u: "set_up k port_no socket_new tr = (f, r, tr')" by (metis prod_cases3)
  let ?s = "\<lparr> sv_listen_socket = f, sv_scope = async_scope_new, sv_ex = None, sv_at = A_accepting,
      sv_clients = [], sv_spawned = [], sv_stop_requests = 0 \<rparr>"
  have "server_inv ?s" by (simp add: server_inv_def async_scope_new_def)
  with catch_inv [of ?s] u show "server_inv (acceptor_start k port_no tr)" "sv_spawned (acceptor_start k port_no tr) = []"
    "sv_ex (acceptor_start k port_no tr) = (case fst (snd (set_up k port_no socket_new tr)) of Inl e \<Rightarrow> Some e | Inr u \<Rightarrow> None)"
    by (auto simp: acceptor_start_def Let_def split: sum.splits)
qed

text \<open>What one completion of \<open>accept\<close> contributes.\<close>

fun accepted :: "server_event \<Rightarrow> (int \<times> sockaddr_in) list" where
  "accepted (Accept_completed res peer) = (if res < 0 then [] else [(res, peer)])"
| "accepted (Client_finished i) = []"

fun accept_error :: "server_event \<Rightarrow> cpp_exn option" where
  "accept_error (Accept_completed res peer) = (if res < 0 then Some (System_error (system_code (- res))) else None)"
| "accept_error (Client_finished i) = None"

definition serves :: "socket_t \<Rightarrow> int \<times> sockaddr_in" where
  "serves peer_socket = (m_fd peer_socket, get_peer_address peer_socket)"

lemma accept_step:
  assumes "server_inv s" and "server_enabled (Accept_completed res peer) s"
  shows "server_inv (acceptor_accept res peer s) \<and>
    map serves (sv_spawned (acceptor_accept res peer s)) = map serves (sv_spawned s) @ accepted (Accept_completed res peer) \<and>
    sv_ex (acceptor_accept res peer s) = accept_error (Accept_completed res peer)"
proof (cases "res < 0")
  case True
  let ?e = "System_error (system_code (- res))"
  have "acceptor_accept res peer s = acceptor_catch ?e s"
    using True by (simp add: acceptor_accept_def accept_get_result_def get_error_set_value api_policy_def accept_complete_def Let_def)
  with True assms catch_inv [of s ?e] show ?thesis by simp
next
  case False
  let ?p = "socket_new\<lparr>m_fd := res, m_peer_address := peer\<rparr>"
  have "serves ?p = (res, peer)" by (simp add: serves_def get_peer_address_def)
  moreover have "acceptor_accept res peer s =
      s\<lparr>sv_scope := on_work_started (sv_scope s), sv_clients := sv_clients s @ [?p], sv_spawned := sv_spawned s @ [?p]\<rparr>"
    using False
    by (simp add: acceptor_accept_def accept_get_result_def get_error_set_value api_policy_def accept_complete_def Let_def
        fd_set_def set_peer_address_def socket_address_of_def)
  ultimately show ?thesis using False assms by (auto simp: server_inv_def on_work_started_def)
qed

lemma finish_step:
  assumes "server_inv s" and "i < length (sv_clients s)"
  shows "\<exists>s'. client_finished i s = Val s' \<and> server_inv s' \<and> sv_spawned s' = sv_spawned s \<and> sv_ex s' = sv_ex s"
proof -
  let ?cs = "take i (sv_clients s) @ drop (Suc i) (sv_clients s)"
  have l: "Suc (length ?cs) = length (sv_clients s)" using assms(2) by simp
  have n: "length (sv_clients s) \<le> 2 ^ 31" using assms(1) by (simp add: server_inv_def)
  have one: "(of_nat m :: size_t) = 1 \<longleftrightarrow> m = 1" if "m \<le> 2 ^ 32" for m using of_nat_size_eq [of m 1] that by simp
  have pred: "(of_nat (Suc m) :: size_t) - 1 = of_nat m" for m by simp
  show ?thesis
  proof (cases "sv_at s")
    case A_accepting
    then have c: "as_count (sv_scope s) = of_nat (Suc (Suc (length ?cs)))" "as_continuation (sv_scope s) = None"
        "sv_ex s = None" "sv_stop_requests s = 0"
      using assms(1) unfolding l by (simp_all add: server_inv_def)
    have "as_count (sv_scope s) \<noteq> 1" unfolding c(1) using one [of "Suc (Suc (length ?cs))"] n l by simp
    then have "client_finished i s = Val (s\<lparr>sv_scope := (sv_scope s)\<lparr>as_count := of_nat (Suc (length ?cs))\<rparr>, sv_clients := ?cs\<rparr>)"
      by (simp add: client_finished_def on_work_finished_def Let_def c(1))
    with c A_accepting l n show ?thesis by (simp add: server_inv_def)
  next
    case A_joining
    then have c: "as_count (sv_scope s) = of_nat (Suc (length ?cs))" "as_continuation (sv_scope s) = Some 0"
      using assms(1) l by (simp_all add: server_inv_def)
    show ?thesis
    proof (cases "?cs = []")
      case True
      with c A_joining assms(1) show ?thesis
        by (simp add: client_finished_def on_work_finished_def server_inv_def acceptor_finish_def Let_def)
    next
      case False
      with one [of "Suc (length ?cs)"] n l have "as_count (sv_scope s) \<noteq> 1" using c(1) by auto
      with False c A_joining assms(1) l n show ?thesis
        by (auto simp: client_finished_def on_work_finished_def server_inv_def Let_def)
    qed
  next
    case A_done
    with assms show ?thesis by (simp add: server_inv_def)
  qed
qed

definition first_error :: "server_event list \<Rightarrow> cpp_exn option" where
  "first_error es = (case List.map_filter accept_error es of [] \<Rightarrow> None | e # _ \<Rightarrow> Some e)"

lemma first_error_simps [simp]:
  "first_error [] = None"
  "first_error (e # es) = (case accept_error e of None \<Rightarrow> first_error es | Some x \<Rightarrow> Some x)"
  by (simp_all add: first_error_def map_filter_simps split: option.split)

lemma server_run_correct:
  assumes "server_inv s" and "server_run es s = Some r"
  shows "\<exists>s'. r = Val s' \<and> server_inv s' \<and> map serves (sv_spawned s') = map serves (sv_spawned s) @ concat (map accepted es) \<and>
    sv_ex s' = (case sv_ex s of None \<Rightarrow> first_error es | Some e \<Rightarrow> Some e)"
  using assms
proof (induction es arbitrary: s)
  case (Cons e es)
  then have en: "server_enabled e s" by (auto split: if_splits)
  show ?case
  proof (cases e)
    case (Accept_completed res peer)
    have "sv_ex s = None" using en Cons.prems(1) Accept_completed by (simp add: server_inv_def)
    moreover note accept_step [OF Cons.prems(1) en [unfolded Accept_completed]]
    moreover from Cons.prems(2) en Accept_completed have "server_run es (acceptor_accept res peer s) = Some r" by simp
    ultimately show ?thesis using Cons.IH [of "acceptor_accept res peer s"] Accept_completed by auto
  next
    case (Client_finished i)
    with en finish_step [OF Cons.prems(1), of i] obtain s' where s': "client_finished i s = Val s'" "server_inv s'"
      "sv_spawned s' = sv_spawned s" "sv_ex s' = sv_ex s" by auto
    with Cons.prems(2) en Client_finished have "server_run es s' = Some r" by simp
    with Cons.IH [OF s'(2)] s'(3,4) Client_finished show ?thesis by (auto split: option.splits)
  qed
qed (auto split: option.split)

text \<open>
  C20: The life of a server. Every connection that \<open>accept\<close> delivers gets exactly one client, in order,
  whose socket owns the descriptor and knows the peer's address. The first failure, of the set-up or of an
  \<open>accept\<close>, ends the accepting and is what the acceptor throws in the end; it ends exactly when
  every client has ended, and then it has asked the service to stop once.
\<close>

theorem server_lifecycle:
  assumes "server_run es (acceptor_start k port_no tr) = Some r"
  shows "\<exists>s. r = Val s \<and> map serves (sv_spawned s) = concat (map accepted es) \<and>
    sv_ex s = (case fst (snd (set_up k port_no socket_new tr)) of Inl e \<Rightarrow> Some e | Inr u \<Rightarrow> first_error es) \<and>
    (sv_at s = A_accepting \<longleftrightarrow> sv_ex s = None) \<and>
    (sv_at s = A_done \<longleftrightarrow> sv_ex s \<noteq> None \<and> sv_clients s = []) \<and>
    sv_stop_requests s = (if sv_at s = A_done then 1 else 0)"
proof -
  from server_run_correct [OF start_inv(1) assms] obtain s where s: "r = Val s" "server_inv s"
    "map serves (sv_spawned s) = concat (map accepted es)"
    "sv_ex s = (case sv_ex (acceptor_start k port_no tr) of None \<Rightarrow> first_error es | Some e \<Rightarrow> Some e)"
    using start_inv(2) by auto
  then show ?thesis
    using start_inv(3) [of k port_no tr]
    by (cases "sv_at s") (auto simp: server_inv_def split: sum.splits)
qed

theorem server_lifecycle_witness:
  "\<exists>s. server_run [Accept_completed 5 (socket_address_port 9), Accept_completed (- 24) (socket_address_port 9), Client_finished 0]
      (acceptor_start friendly_kernel 80 []) = Some (Val s) \<and>
    map serves (sv_spawned s) = [(5, socket_address_port 9)] \<and> sv_ex s = Some (System_error (system_code 24)) \<and> sv_stop_requests s = 1"
proof -
  let ?es = "[Accept_completed 5 (socket_address_port 9), Accept_completed (- 24) (socket_address_port 9), Client_finished 0]"
  let ?s = "acceptor_start friendly_kernel 80 []"
  have ok: "fst (snd (set_up friendly_kernel 80 socket_new [])) = Inr ()" by code_simp
  then obtain f tr where "set_up friendly_kernel 80 socket_new [] = (f, Inr (), tr)" by (metis prod.collapse)
  then have "(case server_run ?es ?s of Some (Val s) \<Rightarrow> sv_at s = A_done | _ \<Rightarrow> False)"
    by (simp add: acceptor_start_def acceptor_accept_def accept_get_result_def get_error_set_value api_policy_def
        accept_complete_def acceptor_catch_def acceptor_finish_def async_scope_new_def on_work_started_def
        on_work_finished_def join_await_ready_def join_arrive_def join_register_def client_finished_def Let_def)
  then obtain s where run: "server_run ?es ?s = Some (Val s)" "sv_at s = A_done"
    by (auto split: option.splits checked.splits)
  from server_lifecycle [OF run(1)] run ok show ?thesis by auto
qed

section \<open>Starting a server\<close>

text \<open>
  \<open>start_service\<close> is the call of \<open>run()\<close>, with a stop token that is never triggered: the task ends when the
  loop has left \<open>run\<close>, and does not suspend before.
\<close>

definition start_service :: "world \<Rightarrow> (cpp_exn + unit) option" where
  "start_service w = (if w_pc w = Stopped then Some (Inr ()) else None)"

text \<open>
  \<open>start_server\<close>: \<open>when_all\<close> starts the acceptor, which suspends in \<open>accept\<close> and goes on inside the loop, and then
  the service, so that the coroutine does not reach its own suspension before \<open>run\<close> has returned.
  \<open>acceptor\<close> is the outcome of the acceptor, if it has ended by then. The result is what
  \<open>co_await\<close> gives, None as long as there is none.
\<close>

definition start_server :: "(cpp_exn + unit) option \<Rightarrow> world \<Rightarrow> (cpp_exn + unit list) checked option" where
  "start_server acceptor w =
    (if start_service w = None then None
     else
       (let (aw, suspended) = wr_co_await 0 [acceptor, start_service w]
              (when_all_ready_awaitable_new [when_all_task_promise_new, when_all_task_promise_new]) in
        if suspended then None else Some (collect_results (wr_await_resume aw))))"

text \<open>
  Once \<open>run\<close> has returned and the acceptor has ended, \<open>start_server\<close> returns or throws what the acceptor did. But the
  acceptor ends the service by \<open>request_stop()\<close>, which \<open>run\<close> does not look at: \<open>start_server\<close> never returns.
\<close>

lemma start_server_outcome:
  assumes "w_pc w = Stopped"
  shows "start_server (Some out) w = Some (Val (case out of Inl ex \<Rightarrow> Inl ex | Inr u \<Rightarrow> Inr [(), ()]))"
proof -
  let ?ts = "[Some out, Some (Inr ())] :: (cpp_exn + unit) option list"
  let ?new = "when_all_ready_awaitable_new (replicate (length ?ts) when_all_task_promise_new) :: unit when_all_ready_awaitable"
  obtain aw b where a: "wr_try_await 0 ?ts ?new = (aw, b)" by fastforce
  have "length ?ts < 2 ^ 63" by simp
  note r = wr_try_await_registers [OF this a]
  have "wr_co_await 0 ?ts ?new = (aw, b)"
    using a by (simp add: wr_co_await_def wr_is_ready_def counter_is_ready_def when_all_ready_awaitable_new_def when_all_counter_new_def)
  moreover have "collect_results (wr_tasks aw) = Val (case out of Inl ex \<Rightarrow> Inl ex | Inr u \<Rightarrow> Inr [(), ()])"
    unfolding r(2) by (cases out) simp_all
  ultimately show ?thesis
    using r(4) assms by (simp add: start_server_def start_service_def wr_await_resume_def Let_def)
qed

lemma start_server_never_returns:
  assumes "reaches w_init io_step w" and "\<not> w_stop_token w"
  shows "start_server acceptor w = None"
  using stopping.inv_reaches [OF assms(1)] assms(2) by (auto simp: start_server_def start_service_def stopped_by_token_def)

end
