(* ===== verification/Spec2Isabelle.thy ===== *)
theory Spec2Isabelle
  imports Stream_Buffer WS_Frame Pico_Chunked WS_Handshake Stream_Transfer Socket_Async IO_Service
    Ownership Coro_Join Coro_Task Coro_Awaitable Simple_Servers Chargen Pingpong_Client WS_Service
    Chat_Server Echo_Revised Ttcp Server
begin

text \<open>
  xynet is a C++20 coroutine library for network programs on Linux: an event loop over
  \<open>io_uring\<close>, socket operations that are awaited, and the HTTP and WebSocket parsers its servers
  use. This development models the library's headers under \<open>src/include/xynet\<close> and the programs under
  \<open>src/example\<close> that are built on them, and proves what makes them correct; where the code does not
  do what it means to, a theorem says what it does instead.

  \<^bold>\<open>The parts and how they interact.\<close> A coroutine awaits an operation (\<open>async_operation\<close>), which
  submits an entry to the ring of the thread's \<open>io_service\<close> and suspends. The service's loop
  collects completions, stores each result in its operation and calls the operation's callback,
  which resumes the coroutine or submits again. Operations carry buffer sequences into the
  kernel and report through error codes or exceptions. Coroutines are composed with \<open>task\<close>,
  \<open>when_all\<close>, \<open>async_scope\<close> and events. The parsers work on the bytes received. An example program is a server
  (\<open>common/server.h\<close>) that accepts connections and spawns one coroutine for each, or a client.

  \<^bold>\<open>Theories.\<close>

  \<^item> \<open>Xy_Prelude\<close>: machine types, C++ exceptions, list and word lemmas, and the locale
    \<open>step_system\<close> (an invariant of the reachable states of a step relation) that every
    concurrent component interprets.

  \<^item> \<open>Buffer_Sequence\<close> (\<open>buffer.h\<close>): \<open>iovec\<close> arrays with the iterator and \<open>commit\<close>; \<open>pending\<close> is the
    list of byte addresses still to be transferred, and \<open>commit\<close> refines dropping from it. The
    locale \<open>transfer_buffer\<close> is what the transfer operations rely on.

  \<^item> \<open>Stream_Buffer\<close> (\<open>stream_buffer.h\<close>): the growing get/put buffer refines a byte queue.

  \<^item> \<open>Incremental_Parser\<close>: the locale of a parser fed in pieces; \<open>WS_Frame\<close>
    (\<open>http/websocket_frame_header.h\<close>, \<open>websocket_frame_mask.h\<close>) interprets it: header builder and
    parser, their round trip, and payload masking.

  \<^item> \<open>Pico_Chunked\<close> and \<open>Pico_Http\<close> (\<open>http/picohttpparser.h\<close>): the chunked decoder against a byte
    automaton, and the request, response and header parsers, in both compile-time variants, with
    reads outside the input as a value of their own (the definitions ending in \<open>_mem\<close> take the
    memory behind the input that may be read, because two loops do not stop at its end). \<open>WS_Handshake\<close> (\<open>http/http_parser.h\<close>,
    \<open>http/websocket_request_handler.h\<close>): the opening handshake, with SHA-1 as a parameter.

  \<^item> \<open>Descriptor\<close> (\<open>detail/error_code.h\<close>, \<open>detail/throw_or_return.h\<close>, \<open>detail/sync_operation.h\<close>,
    \<open>detail/module_list.h\<close>, \<open>file_descriptor.h\<close>): error reporting, the descriptor object, and the
    compile-time module lists as list programs. \<open>Socket_Sync\<close> (\<open>detail/endian.h\<close>,
    \<open>socket/impl/address.h\<close> and the synchronous operations): addresses and their text, and one
    locale \<open>sync_call\<close> with the error contract all synchronous operations share. The kernel is a
    parameter and the calls made are a trace.

  \<^item> \<open>Async_Operation\<close> (\<open>async_operation_base.h\<close>, \<open>detail/async_operation.h\<close>,
    \<open>detail/timeout_storage.h\<close>): results, error pointers, policies, submission. \<open>Stream_Transfer\<close>
    (\<open>socket/impl/recv_all.h\<close>, \<open>send_all.h\<close>): \<open>recv\<close> and \<open>send\<close> as machines driven by completions,
    both interpretations of the locale \<open>stream_completion\<close>. \<open>Socket_Async\<close>: \<open>accept\<close>, \<open>connect\<close>,
    \<open>close\<close>, \<open>splice\<close> and the file operations. \<open>Ownership\<close>: programs over many descriptor objects, and
    exactly which calls of \<open>file_descriptor.h\<close>, \<open>init\<close>, \<open>accept\<close>, \<open>openat\<close> and \<open>close\<close> keep one owner for
    every open descriptor.

  \<^item> \<open>IO_Service\<close> (\<open>io_service.h\<close>): the member functions, and the loop, its producers and the
    kernel's poll as a step relation whose steps are the atomic actions of the code.

  \<^item> \<open>Coro_Join\<close> (\<open>when_all\<close>, \<open>async_scope\<close>, scope guards) and \<open>Coro_Task\<close> (\<open>task\<close>, \<open>fmap\<close>, the two
    events, \<open>sync_wait\<close>): atomic operations as steps; the locale \<open>joining\<close> is the contract of a
    counter that lets one coroutine wait for many. \<open>Coro_Awaitable\<close>
    (\<open>detail/when_all_ready_awaitable.h\<close>, \<open>detail/when_all_task.h\<close>, \<open>detail/sync_wait_task.h\<close>, \<open>task.h\<close>): the
    awaitable that starts tasks and is resumed by the last of them, the promises of \<open>void\<close>
    tasks, the ownership of frames, and the protocol of a task without symmetric transfer.

  \<^item> \<open>Connection\<close>: coroutines over one connection, as functions from the state of the connection to
    a result, built from the transfer machines of \<open>Stream_Transfer\<close>; the kernel answers every
    submitted transfer by a number of bytes or an error. \<open>Simple_Servers\<close> (\<open>example/simple\<close>,
    \<open>example/pingpong\<close>, \<open>example/file_transfer\<close>), \<open>WS_Service\<close> (\<open>common/websocket.h\<close>,
    \<open>example/websocket\<close>) and \<open>Ttcp\<close> (\<open>example/ttcp\<close>) are such coroutines: what they send is a function of
    what they receive.

  \<^item> \<open>Chargen\<close> (\<open>simple/chargen.cpp\<close>), \<open>Pingpong_Client\<close> (\<open>pingpong/pingpong_client.cpp\<close>), \<open>Chat_Room\<close>
    (\<open>chat/chat_server.cpp\<close>, \<open>websocket/websocket_chat.cpp\<close>), \<open>Echo_Revised\<close> (\<open>simple/echo_revised.cpp\<close>) and
    \<open>Server\<close> (\<open>common/server.h\<close>): programs of several coroutines, interleaved at their awaits; a run
    is a list of completions, and theorems hold for all of them. The room refines one ordered
    history; \<open>Chat_Server\<close> connects it with the bytes of the clients.

  \<^bold>\<open>How the code is represented.\<close> Classes are records and member functions are functions on
  them; a pointer into a buffer is an offset or an address, a coroutine handle or an operation's
  address a number. Machine integers are words where their width matters (\<open>size_t\<close> lengths,
  counters, header bytes); \<open>int\<close> results of system calls are unbounded integers. Exceptions are
  the left summand of a result; undefined behaviour is a value (\<open>Undefined\<close>, \<open>Crash\<close>, or an
  explicit result). Loops are recursive functions with termination proofs, so there is no fuel; an endless
  loop over a connection consumes the kernel's answers and is suspended when there are none left.
  Concurrency is interleaving of atomic actions, that is, sequentially consistent; the memory
  orders of the atomics are not modelled.

  \<^bold>\<open>What is shown.\<close> The data path: \<open>recv\<close> and \<open>send\<close> move all bytes in order, or report why not,
  and end; the buffers and parsers below them refine their specifications, round trip, and do
  not depend on how the stream is cut; the last section of this theory puts a frame through
  all of them. The control path: no wake-up of the loop is lost, scheduled operations run in
  order and can always run, joins release their waiter exactly once, tasks deliver their outcome.
  The resources: coroutine frames have one owner, and so have descriptors under exactly the calls that
  are listed as careful. The error paths: what each
  operation reports, and the cases in which the code loses an error, a descriptor or data.
  The programs: the echo servers return what they received, the chat delivers every line to
  every member, the servers and clients end when they should, and where a program corrupts, overruns or
  loses data a theorem gives the input.

  \<^bold>\<open>Bounds.\<close> Theorems on transfers are for buffers of less than \<open>2\<^sup>31\<close> bytes, because the byte count
  is an \<open>int\<close>; counters are for fewer than \<open>2\<^sup>64 - 1\<close> tasks, and the whole of \<open>when_all_ready\<close> for fewer than \<open>2\<^sup>63\<close>. These are
  the ranges in which the code's own arithmetic is defined. \<open>lines_bounded\<close> keeps an unfinished line
  of the chat below \<open>2\<^sup>30\<close> bytes, where the \<open>int\<close> arithmetic of the stream buffer does not overflow.
  Theorems that a coroutine returns ask for enough answers of the kernel (\<open>moves_only\<close>: none of them
  an error) and say how many.

  \<^bold>\<open>Not modelled.\<close> The type traits of awaitables and \<open>coroutine/config.h\<close> have no run-time
  behaviour, nor have deduction guides and the overloads that differ in reference categories only; the
  workarounds for one compiler (\<open>CPPCORO_COMPILER_MSVC\<close>) are not compiled. The capacity
  of the ring is not checked by the source and not bounded here. Reading the \<open>statx\<close> buffer is
  left out, its contents being the kernel's. Of the example programs, the handling of command-line arguments,
  what is printed, the text of \<open>localtime\<close> and \<open>strftime\<close> and throughputs in \<open>double\<close> are left out.
  The tests are clients of the library without behaviour of their own.
\<close>

section \<open>A WebSocket frame over a connection\<close>

definition frame_spans :: "addr \<Rightarrow> websocket_flags \<Rightarrow> addr \<Rightarrow> size_t \<Rightarrow> span list" where
  "frame_spans h flags q len =
    [\<lparr> sp_data = h, sp_size = calc_frame_header_size flags len, sp_elem = 1 \<rparr>,
     \<lparr> sp_data = q, sp_size = len, sp_elem = 1 \<rparr>]"

text \<open>The memory holds the bytes \<open>bs\<close> from address \<open>a\<close> on.\<close>

definition holds_at :: "(addr \<Rightarrow> u8) \<Rightarrow> addr \<Rightarrow> u8 list \<Rightarrow> bool" where
  "holds_at mem a bs \<longleftrightarrow> (\<forall>k < length bs. mem (a + of_nat k) = bs ! k)"

lemma holds_at_simps [simp]:
  "holds_at mem a []"
  "holds_at mem a (b # bs) \<longleftrightarrow> mem a = b \<and> holds_at mem (a + 1) bs"
  by (auto simp: holds_at_def less_Suc_eq_0_disj algebra_simps)

lemma holds_at_bytes:
  "holds_at mem a bs \<Longrightarrow> unat n = length bs \<Longrightarrow> map mem (iov_bytes \<lparr> iov_base = a, iov_len = n \<rparr>) = bs"
  by (auto simp: holds_at_def iov_bytes_def intro: nth_equalityI)

lemma length_header_view:
  "length (header_view (websocket_frame_header_new flags len)) = unat (calc_frame_header_size flags len)"
  by (simp add: header_view_new length_header_bytes)

lemma frame_spans_bytes:
  assumes "holds_at mem h (header_view (websocket_frame_header_new flags len))"
    and "holds_at mem q payload" and "length payload = unat len"
  shows "map mem (pending (buffer_sequence_base (frame_spans h flags q len))) =
    header_view (websocket_frame_header_new flags len) @ payload"
  using holds_at_bytes [OF assms(1), of "calc_frame_header_size flags len"]
    holds_at_bytes [OF assms(2), of len] assms(3)
  by (simp add: pending_def buffer_sequence_base_def buffer_sequence_storage_def frame_spans_def
      size_bytes_def length_header_view)

lemma frame_spans_ok:
  assumes "0 < len" and "unat len + 14 < 2 ^ 31"
  shows "args_ok (frame_spans h flags q len)"
    and "length (pending (buffer_sequence_base (frame_spans h flags q len))) =
      unat (calc_frame_header_size flags len) + unat len"
proof -
  have "calc_frame_header_size flags len \<noteq> 0"
    by (simp add: calc_frame_header_size_def Let_def)
  with assms header_size_le [of flags len] show "args_ok (frame_spans h flags q len)"
    by (simp add: args_ok_def frame_spans_def size_bytes_def word_gt_0)
  show "length (pending (buffer_sequence_base (frame_spans h flags q len))) =
      unat (calc_frame_header_size flags len) + unat len"
    by (simp add: length_pending_base frame_spans_def size_bytes_def)
qed

text \<open>
  C2: A frame sent is the frame received. A header built by \<open>websocket_frame_header\<close> and its
  payload are sent from two separate buffers by one \<open>send\<close>, in as many partial transfers as
  the kernel likes, and the stream arrives in whatever pieces the network makes of it: the
  receiver's header parser, fed piece by piece, completes with the flags and the length the
  frame was built from, and the bytes of the stream behind the header are the payload.
\<close>

theorem websocket_frame_transmitted:
  assumes "0 < len" and "unat len + 14 < 2 ^ 31" and "length payload = unat len"
    and "holds_at mem h (header_view (websocket_frame_header_new flags len))" and "holds_at mem q payload"
    and "clear_error e"
    and "kernel_moves (unat (calc_frame_header_size flags len) + unat len) rs"
    and "total_moved rs = unat (calc_frame_header_size flags len) + unat len"
    and "drive (send_complete fd) rs (send (Some s) d e (frame_spans h flags q len) a) = (op, resumed, moved)"
    and "concat chunks = map mem moved"
  shows "resumed \<and>
    (\<exists>p. feed_chunks (\<lambda>p xs. parse_loop p xs 0) parser_new chunks 0 =
        (p, Some (unat (calc_frame_header_size flags len))) \<and>
      m_state p = S_finished \<and> websocket_frame_header_parser.m_flags p = flags AND 0x3F \<and> m_length p = len) \<and>
    drop (unat (calc_frame_header_size flags len)) (concat chunks) = payload"
proof -
  let ?spans = "frame_spans h flags q len"
  note ok = frame_spans_ok [OF assms(1,2), of h flags q]
  note new = args_ok_new(1) [OF ok(1) assms(6), of s d a] args_ok_new(2,3) [OF ok(1) assms(6)]
  have d: "drive (send_complete fd) rs (stream_operation_new (Some s) d e ?spans a) = (op, resumed, moved)"
    using assms(9) by (simp add: send_def async_sendmsg_def)
  from send_all.drive_moves [OF new(1) _ _ _ d] new(2,3) assms(7,8) ok(2)
  have moved: "moved = pending (buffer_sequence_base ?spans)" and "resumed" by simp_all
  from frame_spans_bytes [OF assms(4,5,3)] assms(10) moved
  have stream: "concat chunks = header_bytes flags [0, 0, 0, 0] len @ payload"
    by (simp add: header_view_new)
  with parse_new_header [of "[0, 0, 0, 0]" flags len payload] length_header_bytes [of "[0, 0, 0, 0]" flags len]
    \<open>resumed\<close> show ?thesis
    by (auto simp: wsp.feed_chunks_whole)
qed

text \<open>A text frame of two bytes, sent in two transfers.\<close>

definition sample_mem :: "addr \<Rightarrow> u8" where
  "sample_mem a = (if a = 100 then 0x81 else if a = 101 then 2 else if a = 200 then 72 else 105)"

theorem websocket_frame_transmitted_witness:
  "\<exists>p op moved. drive (send_complete 7) [3, 1] (send (Some 1) None None (frame_spans 100 0x11 200 2) 64)
      = (op, True, moved) \<and>
    feed_chunks (\<lambda>p xs. parse_loop p xs 0) parser_new [map sample_mem moved] 0 = (p, Some 2) \<and>
    m_length p = 2 \<and> drop 2 (map sample_mem moved) = [72, 105]"
proof -
  have size: "unat (calc_frame_header_size 0x11 2) = 2"
    by (simp add: calc_frame_header_size_def mask_iff bit_simps)
  have "header_view (websocket_frame_header_new 0x11 2) = [0x81, 2]"
    by (simp add: header_view_new header_bytes_def wire_len_code_def bit_simps)
  then have holds: "holds_at sample_mem 100 (header_view (websocket_frame_header_new 0x11 2))"
    "holds_at sample_mem 200 [72, 105]"
    by (simp_all add: sample_mem_def)
  obtain op resumed moved where
    d: "drive (send_complete 7) [3, 1] (send (Some 1) None None (frame_spans 100 0x11 200 2) 64) = (op, resumed, moved)"
    by (metis prod_cases3)
  from websocket_frame_transmitted [OF _ _ _ holds _ _ _ d, of "[map sample_mem moved]"] d show ?thesis
    by (auto simp: size)
qed

end
